(* ===== verification/Prelude.thy ===== *)
theory Prelude
  imports Main "HOL-Library.Word" "HOL-Library.Monad_Syntax"
begin

text \<open>
  What the components share: the names of the machine integer types of
  \<^verbatim>\<open>kernel/h/types.h\<close>, the convention for addresses and faults, the loop and list
  lemmas that more than one component uses, and the collections their proofs draw on.

  Conventions.  An address is a \<^typ>\<open>nat\<close> and \<open>0\<close> is the null pointer.  A
  computation that may fault (a null or dangling pointer is dereferenced, a division by
  zero traps) or may not return has a result in \<open>option\<close>: \<open>None\<close> means that no
  result is produced.  The source's \<^verbatim>\<open>size_t\<close> is \<^verbatim>\<open>typedef int\<close>, so sizes are \<^typ>\<open>int\<close>
  where their sign matters.  \<^verbatim>\<open>assert\<close> in the files that do not define the macro themselves
  is the function of \<^verbatim>\<open>kernel/src/dev/timer.c\<close> with an empty body: there it checks nothing,
  and its argument is evaluated for its dereferences only.
\<close>

section \<open>Machine integers\<close>

type_synonym u8 = "8 word"
type_synonym u16 = "16 word"
type_synonym u32 = "32 word"
type_synonym addr = nat

section \<open>Collections\<close>

named_theorems frame_simps

section \<open>Checked array reads and writes\<close>

text \<open>An access outside the array is the value \<open>None\<close>.\<close>

definition nth_opt :: "'a list \<Rightarrow> nat \<Rightarrow> 'a option" where
  "nth_opt xs i = (if i < length xs then Some (xs ! i) else None)"

definition upd_opt :: "'a list \<Rightarrow> nat \<Rightarrow> 'a \<Rightarrow> 'a list option" where
  "upd_opt xs i v = (if i < length xs then Some (xs[i := v]) else None)"

lemma nth_opt_simps [simp]:
  "i < length xs \<Longrightarrow> nth_opt xs i = Some (xs ! i)" "length xs \<le> i \<Longrightarrow> nth_opt xs i = None"
  by (simp_all add: nth_opt_def)

lemma nth_opt_eq_Some: "nth_opt xs i = Some v \<longleftrightarrow> i < length xs \<and> v = xs ! i"
  by (auto simp: nth_opt_def)

lemma upd_opt_simps [simp]:
  "i < length xs \<Longrightarrow> upd_opt xs i v = Some (xs[i := v])" "length xs \<le> i \<Longrightarrow> upd_opt xs i v = None"
  by (simp_all add: upd_opt_def)

section \<open>Heads and ends of segments\<close>

definition hd_or :: "'a \<Rightarrow> 'a list \<Rightarrow> 'a" where
  "hd_or q xs = (case xs of [] \<Rightarrow> q | x # _ \<Rightarrow> x)"

definition last_or :: "'a \<Rightarrow> 'a list \<Rightarrow> 'a" where
  "last_or p xs = (if xs = [] then p else last xs)"

lemma hd_or_simps [simp]: "hd_or q [] = q" "hd_or q (x # xs) = x"
  by (simp_all add: hd_or_def)

lemma hd_or_append [simp]: "hd_or q (xs @ ys) = hd_or (hd_or q ys) xs"
  by (cases xs) simp_all

lemma last_or_simps [simp]: "last_or p [] = p" "last_or p (xs @ [x]) = x"
  by (simp_all add: last_or_def)

lemma last_or_Cons [simp]: "last_or p (x # xs) = last_or x xs"
  by (simp add: last_or_def)

lemma last_or_append [simp]: "last_or p (xs @ ys) = last_or (last_or p xs) ys"
  by (simp add: last_or_def)

lemma last_or_in: "xs \<noteq> [] \<Longrightarrow> last_or p xs \<in> set xs"
  by (simp add: last_or_def)

lemma last_or_in_insert: "last_or p xs \<in> insert p (set xs)"
  by (simp add: last_or_def)

lemma hd_or_in: "xs \<noteq> [] \<Longrightarrow> hd_or q xs \<in> set xs"
  by (cases xs) simp_all

lemma hd_or_nz: "0 \<notin> set xs \<Longrightarrow> (hd_or 0 xs = (0::nat)) = (xs = [])"
  by (cases xs) auto

lemma last_or_nz: "0 \<notin> set xs \<Longrightarrow> (last_or 0 xs = (0::nat)) = (xs = [])"
  by (metis last_or_def last_in_set)

end
