(* ===== verification/Interfaces.thy ===== *)
theory Interfaces
  imports Prelude
begin

text \<open>
  The contracts through which components use each other.  A contract fixes the operations
  its clients call and assumes the laws its provider promises; what a client can conclude
  from the laws is proved here once.  Every contract is interpreted, on the definitions
  that model the code, in the theory of the component that provides it.
\<close>

section \<open>Queues of values\<close>

text \<open>
  A linked list used as a first-in first-out queue: \<open>enq\<close> may need a fresh node, \<open>deq\<close>
  returns \<open>None\<close> on an empty queue.  \<open>drain\<close> is the loop that empties a queue.
\<close>

locale value_queue =
  fixes rep :: "'h \<Rightarrow> 'v list \<Rightarrow> bool"
    and fresh :: "'h \<Rightarrow> 'a \<Rightarrow> bool"
    and enq :: "'a \<Rightarrow> 'v \<Rightarrow> 'h \<Rightarrow> 'h option"
    and deq :: "'h \<Rightarrow> ('v option \<times> 'h) option"
  assumes enq_rep: "rep h xs \<Longrightarrow> fresh h a \<Longrightarrow> \<exists>h'. enq a v h = Some h' \<and> rep h' (xs @ [v])"
    and deq_empty: "rep h [] \<Longrightarrow> deq h = Some (None, h)"
    and deq_rep: "rep h (x # xs) \<Longrightarrow> \<exists>h'. deq h = Some (Some x, h') \<and> rep h' xs"
begin

fun drain :: "nat \<Rightarrow> 'h \<Rightarrow> ('v list \<times> 'h) option" where
  "drain 0 h = None"
| "drain (Suc k) h = do {
     (x, h) \<leftarrow> deq h;
     case x of None \<Rightarrow> Some ([], h)
     | Some v \<Rightarrow> do { (vs, h) \<leftarrow> drain k h; Some (v # vs, h) }
   }"

lemma drain_rep: "rep h xs \<Longrightarrow> length xs < k \<Longrightarrow> \<exists>h'. drain k h = Some (xs, h') \<and> rep h' []"
proof (induction xs arbitrary: h k)
  case Nil
  then show ?case by (cases k) (auto simp: deq_empty)
next
  case (Cons x xs)
  from deq_rep [OF Cons.prems(1)] obtain h1 where h1: "deq h = Some (Some x, h1)" "rep h1 xs"
    by blast
  from Cons.prems(2) obtain j where k: "k = Suc j" and "length xs < j" by (cases k) auto
  with Cons.IH [OF h1(2)] obtain h2 where "drain j h1 = Some (xs, h2)" "rep h2 []" by blast
  with h1 k show ?case by simp
qed

lemma enq_deq_order:
  assumes "rep h []" and "fresh h a" and "enq a v h = Some h1"
    and "fresh h1 b" and "enq b w h1 = Some h2"
  shows "\<exists>h'. drain 3 h2 = Some ([v, w], h') \<and> rep h' []"
proof -
  have "rep h1 [v]" using enq_rep [OF assms(1,2), of v] assms(3) by simp
  then have "rep h2 [v, w]" using enq_rep [OF _ assms(4), of "[v]" w] assms(5) by simp
  then show ?thesis using drain_rep by fastforce
qed

end

section \<open>Stacks of values\<close>

text \<open>The same list used from its tail.\<close>

locale value_stack =
  fixes rep :: "'h \<Rightarrow> 'v list \<Rightarrow> bool"
    and fresh :: "'h \<Rightarrow> 'a \<Rightarrow> bool"
    and push :: "'a \<Rightarrow> 'v \<Rightarrow> 'h \<Rightarrow> 'h option"
    and pop :: "'h \<Rightarrow> ('v option \<times> 'h) option"
  assumes push_rep: "rep h xs \<Longrightarrow> fresh h a \<Longrightarrow> \<exists>h'. push a v h = Some h' \<and> rep h' (xs @ [v])"
    and pop_empty: "rep h [] \<Longrightarrow> pop h = Some (None, h)"
    and pop_rep: "rep h (xs @ [x]) \<Longrightarrow> \<exists>h'. pop h = Some (Some x, h') \<and> rep h' xs"
begin

lemma push_pop:
  assumes "rep h xs" and "fresh h a" and "push a v h = Some h1"
  shows "\<exists>h'. pop h1 = Some (Some v, h') \<and> rep h' xs"
  using push_rep [OF assms(1,2), of v] pop_rep assms(3) by auto

end

section \<open>Maps of values\<close>

text \<open>
  A map from keys to pointers: \<open>get\<close> answers the null pointer for an absent key, \<open>put\<close>
  answers the value it replaces.  \<open>put_all\<close> is a sequence of updates.
\<close>

definition or_null :: "addr option \<Rightarrow> addr" where
  "or_null v = (case v of None \<Rightarrow> 0 | Some a \<Rightarrow> a)"

lemma or_null_simps [simp]: "or_null None = 0" "or_null (Some a) = a"
  by (simp_all add: or_null_def)

locale value_map =
  fixes rep :: "'m \<Rightarrow> ('k \<Rightarrow> addr option) \<Rightarrow> bool"
    and ok :: "'k \<Rightarrow> bool"
    and get :: "'m \<Rightarrow> 'k \<Rightarrow> addr option"
    and has :: "'m \<Rightarrow> 'k \<Rightarrow> bool option"
    and put :: "'m \<Rightarrow> 'k \<Rightarrow> addr \<Rightarrow> (addr \<times> 'm) option"
  assumes get_rep: "rep m f \<Longrightarrow> ok k \<Longrightarrow> get m k = Some (or_null (f k))"
    and has_rep: "rep m f \<Longrightarrow> ok k \<Longrightarrow> has m k = Some (f k \<noteq> None)"
    and put_rep: "rep m f \<Longrightarrow> ok k \<Longrightarrow>
      \<exists>m'. put m k v = Some (or_null (f k), m') \<and> rep m' (f(k \<mapsto> v))"
begin

fun put_all :: "('k \<times> addr) list \<Rightarrow> 'm \<Rightarrow> 'm option" where
  "put_all [] m = Some m"
| "put_all ((k, v) # kvs) m = do { (old, m) \<leftarrow> put m k v; put_all kvs m }"

lemma put_all_rep:
  "rep m f \<Longrightarrow> \<forall>k \<in> fst ` set kvs. ok k \<Longrightarrow>
   \<exists>m'. put_all kvs m = Some m' \<and> rep m' (f ++ map_of (rev kvs))"
proof (induction kvs arbitrary: m f)
  case (Cons kv kvs)
  obtain k v where kv: "kv = (k, v)" by (cases kv)
  have okk: "ok k" using Cons.prems(2) kv by simp
  obtain m1 where m1: "put m k v = Some (or_null (f k), m1)" "rep m1 (f(k \<mapsto> v))"
    using put_rep [OF Cons.prems(1), of k v] okk by blast
  have "\<forall>k \<in> fst ` set kvs. ok k" using Cons.prems(2) by simp
  from Cons.IH [OF m1(2) this]
  obtain m2 where "put_all kvs m1 = Some m2" "rep m2 (f(k \<mapsto> v) ++ map_of (rev kvs))"
    by blast
  moreover have "f(k \<mapsto> v) ++ map_of (rev kvs) = f ++ map_of (rev (kv # kvs))"
    by (simp add: kv)
  ultimately have "put_all (kv # kvs) m = Some m2" "rep m2 (f ++ map_of (rev (kv # kvs)))"
    by (simp_all only: kv put_all.simps m1(1) bind.simps prod.case)
  then show ?case by blast
next
  case Nil
  then show ?case by simp
qed

lemma last_put_wins:
  assumes "rep m f" and "\<forall>k' \<in> fst ` set kvs. ok k'" and "ok k" and "map_of (rev kvs) k = Some v"
  shows "\<exists>m'. put_all kvs m = Some m' \<and> get m' k = Some v \<and> has m' k = Some True"
proof -
  obtain m' where m': "put_all kvs m = Some m'" "rep m' (f ++ map_of (rev kvs))"
    using put_all_rep [OF assms(1,2)] by blast
  have "(f ++ map_of (rev kvs)) k = Some v" using assms(4) by (simp add: map_add_def)
  then show ?thesis using m'(1) get_rep [OF m'(2) assms(3)] has_rep [OF m'(2) assms(3)] by simp
qed

end

section \<open>Byte queues over a circular buffer\<close>

text \<open>
  The contract the ring buffer and the pipe share: a bounded byte queue with its two counters, one
  byte in and one byte out.  \<open>collect\<close> and \<open>deposit\<close> are the inner loops of their read and
  write operations.
\<close>

locale byte_fifo =
  fixes inv :: "'s \<Rightarrow> bool"
    and contents :: "'s \<Rightarrow> u8 list"
    and capacity :: "'s \<Rightarrow> nat"
    and unread :: "'s \<Rightarrow> int"
    and available :: "'s \<Rightarrow> int"
    and take_byte :: "'s \<Rightarrow> (u8 \<times> 's) option"
    and put_byte :: "u8 \<Rightarrow> 's \<Rightarrow> 's option"
  assumes unread_length: "inv s \<Longrightarrow> unread s = int (length (contents s))"
    and available_room: "inv s \<Longrightarrow> available s = int (capacity s) - int (length (contents s))"
    and take_law: "inv s \<Longrightarrow> contents s = b # bs \<Longrightarrow>
      \<exists>s'. take_byte s = Some (b, s') \<and> inv s' \<and> contents s' = bs \<and> capacity s' = capacity s"
    and put_law: "inv s \<Longrightarrow> length (contents s) < capacity s \<Longrightarrow>
      \<exists>s'. put_byte b s = Some s' \<and> inv s' \<and> contents s' = contents s @ [b] \<and> capacity s' = capacity s"
begin

fun collect :: "nat \<Rightarrow> 's \<Rightarrow> (u8 list \<times> 's) option" where
  "collect 0 s = Some ([], s)"
| "collect (Suc n) s =
     (if unread s > 0 then do {
        (b, s) \<leftarrow> take_byte s;
        (bs, s) \<leftarrow> collect n s;
        Some (b # bs, s) }
      else Some ([], s))"

fun deposit :: "u8 list \<Rightarrow> 's \<Rightarrow> (u8 list \<times> 's) option" where
  "deposit [] s = Some ([], s)"
| "deposit (b # bs) s =
     (if available s > 0 then do { s \<leftarrow> put_byte b s; deposit bs s }
      else Some (b # bs, s))"

lemma collect_contents:
  "inv s \<Longrightarrow> \<exists>s'. collect n s = Some (take n (contents s), s') \<and> inv s'
     \<and> contents s' = drop n (contents s) \<and> capacity s' = capacity s"
proof (induction n arbitrary: s)
  case (Suc n)
  show ?case
  proof (cases "contents s")
    case Nil
    then show ?thesis using Suc.prems unread_length [OF Suc.prems] by simp
  next
    case (Cons b bs)
    then obtain s1 where s1: "take_byte s = Some (b, s1)" "inv s1" "contents s1 = bs" "capacity s1 = capacity s"
      using take_law [OF Suc.prems] by blast
    obtain s2 where "collect n s1 = Some (take n bs, s2)" "inv s2" "contents s2 = drop n bs"
      "capacity s2 = capacity s"
      using Suc.IH [OF s1(2)] s1(3,4) by auto
    then show ?thesis using s1(1) Cons unread_length [OF Suc.prems] by simp
  qed
qed simp

lemma deposit_contents:
  "inv s \<Longrightarrow> length (contents s) \<le> capacity s \<Longrightarrow>
   \<exists>s'. deposit bs s = Some (drop (capacity s - length (contents s)) bs, s') \<and> inv s'
     \<and> contents s' = contents s @ take (capacity s - length (contents s)) bs \<and> capacity s' = capacity s"
proof (induction bs arbitrary: s)
  case (Cons b bs)
  show ?case
  proof (cases "length (contents s) < capacity s")
    case False
    then show ?thesis using Cons.prems available_room [OF Cons.prems(1)] by simp
  next
    case True
    then obtain s1 where s1: "put_byte b s = Some s1" "inv s1" "contents s1 = contents s @ [b]"
        "capacity s1 = capacity s"
      using put_law [OF Cons.prems(1)] by blast
    define r where "r = capacity s1 - length (contents s1)"
    have r: "capacity s - length (contents s) = Suc r" using True s1(3,4) by (simp add: r_def)
    obtain s2 where "deposit bs s1 = Some (drop r bs, s2)" "inv s2"
      "contents s2 = contents s1 @ take r bs" "capacity s2 = capacity s1"
      using Cons.IH [OF s1(2)] s1(3,4) True by (auto simp: r_def)
    then show ?thesis using s1 True available_room [OF Cons.prems(1)] by (simp add: r)
  qed
qed simp

text \<open>What was deposited into an empty queue with room for it is collected unchanged.\<close>
lemma deposit_collect:
  assumes "inv s" and "contents s = []" and "length bs \<le> capacity s" and "length bs \<le> n"
  shows "\<exists>s1 s2. deposit bs s = Some ([], s1) \<and> collect n s1 = Some (bs, s2) \<and> contents s2 = []"
proof -
  obtain s1 where s1: "deposit bs s = Some ([], s1)" "inv s1" "contents s1 = bs"
    using deposit_contents [OF assms(1), of bs] assms(2,3) by auto
  show ?thesis using collect_contents [OF s1(2), of n] s1(1,3) assms(4) by auto
qed

end

end
