(* ===== verification/CList.thy ===== *)
theory CList
  imports Interfaces
begin

text \<open>
  The doubly linked list of \<^verbatim>\<open>kernel/src/list.c\<close> on an explicit heap.  A list header and its
  nodes are heap objects, so that aliasing between lists and between a node and its owner is
  visible.  The address that \<^verbatim>\<open>valloc\<close> returns is an argument of the operations that allocate;
  \<open>fresh_node\<close> and \<open>fresh_list\<close> are what they rely on.
\<close>

section \<open>Heap objects\<close>

record node_t =
  nnext :: addr
  nprev :: addr
  nvalue :: addr
  nowner :: addr

record list_t =
  lhead :: addr
  ltail :: addr
  llength :: int

record lheap =
  hnodes :: "addr \<rightharpoonup> node_t"
  hlists :: "addr \<rightharpoonup> list_t"
  hfreed :: "addr list"

definition upd_node :: "addr \<Rightarrow> (node_t \<Rightarrow> node_t) \<Rightarrow> lheap \<Rightarrow> lheap option" where
  "upd_node n f h = do { x \<leftarrow> hnodes h n; Some (h\<lparr>hnodes := (hnodes h)(n \<mapsto> f x)\<rparr>) }"

definition upd_list :: "addr \<Rightarrow> (list_t \<Rightarrow> list_t) \<Rightarrow> lheap \<Rightarrow> lheap option" where
  "upd_list l f h = do { x \<leftarrow> hlists h l; Some (h\<lparr>hlists := (hlists h)(l \<mapsto> f x)\<rparr>) }"

definition free_addr :: "addr \<Rightarrow> lheap \<Rightarrow> lheap" where
  "free_addr a h = h\<lparr>hnodes := (hnodes h)(a := None), hlists := (hlists h)(a := None),
                     hfreed := hfreed h @ [a]\<rparr>"

definition fresh_node :: "lheap \<Rightarrow> addr \<Rightarrow> bool" where
  "fresh_node h a \<longleftrightarrow> a \<noteq> 0 \<and> hnodes h a = None"

definition fresh_list :: "lheap \<Rightarrow> addr \<Rightarrow> bool" where
  "fresh_list h a \<longleftrightarrow> a \<noteq> 0 \<and> hlists h a = None"

section \<open>Operations\<close>

definition list_append :: "addr \<Rightarrow> addr \<Rightarrow> lheap \<Rightarrow> lheap option" where
  "list_append list node h = do {
     h \<leftarrow> upd_node node (\<lambda>x. x\<lparr>nnext := 0\<rparr>) h;
     h \<leftarrow> upd_node node (\<lambda>x. x\<lparr>nowner := list\<rparr>) h;
     l \<leftarrow> hlists h list;
     if llength l = 0 then do {
       h \<leftarrow> upd_list list (\<lambda>l. l\<lparr>lhead := node\<rparr>) h;
       h \<leftarrow> upd_list list (\<lambda>l. l\<lparr>ltail := node\<rparr>) h;
       h \<leftarrow> upd_node node (\<lambda>x. x\<lparr>nprev := 0\<rparr>) h;
       h \<leftarrow> upd_node node (\<lambda>x. x\<lparr>nnext := 0\<rparr>) h;
       upd_list list (\<lambda>l. l\<lparr>llength := llength l + 1\<rparr>) h
     } else do {
       h \<leftarrow> upd_node (ltail l) (\<lambda>x. x\<lparr>nnext := node\<rparr>) h;
       h \<leftarrow> upd_node node (\<lambda>x. x\<lparr>nprev := ltail l\<rparr>) h;
       h \<leftarrow> upd_list list (\<lambda>l. l\<lparr>ltail := node\<rparr>) h;
       upd_list list (\<lambda>l. l\<lparr>llength := llength l + 1\<rparr>) h
     }
   }"

definition new_node :: "addr \<Rightarrow> addr \<Rightarrow> lheap \<Rightarrow> lheap" where
  "new_node a item h =
     h\<lparr>hnodes := (hnodes h)(a \<mapsto> \<lparr>nnext = 0, nprev = 0, nvalue = item, nowner = 0\<rparr>)\<rparr>"

definition list_insert :: "addr \<Rightarrow> addr \<Rightarrow> addr \<Rightarrow> lheap \<Rightarrow> (addr \<times> lheap) option" where
  "list_insert a list item h = do {
     h \<leftarrow> list_append list a (new_node a item h);
     Some (a, h)
   }"

definition list_append_after :: "addr \<Rightarrow> addr \<Rightarrow> addr \<Rightarrow> lheap \<Rightarrow> lheap option" where
  "list_append_after list before node h = do {
     h \<leftarrow> upd_node node (\<lambda>x. x\<lparr>nowner := list\<rparr>) h;
     l \<leftarrow> hlists h list;
     if llength l = 0 then list_append list node h
     else if before = 0 then do {
       h \<leftarrow> upd_node node (\<lambda>x. x\<lparr>nnext := lhead l\<rparr>) h;
       h \<leftarrow> upd_node node (\<lambda>x. x\<lparr>nprev := 0\<rparr>) h;
       h \<leftarrow> upd_node (lhead l) (\<lambda>x. x\<lparr>nprev := node\<rparr>) h;
       h \<leftarrow> upd_list list (\<lambda>l. l\<lparr>lhead := node\<rparr>) h;
       upd_list list (\<lambda>l. l\<lparr>llength := llength l + 1\<rparr>) h
     } else do {
       h \<leftarrow> (if before = ltail l then upd_list list (\<lambda>l. l\<lparr>ltail := node\<rparr>) h
            else do {
              b \<leftarrow> hnodes h before;
              h \<leftarrow> upd_node (nnext b) (\<lambda>x. x\<lparr>nprev := node\<rparr>) h;
              b \<leftarrow> hnodes h before;
              upd_node node (\<lambda>x. x\<lparr>nnext := nnext b\<rparr>) h
            });
       h \<leftarrow> upd_node node (\<lambda>x. x\<lparr>nprev := before\<rparr>) h;
       h \<leftarrow> upd_node before (\<lambda>x. x\<lparr>nnext := node\<rparr>) h;
       upd_list list (\<lambda>l. l\<lparr>llength := llength l + 1\<rparr>) h
     }
   }"

definition list_insert_after ::
  "addr \<Rightarrow> addr \<Rightarrow> addr \<Rightarrow> addr \<Rightarrow> lheap \<Rightarrow> (addr \<times> lheap) option" where
  "list_insert_after a list before item h = do {
     h \<leftarrow> list_append_after list before a (new_node a item h);
     Some (a, h)
   }"

definition list_append_before :: "addr \<Rightarrow> addr \<Rightarrow> addr \<Rightarrow> lheap \<Rightarrow> lheap option" where
  "list_append_before list after node h = do {
     h \<leftarrow> upd_node node (\<lambda>x. x\<lparr>nowner := list\<rparr>) h;
     l \<leftarrow> hlists h list;
     if llength l = 0 then list_append list node h
     else if after = 0 then do {
       h \<leftarrow> upd_node node (\<lambda>x. x\<lparr>nnext := 0\<rparr>) h;
       h \<leftarrow> upd_node node (\<lambda>x. x\<lparr>nprev := ltail l\<rparr>) h;
       h \<leftarrow> upd_node (ltail l) (\<lambda>x. x\<lparr>nnext := node\<rparr>) h;
       h \<leftarrow> upd_list list (\<lambda>l. l\<lparr>ltail := node\<rparr>) h;
       upd_list list (\<lambda>l. l\<lparr>llength := llength l + 1\<rparr>) h
     } else do {
       h \<leftarrow> (if after = lhead l then upd_list list (\<lambda>l. l\<lparr>lhead := node\<rparr>) h
            else do {
              a \<leftarrow> hnodes h after;
              h \<leftarrow> upd_node (nprev a) (\<lambda>x. x\<lparr>nnext := node\<rparr>) h;
              a \<leftarrow> hnodes h after;
              upd_node node (\<lambda>x. x\<lparr>nprev := nprev a\<rparr>) h
            });
       h \<leftarrow> upd_node node (\<lambda>x. x\<lparr>nnext := after\<rparr>) h;
       h \<leftarrow> upd_node after (\<lambda>x. x\<lparr>nprev := node\<rparr>) h;
       upd_list list (\<lambda>l. l\<lparr>llength := llength l + 1\<rparr>) h
     }
   }"

definition list_insert_before ::
  "addr \<Rightarrow> addr \<Rightarrow> addr \<Rightarrow> addr \<Rightarrow> lheap \<Rightarrow> (addr \<times> lheap) option" where
  "list_insert_before a list after item h = do {
     h \<leftarrow> list_append_before list after a (new_node a item h);
     Some (a, h)
   }"

definition list_create :: "addr \<Rightarrow> lheap \<Rightarrow> lheap" where
  "list_create a h = h\<lparr>hlists := (hlists h)(a \<mapsto> \<lparr>lhead = 0, ltail = 0, llength = 0\<rparr>)\<rparr>"

partial_function (option) list_find_from :: "addr \<Rightarrow> addr \<Rightarrow> lheap \<Rightarrow> addr option" where
  "list_find_from item value h =
     (if item = 0 then Some 0
      else do {
        x \<leftarrow> hnodes h item;
        if nvalue x = value then Some item else list_find_from (nnext x) value h
      })"

definition list_find :: "addr \<Rightarrow> addr \<Rightarrow> lheap \<Rightarrow> addr option" where
  "list_find list value h = do { l \<leftarrow> hlists h list; list_find_from (lhead l) value h }"

partial_function (option) list_index_from :: "addr \<Rightarrow> addr \<Rightarrow> int \<Rightarrow> lheap \<Rightarrow> int option" where
  "list_index_from item value i h =
     (if item = 0 then Some (-1)
      else do {
        x \<leftarrow> hnodes h item;
        if nvalue x = value then Some i else list_index_from (nnext x) value (i + 1) h
      })"

definition list_index_of :: "addr \<Rightarrow> addr \<Rightarrow> lheap \<Rightarrow> int option" where
  "list_index_of list value h = do { l \<leftarrow> hlists h list; list_index_from (lhead l) value 0 h }"

definition list_delete :: "addr \<Rightarrow> addr \<Rightarrow> lheap \<Rightarrow> lheap option" where
  "list_delete list node h = do {
     x \<leftarrow> hnodes h node;
     l \<leftarrow> hlists h list;
     h \<leftarrow> (if node = lhead l then upd_list list (\<lambda>l. l\<lparr>lhead := nnext x\<rparr>) h else Some h);
     h \<leftarrow> (if node = ltail l then upd_list list (\<lambda>l. l\<lparr>ltail := nprev x\<rparr>) h else Some h);
     h \<leftarrow> (if nprev x \<noteq> 0 then upd_node (nprev x) (\<lambda>y. y\<lparr>nnext := nnext x\<rparr>) h else Some h);
     h \<leftarrow> (if nnext x \<noteq> 0 then upd_node (nnext x) (\<lambda>y. y\<lparr>nprev := nprev x\<rparr>) h else Some h);
     h \<leftarrow> upd_node node (\<lambda>y. y\<lparr>nprev := 0\<rparr>) h;
     h \<leftarrow> upd_node node (\<lambda>y. y\<lparr>nnext := 0\<rparr>) h;
     h \<leftarrow> upd_node node (\<lambda>y. y\<lparr>nowner := 0\<rparr>) h;
     upd_list list (\<lambda>l. l\<lparr>llength := llength l - 1\<rparr>) h
   }"

fun list_walk :: "nat \<Rightarrow> addr \<Rightarrow> lheap \<Rightarrow> addr option" where
  "list_walk 0 n h = Some n"
| "list_walk (Suc i) n h = do { x \<leftarrow> hnodes h n; list_walk i (nnext x) h }"

definition list_remove :: "addr \<Rightarrow> int \<Rightarrow> lheap \<Rightarrow> lheap option" where
  "list_remove list index h = do {
     l \<leftarrow> hlists h list;
     if index > llength l then Some h
     else do {
       n \<leftarrow> list_walk (nat index) (lhead l) h;
       list_delete list n h
     }
   }"

definition list_pop :: "addr \<Rightarrow> lheap \<Rightarrow> (addr \<times> lheap) option" where
  "list_pop list h = do {
     l \<leftarrow> hlists h list;
     if ltail l = 0 then Some (0, h)
     else do { h \<leftarrow> list_delete list (ltail l) h; Some (ltail l, h) }
   }"

definition list_dequeue :: "addr \<Rightarrow> lheap \<Rightarrow> (addr \<times> lheap) option" where
  "list_dequeue list h = do {
     l \<leftarrow> hlists h list;
     if lhead l = 0 then Some (0, h)
     else do { h \<leftarrow> list_delete list (lhead l) h; Some (lhead l, h) }
   }"


partial_function (option) list_copy_loop ::
  "(lheap \<Rightarrow> addr) \<Rightarrow> addr \<Rightarrow> addr \<Rightarrow> lheap \<Rightarrow> lheap option" where
  "list_copy_loop valloc out node h =
     (if node = 0 then Some h
      else do {
        x \<leftarrow> hnodes h node;
        (_, h) \<leftarrow> list_insert (valloc h) out (nvalue x) h;
        list_copy_loop valloc out node h
      })"

definition list_copy :: "(lheap \<Rightarrow> addr) \<Rightarrow> addr \<Rightarrow> addr \<Rightarrow> lheap \<Rightarrow> (addr \<times> lheap) option" where
  "list_copy valloc out original h = do {
     l \<leftarrow> hlists h original;
     h \<leftarrow> list_copy_loop valloc out (lhead l) (list_create out h);
     Some (out, h)
   }"

partial_function (option) list_set_owner :: "addr \<Rightarrow> addr \<Rightarrow> lheap \<Rightarrow> lheap option" where
  "list_set_owner target node h =
     (if node = 0 then Some h
      else do {
        h \<leftarrow> upd_node node (\<lambda>x. x\<lparr>nowner := target\<rparr>) h;
        x \<leftarrow> hnodes h node;
        list_set_owner target (nnext x) h
      })"

definition list_merge :: "addr \<Rightarrow> addr \<Rightarrow> lheap \<Rightarrow> lheap option" where
  "list_merge target source h = do {
     s \<leftarrow> hlists h source;
     h \<leftarrow> list_set_owner target (lhead s) h;
     t \<leftarrow> hlists h target;
     h \<leftarrow> (if lhead s \<noteq> 0 then upd_node (lhead s) (\<lambda>x. x\<lparr>nprev := ltail t\<rparr>) h else Some h);
     h \<leftarrow> (if ltail t \<noteq> 0 then upd_node (ltail t) (\<lambda>x. x\<lparr>nnext := lhead s\<rparr>) h
          else upd_list target (\<lambda>t. t\<lparr>lhead := lhead s\<rparr>) h);
     h \<leftarrow> (if ltail s \<noteq> 0 then upd_list target (\<lambda>t. t\<lparr>ltail := ltail s\<rparr>) h else Some h);
     h \<leftarrow> upd_list target (\<lambda>t. t\<lparr>llength := llength t + llength s\<rparr>) h;
     Some (free_addr source h)
   }"

partial_function (option) list_destroy_from :: "addr \<Rightarrow> lheap \<Rightarrow> lheap option" where
  "list_destroy_from n h =
     (if n = 0 then Some h
      else do {
        x \<leftarrow> hnodes h n;
        h \<leftarrow> Some (free_addr (nvalue x) h);
        x \<leftarrow> hnodes h n;
        list_destroy_from (nnext x) h
      })"

definition list_destroy :: "addr \<Rightarrow> lheap \<Rightarrow> lheap option" where
  "list_destroy list h = do { l \<leftarrow> hlists h list; list_destroy_from (lhead l) h }"

partial_function (option) list_free_from :: "addr \<Rightarrow> lheap \<Rightarrow> lheap option" where
  "list_free_from n h =
     (if n = 0 then Some h
      else do {
        x \<leftarrow> hnodes h n;
        list_free_from (nnext x) (free_addr n h)
      })"

definition list_free :: "addr \<Rightarrow> lheap \<Rightarrow> lheap option" where
  "list_free list h = do { l \<leftarrow> hlists h list; list_free_from (lhead l) h }"

section \<open>Well-formed lists\<close>

text \<open>
  \<open>dll H l p ns q\<close>: the nodes \<open>ns\<close> form a chain owned by \<open>l\<close>, whose first node points
  back to \<open>p\<close> and whose last node points forward to \<open>q\<close>.
\<close>

fun dll :: "(addr \<rightharpoonup> node_t) \<Rightarrow> addr \<Rightarrow> addr \<Rightarrow> addr list \<Rightarrow> addr \<Rightarrow> bool" where
  "dll H l p [] q = True"
| "dll H l p (n # ns) q =
     (n \<noteq> 0 \<and> (\<exists>x. H n = Some x \<and> nprev x = p \<and> nowner x = l \<and> nnext x = hd_or q ns)
      \<and> dll H l n ns q)"

definition list_rep :: "lheap \<Rightarrow> addr \<Rightarrow> addr list \<Rightarrow> bool" where
  "list_rep h l ns \<longleftrightarrow>
     hlists h l = Some \<lparr>lhead = hd_or 0 ns, ltail = last_or 0 ns, llength = int (length ns)\<rparr>
     \<and> distinct ns \<and> dll (hnodes h) l 0 ns 0"

definition list_values :: "lheap \<Rightarrow> addr list \<Rightarrow> addr list" where
  "list_values h ns = map (\<lambda>n. nvalue (the (hnodes h n))) ns"

definition list_frame :: "addr \<Rightarrow> addr set \<Rightarrow> lheap \<Rightarrow> lheap \<Rightarrow> bool" where
  "list_frame l S h h' \<longleftrightarrow>
     (\<forall>m. m \<notin> S \<longrightarrow> hnodes h' m = hnodes h m)
     \<and> (\<forall>m. map_option nvalue (hnodes h' m) = map_option nvalue (hnodes h m))
     \<and> (\<forall>k. k \<noteq> l \<longrightarrow> hlists h' k = hlists h k) \<and> hfreed h' = hfreed h"

lemma dll_append [simp]:
  "dll H l p (xs @ ys) q = (dll H l p xs (hd_or q ys) \<and> dll H l (last_or p xs) ys q)"
  by (induction xs arbitrary: p) auto

lemma dll_upd_other [simp]: "n \<notin> set ns \<Longrightarrow> dll (H(n := v)) l p ns q = dll H l p ns q"
  by (induction ns arbitrary: p) auto

lemma dll_not_null: "dll H l p ns q \<Longrightarrow> 0 \<notin> set ns"
  by (induction ns arbitrary: p) auto

lemma dll_cong: "(\<And>n. n \<in> set ns \<Longrightarrow> H n = H' n) \<Longrightarrow> dll H l p ns q = dll H' l p ns q"
  by (induction ns arbitrary: p) auto

lemma dll_mapped: "dll H l p ns q \<Longrightarrow> n \<in> set ns \<Longrightarrow> \<exists>x. H n = Some x \<and> nowner x = l"
  by (induction ns arbitrary: p) auto

lemma list_rep_not_null: "list_rep h l ns \<Longrightarrow> 0 \<notin> set ns"
  by (auto simp: list_rep_def dest: dll_not_null)

lemma list_rep_frame:
  "list_frame l S h h' \<Longrightarrow> k \<noteq> l \<Longrightarrow> set ms \<inter> S = {} \<Longrightarrow> list_rep h k ms \<Longrightarrow> list_rep h' k ms"
  unfolding list_rep_def list_frame_def
  by (metis dll_cong disjoint_iff)

lemma list_values_frame: "list_frame l S h h' \<Longrightarrow> (\<And>n. n \<in> set ns \<Longrightarrow> hnodes h n \<noteq> None) \<Longrightarrow>
    list_values h' ns = list_values h ns"
  unfolding list_frame_def list_values_def
  by (rule map_cong) (simp, metis option.map_sel option.map_disc_iff)

section \<open>The operations refine operations on sequences\<close>

lemmas list_heap_defs = upd_node_def upd_list_def

lemma list_append_rep:
  assumes "list_rep h l ns" and "n \<notin> set ns" and "n \<noteq> 0" and "hnodes h n = Some x"
  shows "\<exists>h'. list_append l n h = Some h' \<and> list_rep h' l (ns @ [n])
    \<and> list_frame l (insert n (set ns)) h h'"
proof (cases ns rule: rev_cases)
  case Nil
  with assms show ?thesis
    by (simp add: list_append_def list_heap_defs list_rep_def list_frame_def)
next
  case (snoc bs t)
  with assms show ?thesis
    by (auto simp: list_append_def list_heap_defs list_rep_def list_frame_def)
qed


lemma fresh_node_notin: "list_rep h l ns \<Longrightarrow> fresh_node h a \<Longrightarrow> a \<notin> set ns"
  by (auto simp: list_rep_def fresh_node_def dest: dll_mapped)

lemma list_rep_new_node: "list_rep h l ns \<Longrightarrow> fresh_node h a \<Longrightarrow> list_rep (new_node a v h) l ns"
  using fresh_node_notin [of h l ns a] by (auto simp: list_rep_def new_node_def)

lemma list_values_new_node [simp]:
  "a \<notin> set ns \<Longrightarrow> list_values (new_node a v h) ns = list_values h ns"
  by (auto simp: list_values_def new_node_def)

lemma list_values_append [simp]: "list_values h (xs @ ys) = list_values h xs @ list_values h ys"
  by (simp add: list_values_def)

lemma list_values_new: "list_values (new_node a v h) [a] = [v]"
  by (simp add: list_values_def new_node_def)

lemma list_rep_mapped: "list_rep h l ns \<Longrightarrow> n \<in> set ns \<Longrightarrow> hnodes h n \<noteq> None"
  by (auto simp: list_rep_def dest: dll_mapped)

lemma list_insert_rep:
  assumes rep: "list_rep h l ns" and fresh: "fresh_node h a"
  shows "\<exists>h'. list_insert a l v h = Some (a, h') \<and> list_rep h' l (ns @ [a])
    \<and> list_values h' (ns @ [a]) = list_values h ns @ [v]
    \<and> list_frame l (insert a (set ns)) (new_node a v h) h'"
proof -
  let ?h = "new_node a v h"
  from fresh have a: "a \<noteq> 0" and at: "hnodes ?h a \<noteq> None"
    by (simp_all add: fresh_node_def new_node_def)
  obtain h' where h': "list_append l a ?h = Some h'" "list_rep h' l (ns @ [a])"
      and fr: "list_frame l (insert a (set ns)) ?h h'"
    using list_append_rep [OF list_rep_new_node [OF rep fresh] fresh_node_notin [OF rep fresh] a] at
    by blast
  have "list_values h' (ns @ [a]) = list_values ?h (ns @ [a])"
    by (rule list_values_frame [OF fr])
       (use at list_rep_mapped [OF list_rep_new_node [OF rep fresh]] in auto)
  then have "list_values h' (ns @ [a]) = list_values h ns @ [v]"
    using fresh_node_notin [OF rep fresh] list_values_new by simp
  with h' fr show ?thesis by (simp add: list_insert_def)
qed

lemma list_append_after_rep:
  assumes "list_rep h l (xs @ ys)" and "n \<notin> set (xs @ ys)" and "n \<noteq> 0"
    and "hnodes h n = Some x" and "nnext x = 0" and "nprev x = 0"
  shows "\<exists>h'. list_append_after l (last_or 0 xs) n h = Some h' \<and> list_rep h' l (xs @ n # ys)
    \<and> list_frame l (insert n (set (xs @ ys))) h h'"
proof (cases "xs @ ys = []")
  case True
  with assms show ?thesis
    by (simp add: list_append_after_def list_append_def list_heap_defs list_rep_def list_frame_def)
next
  case ne: False
  show ?thesis
  proof (cases xs rule: rev_cases)
    case Nil
    with ne obtain m ms where "ys = m # ms" by (cases ys) auto
    with Nil assms show ?thesis
      by (auto simp: list_append_after_def list_heap_defs list_rep_def list_frame_def)
  next
    case (snoc as b)
    then have b: "last_or 0 xs = b" by simp
    show ?thesis
    proof (cases ys)
      case Nil
      with snoc b assms show ?thesis
        by (auto simp: list_append_after_def list_heap_defs list_rep_def list_frame_def)
    next
      case (Cons m ms)
      with snoc b assms have "b \<noteq> last_or 0 (xs @ ys)"
        using last_or_in_insert [of m ms] by (auto simp: list_rep_def)
      with Cons snoc b assms show ?thesis
        by (auto simp: list_append_after_def list_heap_defs list_rep_def list_frame_def)
    qed
  qed
qed


lemma list_append_before_rep:
  assumes "list_rep h l (xs @ ys)" and "n \<notin> set (xs @ ys)" and "n \<noteq> 0"
    and "hnodes h n = Some x" and "nnext x = 0" and "nprev x = 0"
  shows "\<exists>h'. list_append_before l (hd_or 0 ys) n h = Some h' \<and> list_rep h' l (xs @ n # ys)
    \<and> list_frame l (insert n (set (xs @ ys))) h h'"
proof (cases "xs @ ys = []")
  case True
  with assms show ?thesis
    by (simp add: list_append_before_def list_append_def list_heap_defs list_rep_def list_frame_def)
next
  case ne: False
  show ?thesis
  proof (cases ys)
    case Nil
    with ne obtain as b where "xs = as @ [b]" by (cases xs rule: rev_cases) auto
    with Nil assms show ?thesis
      by (auto simp: list_append_before_def list_heap_defs list_rep_def list_frame_def)
  next
    case (Cons m ms)
    show ?thesis
    proof (cases xs rule: rev_cases)
      case Nil
      with Cons assms show ?thesis
        by (auto simp: list_append_before_def list_heap_defs list_rep_def list_frame_def)
    next
      case (snoc as b)
      with Cons assms have "m \<noteq> hd_or 0 (xs @ ys)"
        by (cases as) (auto simp: list_rep_def)
      with Cons snoc assms show ?thesis
        by (auto simp: list_append_before_def list_heap_defs list_rep_def list_frame_def)
    qed
  qed
qed

lemma list_insert_after_rep:
  assumes rep: "list_rep h l (xs @ ys)" and fresh: "fresh_node h a"
  shows "\<exists>h'. list_insert_after a l (last_or 0 xs) v h = Some (a, h')
    \<and> list_rep h' l (xs @ a # ys) \<and> list_frame l (insert a (set (xs @ ys))) (new_node a v h) h'"
proof -
  let ?x = "\<lparr>nnext = 0, nprev = 0, nvalue = v, nowner = 0\<rparr>"
  have "a \<noteq> 0" and "hnodes (new_node a v h) a = Some ?x"
    using fresh by (simp_all add: fresh_node_def new_node_def)
  from list_append_after_rep [OF list_rep_new_node [OF rep fresh] fresh_node_notin [OF rep fresh] this]
  show ?thesis by (auto simp: list_insert_after_def)
qed

lemma list_insert_before_rep:
  assumes rep: "list_rep h l (xs @ ys)" and fresh: "fresh_node h a"
  shows "\<exists>h'. list_insert_before a l (hd_or 0 ys) v h = Some (a, h')
    \<and> list_rep h' l (xs @ a # ys) \<and> list_frame l (insert a (set (xs @ ys))) (new_node a v h) h'"
proof -
  let ?x = "\<lparr>nnext = 0, nprev = 0, nvalue = v, nowner = 0\<rparr>"
  have "a \<noteq> 0" and "hnodes (new_node a v h) a = Some ?x"
    using fresh by (simp_all add: fresh_node_def new_node_def)
  from list_append_before_rep [OF list_rep_new_node [OF rep fresh] fresh_node_notin [OF rep fresh] this]
  show ?thesis by (auto simp: list_insert_before_def)
qed

lemma list_create_rep: "list_rep (list_create a h) a []"
  by (simp add: list_rep_def list_create_def)

lemma list_delete_rep:
  assumes rep: "list_rep h l (xs @ n # ys)"
  shows "\<exists>h'. list_delete l n h = Some h' \<and> list_rep h' l (xs @ ys)
    \<and> list_frame l (set (xs @ n # ys)) h h'
    \<and> (\<exists>x. hnodes h' n = Some x \<and> nnext x = 0 \<and> nprev x = 0 \<and> nowner x = 0)"
proof (cases xs rule: rev_cases)
  case Nil
  show ?thesis
  proof (cases ys rule: rev_cases)
    assume "ys = []"
    with Nil rep show ?thesis
      by (auto simp: list_delete_def list_heap_defs list_rep_def list_frame_def)
  next
    fix ms m assume ys: "ys = ms @ [m]"
    with Nil rep have "n \<noteq> m" by (simp add: list_rep_def)
    moreover obtain k ks where "ys = k # ks" using ys by (cases ms) auto
    moreover have "last_or k ks = m" using calculation ys by (metis last_or_Cons last_or_simps(2))
    ultimately show ?thesis using Nil rep
      by (auto simp: list_delete_def list_heap_defs list_rep_def list_frame_def)
  qed
next
  case (snoc as b)
  then have hd: "hd_or n xs \<noteq> n"
    using rep by (cases as) (auto simp: list_rep_def)
  show ?thesis
  proof (cases ys rule: rev_cases)
    assume "ys = []"
    with snoc rep hd show ?thesis
      by (auto simp: list_delete_def list_heap_defs list_rep_def list_frame_def)
  next
    fix ms m assume ys: "ys = ms @ [m]"
    with rep have "n \<noteq> m" by (simp add: list_rep_def)
    moreover obtain k ks where "ys = k # ks" using ys by (cases ms) auto
    moreover have "last_or k ks = m" using calculation ys by (metis last_or_Cons last_or_simps(2))
    ultimately show ?thesis using snoc rep hd
      by (auto simp: list_delete_def list_heap_defs list_rep_def list_frame_def)
  qed
qed

lemma list_pop_rep:
  "list_rep h l [] \<Longrightarrow> list_pop l h = Some (0, h)"
  "list_rep h l (ns @ [n]) \<Longrightarrow> \<exists>h'. list_pop l h = Some (n, h') \<and> list_rep h' l ns
    \<and> list_frame l (set (ns @ [n])) h h'"
  subgoal by (simp add: list_pop_def list_rep_def)
  subgoal
    using list_delete_rep [of h l ns n "[]"] list_rep_not_null [of h l "ns @ [n]"]
    by (auto simp: list_pop_def list_rep_def)
  done

lemma list_dequeue_rep:
  "list_rep h l [] \<Longrightarrow> list_dequeue l h = Some (0, h)"
  "list_rep h l (n # ns) \<Longrightarrow> \<exists>h'. list_dequeue l h = Some (n, h') \<and> list_rep h' l ns
    \<and> list_frame l (set (n # ns)) h h'"
  subgoal by (simp add: list_dequeue_def list_rep_def)
  subgoal
    using list_delete_rep [of h l "[]" n ns] list_rep_not_null [of h l "n # ns"]
    by (auto simp: list_dequeue_def list_rep_def)
  done

section \<open>Traversals\<close>

lemma list_find_from_dll:
  "dll (hnodes h) l p ns 0 \<Longrightarrow>
   list_find_from (hd_or 0 ns) v h =
     Some (hd_or 0 (filter (\<lambda>n. nvalue (the (hnodes h n)) = v) ns))"
proof (induction ns arbitrary: p)
  case Nil
  show ?case by (simp add: list_find_from.simps [of 0])
next
  case (Cons n ns)
  then show ?case by (auto simp: list_find_from.simps [of n])
qed

lemma list_find_rep:
  "list_rep h l ns \<Longrightarrow>
   list_find l v h = Some (hd_or 0 (filter (\<lambda>n. nvalue (the (hnodes h n)) = v) ns))"
  using list_find_from_dll [of h l 0 ns v] by (simp add: list_find_def list_rep_def)

lemma list_walk_dll:
  "dll (hnodes h) l p ns 0 \<Longrightarrow> i \<le> length ns \<Longrightarrow>
   list_walk i (hd_or 0 ns) h = Some (hd_or 0 (drop i ns))"
proof (induction ns arbitrary: p i)
  case (Cons n ns)
  then show ?case by (cases i) auto
qed simp

lemma list_remove_rep:
  assumes rep: "list_rep h l (xs @ n # ys)"
  shows "\<exists>h'. list_remove l (int (length xs)) h = Some h' \<and> list_rep h' l (xs @ ys)
    \<and> list_frame l (set (xs @ n # ys)) h h'"
proof -
  have "list_walk (length xs) (hd_or 0 (xs @ n # ys)) h = Some n"
    using rep list_walk_dll [of h l 0 "xs @ n # ys" "length xs"] by (simp add: list_rep_def)
  then have "list_remove l (int (length xs)) h = list_delete l n h"
    using rep by (simp add: list_remove_def list_rep_def)
  with list_delete_rep [OF rep] show ?thesis by auto
qed


text \<open>
  The guard of \<^verbatim>\<open>list_remove\<close> is \<^verbatim>\<open>index > list->length\<close>: an index equal to the length passes
  it, the walk ends at the null pointer and \<^verbatim>\<open>list_delete\<close> dereferences it.
\<close>

lemma list_remove_at_length:
  assumes "list_rep h l ns" and "hnodes h 0 = None"
  shows "list_remove l (int (length ns)) h = None"
proof -
  have "list_walk (length ns) (hd_or 0 ns) h = Some 0"
    using assms list_walk_dll [of h l 0 ns "length ns"] by (simp add: list_rep_def)
  then show ?thesis
    using assms by (simp add: list_remove_def list_rep_def list_delete_def)
qed

lemma list_remove_beyond:
  "list_rep h l ns \<Longrightarrow> int (length ns) < i \<Longrightarrow> list_remove l i h = Some h"
  by (simp add: list_remove_def list_rep_def)

lemma list_index_from_dll:
  "dll (hnodes h) l p ns 0 \<Longrightarrow>
   list_index_from (hd_or 0 ns) v i h =
     Some (if v \<in> set (list_values h ns)
           then i + int (length (takeWhile (\<lambda>w. w \<noteq> v) (list_values h ns))) else -1)"
proof (induction ns arbitrary: p i)
  case Nil
  show ?case by (simp add: list_index_from.simps [of 0] list_values_def)
next
  case (Cons n ns)
  then show ?case by (auto simp: list_index_from.simps [of n] list_values_def)
qed

lemma list_index_of_rep:
  "list_rep h l ns \<Longrightarrow>
   list_index_of l v h =
     Some (if v \<in> set (list_values h ns)
           then int (length (takeWhile (\<lambda>w. w \<noteq> v) (list_values h ns))) else -1)"
  using list_index_from_dll [of h l 0 ns v 0] by (simp add: list_index_of_def list_rep_def)

text \<open>
  \<^verbatim>\<open>list_copy\<close> never advances its cursor, so it returns on an empty original only.
\<close>

lemma list_copy_loop_diverges:
  assumes "list_copy_loop al out n h = Some h'"
  shows "n = 0"
  by (rule list_copy_loop.raw_induct [where P = "\<lambda>al out n h h'. n = 0", OF _ assms])
     (fastforce split: if_splits simp: bind_eq_Some_conv)

lemma list_copy_rep:
  assumes "list_rep h l ns" and "out \<noteq> l"
  shows "list_copy al out l h = (if ns = [] then Some (out, list_create out h) else None)"
proof (cases "ns = []")
  case True
  with assms show ?thesis
    by (simp add: list_copy_def list_rep_def list_copy_loop.simps [of _ _ 0])
next
  case False
  then have "hd_or 0 ns \<noteq> 0" using list_rep_not_null [OF assms(1)] by (simp add: hd_or_nz)
  then have "list_copy_loop al out (hd_or 0 ns) (list_create out h) = None"
    using list_copy_loop_diverges by fastforce
  with False assms show ?thesis by (simp add: list_copy_def list_rep_def)
qed

section \<open>Merging and freeing\<close>

lemma list_set_owner_dll:
  "dll (hnodes h) l p ns 0 \<Longrightarrow> distinct ns \<Longrightarrow>
   \<exists>h'. list_set_owner t (hd_or 0 ns) h = Some h' \<and> dll (hnodes h') t p ns 0
     \<and> hlists h' = hlists h \<and> hfreed h' = hfreed h
     \<and> (\<forall>m. m \<notin> set ns \<longrightarrow> hnodes h' m = hnodes h m)
     \<and> (\<forall>m. map_option nvalue (hnodes h' m) = map_option nvalue (hnodes h m))"
proof (induction ns arbitrary: p h)
  case Nil
  show ?case by (simp add: list_set_owner.simps [of _ 0])
next
  case (Cons n ns)
  then obtain x where x: "hnodes h n = Some x" "nprev x = p" "nnext x = hd_or 0 ns" and n: "n \<noteq> 0"
    by auto
  let ?h = "h\<lparr>hnodes := (hnodes h)(n \<mapsto> x\<lparr>nowner := t\<rparr>)\<rparr>"
  have "dll (hnodes ?h) l n ns 0" "distinct ns" using Cons.prems by auto
  from Cons.IH [OF this] obtain h' where h': "list_set_owner t (hd_or 0 ns) ?h = Some h'"
      "dll (hnodes h') t n ns 0" "hlists h' = hlists h" "hfreed h' = hfreed h"
      "\<forall>m. m \<notin> set ns \<longrightarrow> hnodes h' m = hnodes ?h m"
      "\<forall>m. map_option nvalue (hnodes h' m) = map_option nvalue (hnodes ?h m)"
    by auto
  have "list_set_owner t n h = Some h'"
    using n x h'(1) by (simp add: list_set_owner.simps [of _ n] upd_node_def)
  with Cons.prems x n h'(2-6) show ?case by auto
qed

lemma list_values_cong:
  "(\<And>n. n \<in> set ns \<Longrightarrow> map_option nvalue (hnodes h' n) = map_option nvalue (hnodes h n)) \<Longrightarrow>
   (\<And>n. n \<in> set ns \<Longrightarrow> hnodes h n \<noteq> None) \<Longrightarrow> list_values h' ns = list_values h ns"
  unfolding list_values_def by (rule map_cong) (simp, metis option.map_sel option.map_disc_iff)

definition list_link :: "addr \<Rightarrow> list_t \<Rightarrow> lheap \<Rightarrow> lheap option" where
  "list_link target s h = do {
     t \<leftarrow> hlists h target;
     h \<leftarrow> (if lhead s \<noteq> 0 then upd_node (lhead s) (\<lambda>x. x\<lparr>nprev := ltail t\<rparr>) h else Some h);
     h \<leftarrow> (if ltail t \<noteq> 0 then upd_node (ltail t) (\<lambda>x. x\<lparr>nnext := lhead s\<rparr>) h
          else upd_list target (\<lambda>t. t\<lparr>lhead := lhead s\<rparr>) h);
     h \<leftarrow> (if ltail s \<noteq> 0 then upd_list target (\<lambda>t. t\<lparr>ltail := ltail s\<rparr>) h else Some h);
     upd_list target (\<lambda>t. t\<lparr>llength := llength t + llength s\<rparr>) h
   }"

lemma list_merge_link:
  "list_merge target source h = do {
     s \<leftarrow> hlists h source;
     h \<leftarrow> list_set_owner target (lhead s) h;
     h \<leftarrow> list_link target s h;
     Some (free_addr source h)
   }"
  by (simp add: list_merge_def list_link_def bind_assoc)

lemma list_link_rep:
  assumes "list_rep h t xs" and "dll (hnodes h) t 0 ys 0" and "distinct ys"
    and "set xs \<inter> set ys = {}"
    and "s = \<lparr>lhead = hd_or 0 ys, ltail = last_or 0 ys, llength = int (length ys)\<rparr>"
  shows "\<exists>h'. list_link t s h = Some h' \<and> list_rep h' t (xs @ ys)
    \<and> list_frame t (set (xs @ ys)) h h'"
proof (cases ys)
  case Nil
  with assms show ?thesis
    by (cases xs rule: rev_cases)
       (auto simp: list_link_def list_heap_defs list_rep_def list_frame_def)
next
  case (Cons m ms)
  moreover have "last_or m ms \<noteq> 0"
    using dll_not_null [OF assms(2)] Cons last_or_in_insert [of m ms] by (cases "last_or m ms") auto
  ultimately show ?thesis using assms
    by (cases xs rule: rev_cases)
       (auto simp: list_link_def list_heap_defs list_rep_def list_frame_def)
qed

lemma list_merge_rep:
  assumes t: "list_rep h t xs" and s: "list_rep h s ys"
    and ne: "t \<noteq> s" and disj: "set xs \<inter> set ys = {}" and hs: "hnodes h s = None"
  shows "\<exists>h'. list_merge t s h = Some h' \<and> list_rep h' t (xs @ ys)
    \<and> list_values h' (xs @ ys) = list_values h xs @ list_values h ys \<and> hlists h' s = None"
proof -
  let ?s = "\<lparr>lhead = hd_or 0 ys, ltail = last_or 0 ys, llength = int (length ys)\<rparr>"
  from s have dys: "dll (hnodes h) s 0 ys 0" "distinct ys" by (auto simp: list_rep_def)
  from list_set_owner_dll [OF this, of t] obtain h1 where
      h1: "list_set_owner t (hd_or 0 ys) h = Some h1" "dll (hnodes h1) t 0 ys 0"
        "hlists h1 = hlists h" and out: "\<forall>m. m \<notin> set ys \<longrightarrow> hnodes h1 m = hnodes h m"
      and val: "\<forall>m. map_option nvalue (hnodes h1 m) = map_option nvalue (hnodes h m)"
    by blast
  have "dll (hnodes h1) t 0 xs 0 = dll (hnodes h) t 0 xs 0"
    by (rule dll_cong) (use out disj in auto)
  with t h1 have "list_rep h1 t xs" by (simp add: list_rep_def)
  from list_link_rep [OF this h1(2) dys(2) disj refl] obtain h2 where
      h2: "list_link t ?s h1 = Some h2" "list_rep h2 t (xs @ ys)" "list_frame t (set (xs @ ys)) h1 h2"
    by blast
  have mapped: "hnodes h n \<noteq> None" if "n \<in> set (xs @ ys)" for n
    using that list_rep_mapped [OF t] list_rep_mapped [OF s] by auto
  then have s_out: "s \<notin> set (xs @ ys)" using hs by blast
  have "list_values (free_addr s h2) (xs @ ys) = list_values h (xs @ ys)"
    by (rule list_values_cong)
       (use s_out val h2(3) mapped in \<open>auto simp: list_frame_def free_addr_def\<close>)
  moreover have "list_rep (free_addr s h2) t (xs @ ys)"
    using h2(2) s_out ne by (auto simp: list_rep_def free_addr_def)
  moreover have "list_merge t s h = Some (free_addr s h2)"
    using s h1(1) h2(1) by (simp add: list_merge_link list_rep_def)
  ultimately show ?thesis by (simp add: free_addr_def)
qed

lemma list_free_from_dll:
  "dll (hnodes h) l p ns 0 \<Longrightarrow> distinct ns \<Longrightarrow>
   list_free_from (hd_or 0 ns) h = Some (fold free_addr ns h)"
proof (induction ns arbitrary: p h)
  case Nil
  show ?case by (simp add: list_free_from.simps [of 0])
next
  case (Cons n ns)
  then have "dll (hnodes (free_addr n h)) l n ns 0" by (simp add: free_addr_def)
  with Cons show ?case by (auto simp: list_free_from.simps [of n])
qed

lemma hfreed_fold: "hfreed (fold free_addr as h) = hfreed h @ as"
  by (induction as arbitrary: h) (simp_all add: free_addr_def)

lemma list_free_rep:
  assumes "list_rep h l ns"
  shows "\<exists>h'. list_free l h = Some h' \<and> hfreed h' = hfreed h @ ns"
  using assms list_free_from_dll [of h l 0 ns]
  by (simp add: list_free_def list_rep_def hfreed_fold)

lemma list_destroy_from_dll:
  "dll (hnodes h) l p ns 0 \<Longrightarrow> (\<And>v. v \<in> set (list_values h ns) \<Longrightarrow> hnodes h v = None) \<Longrightarrow>
   list_destroy_from (hd_or 0 ns) h = Some (fold free_addr (list_values h ns) h)"
proof (induction ns arbitrary: p h)
  case Nil
  show ?case by (simp add: list_destroy_from.simps [of 0] list_values_def)
next
  case (Cons n ns)
  then obtain x where x: "hnodes h n = Some x" "nnext x = hd_or 0 ns" "n \<noteq> 0"
    and tl: "dll (hnodes h) l n ns 0" by auto
  let ?h = "free_addr (nvalue x) h"
  have "hnodes h (nvalue x) = None" using Cons.prems(2) [of "nvalue x"] x by (simp add: list_values_def)
  then have same: "hnodes ?h = hnodes h" by (simp add: free_addr_def fun_upd_idem)
  then have vals: "list_values ?h ns = list_values h ns" by (simp add: list_values_def)
  have "list_destroy_from (hd_or 0 ns) ?h = Some (fold free_addr (list_values ?h ns) ?h)"
  proof (rule Cons.IH)
    show "dll (hnodes ?h) l n ns 0" using tl same by simp
    fix v assume "v \<in> set (list_values ?h ns)"
    then have "v \<in> set (list_values h (n # ns))" by (simp add: vals) (simp add: list_values_def)
    then have "hnodes h v = None" by (rule Cons.prems(2))
    with same show "hnodes ?h v = None" by simp
  qed
  then show ?case
    using x by (simp add: list_destroy_from.simps [of n] same vals) (simp add: list_values_def)
qed

lemma list_destroy_rep:
  assumes "list_rep h l ns" and "\<And>v. v \<in> set (list_values h ns) \<Longrightarrow> hnodes h v = None"
  shows "\<exists>h'. list_destroy l h = Some h' \<and> hfreed h' = hfreed h @ list_values h ns"
  using assms list_destroy_from_dll [of h l 0 ns]
  by (simp add: list_destroy_def list_rep_def hfreed_fold)


section \<open>The list as a queue and as a stack of values\<close>

text \<open>
  The two ways in which the kernel consumes a list: take the first (or last) node, read its
  value and free the node, as in \<^verbatim>\<open>ring_buffer_alert_waiters\<close> and \<^verbatim>\<open>canonicalize_path\<close>.
\<close>

definition list_take :: "(addr \<times> lheap) option \<Rightarrow> (addr option \<times> lheap) option" where
  "list_take r = do {
     (n, h) \<leftarrow> r;
     if n = 0 then Some (None, h)
     else do { x \<leftarrow> hnodes h n; Some (Some (nvalue x), free_addr n h) }
   }"

definition list_holds :: "addr \<Rightarrow> lheap \<Rightarrow> addr list \<Rightarrow> bool" where
  "list_holds l h vs \<longleftrightarrow> (\<exists>ns. list_rep h l ns \<and> list_values h ns = vs \<and> hnodes h l = None)"

definition fresh_for :: "addr \<Rightarrow> lheap \<Rightarrow> addr \<Rightarrow> bool" where
  "fresh_for l h a \<longleftrightarrow> fresh_node h a \<and> a \<noteq> l"

lemma list_rep_free_other:
  "list_rep h l ns \<Longrightarrow> n \<notin> set ns \<Longrightarrow> n \<noteq> l \<Longrightarrow> list_rep (free_addr n h) l ns"
  by (simp add: list_rep_def free_addr_def)

lemma list_take_rep:
  assumes "list_rep h l (xs @ n # ys)" and "hnodes h l = None"
    and "r = Some (n, h')" and "list_rep h' l (xs @ ys)" and "list_frame l (set (xs @ n # ys)) h h'"
  shows "\<exists>h''. list_take r = Some (Some (nvalue (the (hnodes h n))), h'')
    \<and> list_rep h'' l (xs @ ys) \<and> list_values h'' (xs @ ys) = list_values h (xs @ ys)
    \<and> hnodes h'' l = None"
proof -
  have nl: "n \<noteq> l" and n0: "n \<noteq> 0" and nin: "n \<notin> set (xs @ ys)"
    using assms(1,2) list_rep_mapped [OF assms(1), of n] list_rep_not_null [OF assms(1)]
    by (auto simp: list_rep_def)
  have vals: "map_option nvalue (hnodes h' m) = map_option nvalue (hnodes h m)" for m
    using assms(5) by (simp add: list_frame_def)
  obtain x where x: "hnodes h n = Some x" using list_rep_mapped [OF assms(1), of n] by auto
  with vals [of n] obtain y where y: "hnodes h' n = Some y" "nvalue y = nvalue x"
    by (cases "hnodes h' n") auto
  have "hnodes h' l = None" using vals [of l] assms(2) by simp
  moreover have "list_values (free_addr n h') (xs @ ys) = list_values h (xs @ ys)"
    by (rule list_values_cong)
       (use nin vals list_rep_mapped [OF assms(1)] in \<open>auto simp: free_addr_def\<close>)
  ultimately show ?thesis
    using assms(3,4) n0 x y nl list_rep_free_other [OF assms(4) nin nl]
    by (simp add: list_take_def) (simp add: free_addr_def)
qed

lemma list_holds_enq:
  assumes "list_holds l h vs" and "fresh_for l h a"
  shows "\<exists>h'. map_option snd (list_insert a l v h) = Some h' \<and> list_holds l h' (vs @ [v])"
proof -
  from assms obtain ns where ns: "list_rep h l ns" "list_values h ns = vs" "hnodes h l = None"
      and a: "fresh_node h a" "a \<noteq> l"
    by (auto simp: list_holds_def fresh_for_def)
  from list_insert_rep [OF ns(1) a(1), of v] obtain h' where
      "list_insert a l v h = Some (a, h')" "list_rep h' l (ns @ [a])"
      "list_values h' (ns @ [a]) = vs @ [v]"
      and fr: "list_frame l (insert a (set ns)) (new_node a v h) h'"
    using ns(2) by auto
  moreover have "hnodes h' l = None"
  proof -
    have "map_option nvalue (hnodes h' l) = map_option nvalue (hnodes (new_node a v h) l)"
      using fr by (simp add: list_frame_def)
    then show ?thesis using ns(3) a(2) by (simp add: new_node_def)
  qed
  ultimately show ?thesis unfolding list_holds_def by auto
qed

lemma list_holds_empty: "list_holds l h [] \<longleftrightarrow> list_rep h l [] \<and> hnodes h l = None"
  by (auto simp: list_holds_def list_values_def)

interpretation lq: value_queue "list_holds l" "fresh_for l"
  "\<lambda>a v h. map_option snd (list_insert a l v h)" "\<lambda>h. list_take (list_dequeue l h)" for l
proof
  fix h xs a v
  assume "list_holds l h xs" "fresh_for l h a"
  then show "\<exists>h'. map_option snd (list_insert a l v h) = Some h' \<and> list_holds l h' (xs @ [v])"
    by (rule list_holds_enq)
next
  fix h assume "list_holds l h []"
  then show "list_take (list_dequeue l h) = Some (None, h)"
    by (simp add: list_holds_empty list_dequeue_rep list_take_def)
next
  fix h x xs assume "list_holds l h (x # xs)"
  then obtain n ns where n: "list_rep h l ([] @ n # ns)" "hnodes h l = None"
      and v: "nvalue (the (hnodes h n)) = x" "list_values h ns = xs"
    by (auto simp: list_holds_def list_values_def)
  from list_dequeue_rep(2) [of h l n ns] n(1) obtain h1 where
      "list_dequeue l h = Some (n, h1)" "list_rep h1 l ([] @ ns)" "list_frame l (set ([] @ n # ns)) h h1"
    by auto
  from list_take_rep [OF n this] v
  show "\<exists>h'. list_take (list_dequeue l h) = Some (Some x, h') \<and> list_holds l h' xs"
    by (auto simp: list_holds_def)
qed

interpretation ls: value_stack "list_holds l" "fresh_for l"
  "\<lambda>a v h. map_option snd (list_insert a l v h)" "\<lambda>h. list_take (list_pop l h)" for l
proof
  fix h xs a v
  assume "list_holds l h xs" "fresh_for l h a"
  then show "\<exists>h'. map_option snd (list_insert a l v h) = Some h' \<and> list_holds l h' (xs @ [v])"
    by (rule list_holds_enq)
next
  fix h assume "list_holds l h []"
  then show "list_take (list_pop l h) = Some (None, h)"
    by (simp add: list_holds_empty list_pop_rep list_take_def)
next
  fix h x xs assume "list_holds l h (xs @ [x])"
  then obtain ms where ms: "list_rep h l ms" "list_values h ms = xs @ [x]" "hnodes h l = None"
    by (auto simp: list_holds_def)
  then obtain n ns where m: "ms = ns @ [n]" by (cases ms rule: rev_cases) (auto simp: list_values_def)
  with ms have n: "list_rep h l (ns @ n # [])" and v: "nvalue (the (hnodes h n)) = x" "list_values h ns = xs"
    by (auto simp: list_values_def)
  from list_pop_rep(2) [of h l ns n] n obtain h1 where
      "list_pop l h = Some (n, h1)" "list_rep h1 l (ns @ [])" "list_frame l (set (ns @ n # [])) h h1"
    by auto
  from list_take_rep [OF n ms(3) this] v
  show "\<exists>h'. list_take (list_pop l h) = Some (Some x, h') \<and> list_holds l h' xs"
    by (auto simp: list_holds_def)
qed


section \<open>Properties\<close>

text \<open>A heap with the list \<open>[10, 11]\<close> at address \<open>1\<close> and the list \<open>[12]\<close> at address \<open>2\<close>.\<close>

definition list_demo_heap :: lheap where
  "list_demo_heap =
     \<lparr>hnodes = [10 \<mapsto> \<lparr>nnext = 11, nprev = 0, nvalue = 70, nowner = 1\<rparr>,
                11 \<mapsto> \<lparr>nnext = 0, nprev = 10, nvalue = 71, nowner = 1\<rparr>,
                12 \<mapsto> \<lparr>nnext = 0, nprev = 0, nvalue = 72, nowner = 2\<rparr>],
      hlists = [1 \<mapsto> \<lparr>lhead = 10, ltail = 11, llength = 2\<rparr>,
                2 \<mapsto> \<lparr>lhead = 12, ltail = 12, llength = 1\<rparr>],
      hfreed = []\<rparr>"

lemma list_demo_rep:
  "list_rep list_demo_heap 1 [10, 11]" "list_rep list_demo_heap 2 [12]"
  by (simp_all add: list_rep_def list_demo_heap_def)

lemma list_demo_fresh:
  "fresh_node list_demo_heap 20" "hnodes list_demo_heap 0 = None" "hnodes list_demo_heap 2 = None"
  by (simp_all add: fresh_node_def list_demo_heap_def)

text \<open>
  C5. On a well-formed list, the empty one included, each update is the corresponding update of
  the sequence of its nodes, and the result is well-formed: \<^verbatim>\<open>list_insert\<close> appends a fresh node;
  on a list with a node \<open>n\<close>, \<^verbatim>\<open>list_insert_after\<close> and \<^verbatim>\<open>list_insert_before\<close> place it at any position (the ends included),
  and \<^verbatim>\<open>list_delete\<close> takes out exactly the given node and detaches it.
\<close>

theorem list_updates_refine:
  assumes "list_rep h l ns" and "fresh_node h a"
  shows "(\<exists>h'. list_insert a l v h = Some (a, h') \<and> list_rep h' l (ns @ [a])
            \<and> list_values h' (ns @ [a]) = list_values h ns @ [v])
    \<and> (\<forall>xs n ys. ns = xs @ n # ys \<longrightarrow>
          (\<exists>h'. list_insert_after a l n v h = Some (a, h') \<and> list_rep h' l (xs @ n # a # ys))
        \<and> (\<exists>h'. list_insert_before a l n v h = Some (a, h') \<and> list_rep h' l (xs @ a # n # ys))
        \<and> (\<exists>h'. list_delete l n h = Some h' \<and> list_rep h' l (xs @ ys)
              \<and> (\<exists>x. hnodes h' n = Some x \<and> nnext x = 0 \<and> nprev x = 0 \<and> nowner x = 0)))"
proof (intro conjI allI impI)
  show "\<exists>h'. list_insert a l v h = Some (a, h') \<and> list_rep h' l (ns @ [a])
      \<and> list_values h' (ns @ [a]) = list_values h ns @ [v]"
    using list_insert_rep [OF assms, of v] by blast
next
  fix xs n ys assume "ns = xs @ n # ys"
  then have rep: "list_rep h l (xs @ n # ys)" using assms(1) by simp
  show "\<exists>h'. list_insert_after a l n v h = Some (a, h') \<and> list_rep h' l (xs @ n # a # ys)"
    using list_insert_after_rep [of h l "xs @ [n]" ys a v] rep assms(2) by auto
  show "\<exists>h'. list_insert_before a l n v h = Some (a, h') \<and> list_rep h' l (xs @ a # n # ys)"
    using list_insert_before_rep [of h l xs "n # ys" a v] rep assms(2) by auto
  show "\<exists>h'. list_delete l n h = Some h' \<and> list_rep h' l (xs @ ys)
      \<and> (\<exists>x. hnodes h' n = Some x \<and> nnext x = 0 \<and> nprev x = 0 \<and> nowner x = 0)"
    using list_delete_rep [OF rep] by auto
qed

theorem list_updates_refine_witness:
  "list_rep list_demo_heap 1 [10, 11] \<and> fresh_node list_demo_heap 20
   \<and> (\<exists>h'. list_insert 20 1 99 list_demo_heap = Some (20, h') \<and> list_rep h' 1 [10, 11, 20])
   \<and> (\<exists>h'. list_delete 1 11 list_demo_heap = Some h' \<and> list_rep h' 1 [10])"
proof -
  note u = list_updates_refine [OF list_demo_rep(1) list_demo_fresh(1), of 99]
  have "\<exists>h'. list_insert 20 1 99 list_demo_heap = Some (20, h') \<and> list_rep h' 1 [10, 11, 20]"
    using u [THEN conjunct1] by auto
  moreover have "\<exists>h'. list_delete 1 11 list_demo_heap = Some h' \<and> list_rep h' 1 [10]"
    using u [THEN conjunct2, THEN spec, THEN spec, THEN spec, of "[10]" 11 "[]"] by auto
  ultimately show ?thesis using list_demo_rep(1) list_demo_fresh(1) by blast
qed

text \<open>
  C20. \<^verbatim>\<open>list_merge\<close> of two disjoint well-formed lists leaves the concatenation of both in the
  target, every node owned by the target, and releases the source's header.
\<close>

theorem list_merge_concatenates:
  assumes "list_rep h t xs" and "list_rep h s ys"
    and "t \<noteq> s" and "set xs \<inter> set ys = {}" and "hnodes h s = None"
  shows "\<exists>h'. list_merge t s h = Some h' \<and> list_rep h' t (xs @ ys)
    \<and> list_values h' (xs @ ys) = list_values h xs @ list_values h ys \<and> hlists h' s = None"
  by (rule list_merge_rep [OF assms])

theorem list_merge_concatenates_witness:
  "\<exists>h'. list_merge 1 2 list_demo_heap = Some h' \<and> list_rep h' 1 ([10, 11] @ [12])
    \<and> list_values h' ([10, 11] @ [12]) = [70, 71, 72]"
  using list_merge_concatenates [OF list_demo_rep] list_demo_fresh
  by (auto simp: list_values_def list_demo_heap_def)

text \<open>
  C21. \<^verbatim>\<open>list_remove\<close> removes the element at a valid index and ignores an index beyond the
  length; an index equal to the length passes its guard and faults on the null node.
\<close>

theorem list_remove_cases:
  assumes "list_rep h l ns" and "hnodes h 0 = None"
  shows "(i < length ns \<longrightarrow>
            (\<exists>h'. list_remove l (int i) h = Some h' \<and> list_rep h' l (take i ns @ drop (Suc i) ns)))
    \<and> (i = length ns \<longrightarrow> list_remove l (int i) h = None)
    \<and> (length ns < i \<longrightarrow> list_remove l (int i) h = Some h)"
proof (intro conjI impI)
  assume i: "i < length ns"
  then have "list_rep h l (take i ns @ ns ! i # drop (Suc i) ns)"
    using assms(1) by (simp add: id_take_nth_drop [symmetric])
  from list_remove_rep [OF this] i
  show "\<exists>h'. list_remove l (int i) h = Some h' \<and> list_rep h' l (take i ns @ drop (Suc i) ns)"
    by auto
next
  assume "i = length ns"
  then show "list_remove l (int i) h = None" using list_remove_at_length [OF assms] by simp
next
  assume "length ns < i"
  then show "list_remove l (int i) h = Some h" using list_remove_beyond [OF assms(1)] by simp
qed

theorem list_remove_cases_witness:
  "list_remove 1 2 list_demo_heap = None \<and> list_remove 1 3 list_demo_heap = Some list_demo_heap
   \<and> (\<exists>h'. list_remove 1 0 list_demo_heap = Some h' \<and> list_rep h' 1 [11])"
  using list_remove_cases [OF list_demo_rep(1) list_demo_fresh(2), of 2]
    list_remove_cases [OF list_demo_rep(1) list_demo_fresh(2), of 3]
    list_remove_cases [OF list_demo_rep(1) list_demo_fresh(2), of 0]
  by auto

text \<open>
  C22. \<^verbatim>\<open>list_copy\<close> returns the new empty list for an empty original and never returns for a
  non-empty one, whatever addresses the allocator hands out.
\<close>

theorem list_copy_returns_iff_empty:
  assumes "list_rep h l ns" and "out \<noteq> l"
  shows "list_copy valloc out l h = (if ns = [] then Some (out, list_create out h) else None)"
  by (rule list_copy_rep [OF assms])

theorem list_copy_returns_iff_empty_witness:
  "list_copy (\<lambda>_. 30) 3 1 list_demo_heap = None"
  using list_copy_returns_iff_empty [OF list_demo_rep(1), of 3 "\<lambda>_. 30"] by simp

end
