(* ===== verification/Kutils.thy ===== *)
theory Kutils
  imports Prelude "HOL-Library.Signed_Division"
begin

text \<open>
  The memory and string routines of \<^verbatim>\<open>kernel/src/kutils.c\<close> over a flat byte memory.  Counted
  loops are folds over their index range, pointer loops are partial functions: \<open>None\<close> where
  the loop does not end.  Dword accesses are little-endian.  The port I/O helpers of the file
  are single machine instructions and are not modelled.
\<close>

section \<open>Memory\<close>

type_synonym mem = "addr \<Rightarrow> u8"

definition ld32 :: "mem \<Rightarrow> addr \<Rightarrow> u32" where
  "ld32 m a = of_nat (unat (m a) + 256 * unat (m (a + 1)) + 65536 * unat (m (a + 2))
                      + 16777216 * unat (m (a + 3)))"

definition st32 :: "addr \<Rightarrow> u32 \<Rightarrow> mem \<Rightarrow> mem" where
  "st32 a x m = m(a := of_nat (unat x), a + 1 := of_nat (unat x div 256),
                  a + 2 := of_nat (unat x div 65536), a + 3 := of_nat (unat x div 16777216))"

definition to_u32 :: "int \<Rightarrow> nat" where
  "to_u32 n = nat (n mod 2 ^ 32)"

section \<open>Copying and filling\<close>

definition memcpy_dwords :: "addr \<Rightarrow> addr \<Rightarrow> nat \<Rightarrow> mem \<Rightarrow> mem" where
  "memcpy_dwords dest src k m =
     fold (\<lambda>i m. st32 (dest + 4 * i) (ld32 m (src + 4 * i)) m) [0..<k] m"

definition memcpy_bytes :: "addr \<Rightarrow> addr \<Rightarrow> nat \<Rightarrow> mem \<Rightarrow> mem" where
  "memcpy_bytes dest src k m = fold (\<lambda>i m. m(dest + i := m (src + i))) [0..<k] m"

definition memcpy :: "addr \<Rightarrow> addr \<Rightarrow> int \<Rightarrow> mem \<Rightarrow> mem" where
  "memcpy dest src n m =
     (let num_dwords = to_u32 (n sdiv 4);
          num_bytes = to_u32 (n smod 4);
          m = memcpy_dwords dest src num_dwords m
      in memcpy_bytes (dest + num_dwords * 4) (src + num_dwords * 4) num_bytes m)"

definition memset_val32 :: "u32 \<Rightarrow> u32" where
  "memset_val32 val = or (or (or val (push_bit 8 val)) (push_bit 16 val)) (push_bit 24 val)"

definition memset :: "addr \<Rightarrow> u32 \<Rightarrow> int \<Rightarrow> mem \<Rightarrow> mem" where
  "memset dest val n m =
     (let num_dwords = to_u32 (n sdiv 4);
          num_bytes = to_u32 (n smod 4);
          dest8 = dest + num_dwords * 4;
          m = fold (\<lambda>i m. st32 (dest + 4 * i) (memset_val32 val) m) [0..<num_dwords] m
      in fold (\<lambda>i m. m(dest8 + i := ucast val)) [0..<num_bytes] m)"

fun memmove_bytes_up :: "nat \<Rightarrow> addr \<Rightarrow> addr \<Rightarrow> mem \<Rightarrow> mem" where
  "memmove_bytes_up 0 d s m = m"
| "memmove_bytes_up (Suc n) d s m = memmove_bytes_up n (d + 1) (s + 1) (m(d := m s))"

fun memmove_words_up :: "nat \<Rightarrow> addr \<Rightarrow> addr \<Rightarrow> mem \<Rightarrow> mem" where
  "memmove_words_up n d s m =
     (if n \<ge> 4 then memmove_words_up (n - 4) (d + 4) (s + 4) (st32 d (ld32 m s) m)
      else memmove_bytes_up n d s m)"

fun memmove_align_up :: "nat \<Rightarrow> addr \<Rightarrow> addr \<Rightarrow> mem \<Rightarrow> mem" where
  "memmove_align_up n d s m =
     (if d mod 4 = 0 then memmove_words_up n d s m
      else case n of 0 \<Rightarrow> m
           | Suc k \<Rightarrow> memmove_align_up k (d + 1) (s + 1) (m(d := m s)))"

fun memmove_bytes_down :: "nat \<Rightarrow> addr \<Rightarrow> addr \<Rightarrow> mem \<Rightarrow> mem" where
  "memmove_bytes_down 0 d s m = m"
| "memmove_bytes_down (Suc n) d s m = memmove_bytes_down n d s (m(d + n := m (s + n)))"

fun memmove_words_down :: "nat \<Rightarrow> addr \<Rightarrow> addr \<Rightarrow> mem \<Rightarrow> mem" where
  "memmove_words_down n d s m =
     (if n \<ge> 4
      then memmove_words_down (n - 4) d s (st32 (d + (n - 4)) (ld32 m (s + (n - 4))) m)
      else memmove_bytes_down n d s m)"

fun memmove_align_down :: "nat \<Rightarrow> addr \<Rightarrow> addr \<Rightarrow> mem \<Rightarrow> mem" where
  "memmove_align_down n d s m =
     (if (d + n) mod 4 = 0 then memmove_words_down n d s m
      else case n of 0 \<Rightarrow> m
           | Suc k \<Rightarrow> memmove_align_down k d s (m(d + k := m (s + k))))"

text \<open>
  When neither region test of the source succeeds the byte count is positive, so the overlapping
  branches count down a natural number.
\<close>
definition memmove :: "addr \<Rightarrow> addr \<Rightarrow> int \<Rightarrow> mem \<Rightarrow> mem" where
  "memmove d s n m =
     (if d = s then m
      else if int s + n \<le> int d \<or> int d + n \<le> int s then memcpy d s n m
      else if d < s then
        (if s mod 4 = d mod 4 then memmove_align_up (nat n) d s m
         else memmove_bytes_up (nat n) d s m)
      else
        (if s mod 4 = d mod 4 then memmove_align_down (nat n) d s m
         else memmove_bytes_down (nat n) d s m))"

fun memsetw_loop :: "addr \<Rightarrow> u16 \<Rightarrow> nat \<Rightarrow> mem \<Rightarrow> mem" where
  "memsetw_loop temp v 0 m = m"
| "memsetw_loop temp v (Suc count) m =
     memsetw_loop (temp + 2) v count
       (m(temp := of_nat (unat v), temp + 1 := of_nat (unat v div 256)))"

definition memsetw :: "addr \<Rightarrow> u16 \<Rightarrow> int \<Rightarrow> mem \<Rightarrow> mem" where
  "memsetw dest v count m = memsetw_loop dest v (to_u32 count) m"

declare memmove_words_up.simps [simp del] memmove_align_up.simps [simp del]
  memmove_words_down.simps [simp del] memmove_align_down.simps [simp del]

section \<open>Pointer loops\<close>

text \<open>The loop \<^verbatim>\<open>for (; !stop; p++);\<close>: the first address from \<open>p\<close> on at which \<open>stop\<close> holds.\<close>
partial_function (option) scan :: "(addr \<Rightarrow> bool) \<Rightarrow> addr \<Rightarrow> addr option" where
  "scan stop p = (if stop p then Some p else scan stop (p + 1))"

definition strlen :: "mem \<Rightarrow> addr \<Rightarrow> int option" where
  "strlen m str = map_option (\<lambda>q. int (q - str)) (scan (\<lambda>a. m a = 0) str)"

partial_function (option) strcpy :: "addr \<Rightarrow> addr \<Rightarrow> mem \<Rightarrow> mem option" where
  "strcpy dest src m =
     (let m' = m(dest := m src)
      in if m' (src + 1) \<noteq> 0 then strcpy (dest + 1) (src + 1) m' else Some m')"

partial_function (option) strcmp :: "mem \<Rightarrow> addr \<Rightarrow> addr \<Rightarrow> u32 option" where
  "strcmp m s1 s2 =
     (if m s1 \<noteq> 0 \<and> m s1 = m s2 then strcmp m (s1 + 1) (s2 + 1)
      else Some (scast (m s1) - scast (m s2)))"

text \<open>The same comparison on the strings themselves, for the components whose strings are values.\<close>
fun str_cmp :: "u8 list \<Rightarrow> u8 list \<Rightarrow> u32" where
  "str_cmp [] [] = 0"
| "str_cmp [] (y # ys) = 0 - scast y"
| "str_cmp (x # xs) [] = scast x - 0"
| "str_cmp (x # xs) (y # ys) = (if x = y then str_cmp xs ys else scast x - scast y)"

partial_function (option) strlcpy_loop ::
    "addr \<Rightarrow> addr \<Rightarrow> int \<Rightarrow> mem \<Rightarrow> (addr \<times> addr \<times> int \<times> mem) option" where
  "strlcpy_loop d s n m =
     (let m' = m(d := m s)
      in if m s = 0 then Some (d + 1, s + 1, n, m')
         else if n - 1 \<noteq> 0 then strlcpy_loop (d + 1) (s + 1) (n - 1) m'
         else Some (d + 1, s + 1, 0, m'))"

definition strlcpy :: "addr \<Rightarrow> addr \<Rightarrow> int \<Rightarrow> mem \<Rightarrow> (int \<times> mem) option" where
  "strlcpy dst src siz m = do {
     (d, s, n, m) \<leftarrow>
       (if siz = 0 then Some (dst, src, 0, m)
        else if siz - 1 = 0 then Some (dst, src, 0, m)
        else strlcpy_loop dst src (siz - 1) m);
     (s, m) \<leftarrow>
       (if n = 0 then do {
          let m = (if siz \<noteq> 0 then m(d := 0) else m);
          e \<leftarrow> scan (\<lambda>a. m a = 0) s;
          Some (e + 1, m) }
        else Some (s, m));
     Some (int s - int src - 1, m) }"

text \<open>
  \<^verbatim>\<open>strncmp\<close> falls off its end when the bytes differ: no value is returned, \<open>None\<close> here.
\<close>
fun strncmp_loop :: "mem \<Rightarrow> addr \<Rightarrow> addr \<Rightarrow> nat \<Rightarrow> int option" where
  "strncmp_loop m s1 s2 0 = None"
| "strncmp_loop m s1 s2 (Suc n) =
     (if m s1 = m s2
      then if n = 0 \<or> m s1 = 0 then Some 0 else strncmp_loop m (s1 + 1) (s2 + 1) n
      else None)"

definition strncmp :: "mem \<Rightarrow> addr \<Rightarrow> addr \<Rightarrow> int \<Rightarrow> int option" where
  "strncmp m s1 s2 n =
     (if n = 0 \<or> s1 = 0 \<or> s2 = 0 then Some 0 else strncmp_loop m s1 s2 (nat n))"

fun memcmp_loop :: "mem \<Rightarrow> addr \<Rightarrow> addr \<Rightarrow> nat \<Rightarrow> int" where
  "memcmp_loop m us1 us2 0 = 0"
| "memcmp_loop m us1 us2 (Suc count) =
     (if m us1 \<noteq> m us2 then (if m us1 < m us2 then -1 else 1)
      else memcmp_loop m (us1 + 1) (us2 + 1) count)"

definition memcmp :: "mem \<Rightarrow> addr \<Rightarrow> addr \<Rightarrow> int \<Rightarrow> int" where
  "memcmp m lhs rhs count = memcmp_loop m lhs rhs (to_u32 count)"

fun memrchr_loop :: "mem \<Rightarrow> addr \<Rightarrow> u8 \<Rightarrow> nat \<Rightarrow> addr" where
  "memrchr_loop m s c 0 = 0"
| "memrchr_loop m s c (Suc n) = (if m (s + n) = c then s + n else memrchr_loop m s c n)"

text \<open>The character arguments are the bytes left by the source's conversion to unsigned char.\<close>
definition memrchr :: "mem \<Rightarrow> addr \<Rightarrow> u8 \<Rightarrow> int \<Rightarrow> addr" where
  "memrchr m s c n = memrchr_loop m s c (to_u32 n)"

section \<open>Byte sets, searching and tokenising\<close>

definition bitop_or :: "u8 \<Rightarrow> u32 list \<Rightarrow> u32 list" where
  "bitop_or b bs =
     bs[unat b div 32 := or (bs ! (unat b div 32)) (push_bit (unat b mod 32) 1)]"

definition bitop_and :: "u8 \<Rightarrow> u32 list \<Rightarrow> bool" where
  "bitop_and b bs \<longleftrightarrow> and (bs ! (unat b div 32)) (push_bit (unat b mod 32) 1) \<noteq> 0"

partial_function (option) byteset_fill :: "mem \<Rightarrow> addr \<Rightarrow> u32 list \<Rightarrow> u32 list option" where
  "byteset_fill m c bs =
     (if m c \<noteq> 0 then byteset_fill m (c + 1) (bitop_or (m c) bs) else Some bs)"

definition strspn :: "mem \<Rightarrow> addr \<Rightarrow> addr \<Rightarrow> nat option" where
  "strspn m s c =
     (if m c = 0 then Some 0
      else if m (c + 1) = 0 then map_option (\<lambda>e. e - s) (scan (\<lambda>a. m a \<noteq> m c) s)
      else do {
        bs \<leftarrow> byteset_fill m c (replicate 8 0);
        e \<leftarrow> scan (\<lambda>a. \<not> (m a \<noteq> 0 \<and> bitop_and (m a) bs)) s;
        Some (e - s) })"

definition magic_bits :: u32 where
  "magic_bits = or (drop_bit 1 (push_bit 1 ((-1) div 0xff * 0xfe))) 1"

definition charmask :: "u8 \<Rightarrow> u32" where
  "charmask c =
     (let cm = or (ucast c) (push_bit 8 (ucast c)) in or cm (push_bit 16 cm))"

definition hole_test :: "u32 \<Rightarrow> bool" where
  "hole_test x \<longleftrightarrow> and (xor (x + magic_bits) (not x)) (not magic_bits) \<noteq> 0"

partial_function (option) strchrnul_words :: "mem \<Rightarrow> u8 \<Rightarrow> addr \<Rightarrow> addr option" where
  "strchrnul_words m c p =
     (let longword = ld32 m p
      in if hole_test longword \<or> hole_test (xor longword (charmask c)) then
           (if m p = c \<or> m p = 0 then Some p
            else if m (p + 1) = c \<or> m (p + 1) = 0 then Some (p + 1)
            else if m (p + 2) = c \<or> m (p + 2) = 0 then Some (p + 2)
            else if m (p + 3) = c \<or> m (p + 3) = 0 then Some (p + 3)
            else strchrnul_words m c (p + 4))
         else strchrnul_words m c (p + 4))"

partial_function (option) strchrnul :: "mem \<Rightarrow> u8 \<Rightarrow> addr \<Rightarrow> addr option" where
  "strchrnul m c p =
     (if p mod 4 \<noteq> 0
      then if m p = c \<or> m p = 0 then Some p else strchrnul m c (p + 1)
      else strchrnul_words m c p)"

text \<open>
  The earlier version kept beside it: \<^verbatim>\<open>size_t\<close> being a signed int, \<^verbatim>\<open>ONES\<close> is
  \<open>-1\<close> divided by \<open>255\<close> with truncation.
\<close>
definition ones :: u32 where
  "ones = word_of_int ((-1) sdiv 255)"

definition highs :: u32 where
  "highs = ones * 128"

definition haszero :: "u32 \<Rightarrow> bool" where
  "haszero x \<longleftrightarrow> and (and (x - ones) (not x)) highs \<noteq> 0"

partial_function (option) strchrnul_skip :: "mem \<Rightarrow> u32 \<Rightarrow> addr \<Rightarrow> addr option" where
  "strchrnul_skip m k w =
     (if \<not> haszero (ld32 m w) \<and> \<not> haszero (xor (ld32 m w) k) then strchrnul_skip m k (w + 4)
      else Some w)"

partial_function (option) strchrnul_old_align :: "mem \<Rightarrow> u8 \<Rightarrow> addr \<Rightarrow> addr option" where
  "strchrnul_old_align m c s =
     (if s mod 4 \<noteq> 0
      then if m s = 0 \<or> m s = c then Some s else strchrnul_old_align m c (s + 1)
      else do {
        w \<leftarrow> strchrnul_skip m (ones * ucast c) s;
        scan (\<lambda>a. \<not> (m a \<noteq> 0 \<and> m a \<noteq> c)) w })"

definition strchrnul_old :: "mem \<Rightarrow> u8 \<Rightarrow> addr \<Rightarrow> addr option" where
  "strchrnul_old m c s =
     (if c = 0 then map_option (\<lambda>n. s + nat n) (strlen m s) else strchrnul_old_align m c s)"

definition strchr :: "mem \<Rightarrow> addr \<Rightarrow> u8 \<Rightarrow> addr option" where
  "strchr m s c = do { r \<leftarrow> strchrnul m c s; Some (if m r = c then r else 0) }"

definition strrchr :: "mem \<Rightarrow> addr \<Rightarrow> u8 \<Rightarrow> addr option" where
  "strrchr m s c = do { n \<leftarrow> strlen m s; Some (memrchr m s c (n + 1)) }"

definition strcspn :: "mem \<Rightarrow> addr \<Rightarrow> addr \<Rightarrow> nat option" where
  "strcspn m s c =
     (if m c \<noteq> 0 \<and> m (c + 1) \<noteq> 0 then do {
        bs \<leftarrow> byteset_fill m c (replicate 8 0);
        e \<leftarrow> scan (\<lambda>a. \<not> (m a \<noteq> 0 \<and> \<not> bitop_and (m a) bs)) s;
        Some (e - s) }
      else map_option (\<lambda>e. e - s) (strchrnul m (m c) s))"

definition strpbrk :: "mem \<Rightarrow> addr \<Rightarrow> addr \<Rightarrow> addr option" where
  "strpbrk m s b = do {
     n \<leftarrow> strcspn m s b;
     Some (if m (s + n) \<noteq> 0 then s + n else 0) }"

definition lfind :: "mem \<Rightarrow> addr \<Rightarrow> u8 \<Rightarrow> addr option" where
  "lfind m str accept = strchr m str accept"

definition rfind :: "mem \<Rightarrow> addr \<Rightarrow> u8 \<Rightarrow> addr option" where
  "rfind m str accept = strrchr m str accept"

text \<open>The address \<open>a\<close> is the one the allocator returns.\<close>
definition strdup :: "addr \<Rightarrow> addr \<Rightarrow> mem \<Rightarrow> mem option" where
  "strdup a s m = do { l \<leftarrow> strlen m s; Some (memcpy a s (l + 1) m) }"

text \<open>The result is the token, the new value of the save pointer and the memory.\<close>
definition strtok_r :: "addr \<Rightarrow> addr \<Rightarrow> addr \<Rightarrow> mem \<Rightarrow> (addr \<times> addr \<times> mem) option" where
  "strtok_r str delim saveptr m = do {
     let str = (if str = 0 then saveptr else str);
     k \<leftarrow> strspn m str delim;
     let str = str + k;
     if m str = 0 then Some (0, str, m)
     else do {
       e \<leftarrow> strpbrk m str delim;
       if e = 0 then do { z \<leftarrow> lfind m str 0; Some (str, z, m) }
       else Some (str, e + 1, m(e := 0)) } }"

section \<open>8.3 file names\<close>

definition toupper :: "u8 \<Rightarrow> u8" where
  "toupper c = (if 97 \<le> c \<and> c \<le> 122 then c - 0x20 else c)"

fun tdf_name :: "addr \<Rightarrow> addr \<Rightarrow> nat \<Rightarrow> nat \<Rightarrow> mem \<Rightarrow> (nat \<times> mem) option" where
  "tdf_name filename fname 0 i m = do { n \<leftarrow> strlen m filename; Some (i, m) }"
| "tdf_name filename fname (Suc k) i m = do {
     n \<leftarrow> strlen m filename;
     if int i < n then
       (if m (filename + i) = 46 \<or> i = 8 then Some (i, m)
        else tdf_name filename fname k (i + 1) (m(fname + i := toupper (m (filename + i)))))
     else Some (i, m) }"

definition tdf_ext :: "addr \<Rightarrow> addr \<Rightarrow> nat \<Rightarrow> mem \<Rightarrow> mem" where
  "tdf_ext filename fname i m =
     fold (\<lambda>k m. if m (filename + (i + 1 + k)) \<noteq> 0
                 then m(fname + 8 + k := m (filename + (i + 1 + k))) else m) [0..<3] m"

definition ToDosFileName :: "addr \<Rightarrow> addr \<Rightarrow> nat \<Rightarrow> mem \<Rightarrow> mem option" where
  "ToDosFileName filename fname FNameLength m =
     (if FNameLength > 11 \<or> fname = 0 \<or> filename = 0 then Some m
      else do {
        let m = memset fname 32 (int FNameLength) m;
        (i, m) \<leftarrow> tdf_name filename fname FNameLength 0 m;
        let m = (if m (filename + i) = 46 then tdf_ext filename fname i m else m);
        Some (fold (\<lambda>i m. m(fname + 8 + i := toupper (m (fname + 8 + i)))) [0..<3] m) })"

section \<open>Facts on dwords and copies\<close>

lemma unat_u8_less [simp]: "unat (x :: u8) < 256"
  using unsigned_less [of x] by simp

lemma unat_of_nat_u32: "n < 4294967296 \<Longrightarrow> unat (of_nat n :: u32) = n"
  by (simp add: unsigned_of_nat take_bit_nat_def)

lemma unat_ld32:
  "unat (ld32 m a) = unat (m a) + 256 * unat (m (a + 1)) + 65536 * unat (m (a + 2))
                     + 16777216 * unat (m (a + 3))"
proof -
  have "unat (m a) < 256" "unat (m (a + 1)) < 256" "unat (m (a + 2)) < 256" "unat (m (a + 3)) < 256"
    by simp_all
  then show ?thesis
    unfolding ld32_def by (subst unat_of_nat_u32) linarith+
qed

lemma of_nat_u8_low: "(of_nat (unat (x :: u8) + 256 * r) :: u8) = x"
proof -
  have "unat (of_nat (unat x + 256 * r) :: u8) = (unat x + 256 * r) mod 256"
    by (simp only: unsigned_of_nat take_bit_nat_def) simp
  also have "\<dots> = unat x"
    by simp
  finally show ?thesis by (simp only: word_unat_eq_iff)
qed

lemma low_div: "x < k \<Longrightarrow> y = x + k * r \<Longrightarrow> y div k = (r :: nat)"
  by simp

lemma le_bytes_div:
  fixes a b c d :: nat
  assumes "a < 256" "b < 256" "c < 256"
  shows "(a + 256 * b + 65536 * c + 16777216 * d) div 256 = b + 256 * (c + 256 * d)"
    and "(a + 256 * b + 65536 * c + 16777216 * d) div 65536 = c + 256 * d"
    and "(a + 256 * b + 65536 * c + 16777216 * d) div 16777216 = d + 256 * 0"
  using low_div [of a 256] low_div [of "a + 256 * b" 65536]
    low_div [of "a + 256 * b + 65536 * c" 16777216] assms
  by auto

lemma st32_ld32:
  "st32 a (ld32 m b) m' = m'(a := m b, a + 1 := m (b + 1), a + 2 := m (b + 2), a + 3 := m (b + 3))"
proof -
  have b: "unat (m b) < 256" "unat (m (b + 1)) < 256" "unat (m (b + 2)) < 256"
    by simp_all
  have 0: "unat (ld32 m b) = unat (m b) + 256 * (unat (m (b + 1)) + 256 * unat (m (b + 2)) + 65536 * unat (m (b + 3)))"
    by (simp add: unat_ld32)
  have 1: "unat (ld32 m b) div 256 = unat (m (b + 1)) + 256 * (unat (m (b + 2)) + 256 * unat (m (b + 3)))"
    unfolding unat_ld32 by (rule le_bytes_div [OF b])
  have 2: "unat (ld32 m b) div 65536 = unat (m (b + 2)) + 256 * unat (m (b + 3))"
    unfolding unat_ld32 by (rule le_bytes_div [OF b])
  have 3: "unat (ld32 m b) div 16777216 = unat (m (b + 3)) + 256 * 0"
    unfolding unat_ld32 by (rule le_bytes_div [OF b])
  show ?thesis
    unfolding st32_def 1 2 3 unfolding 0 of_nat_u8_low by simp
qed

text \<open>The memory after \<open>n\<close> bytes at \<open>s\<close> have been moved to \<open>d\<close>, as if read at once.\<close>
definition moved :: "addr \<Rightarrow> addr \<Rightarrow> nat \<Rightarrow> mem \<Rightarrow> mem" where
  "moved d s n m = (\<lambda>a. if d \<le> a \<and> a < d + n then m (s + (a - d)) else m a)"

lemma moved_at [simp]: "k < n \<Longrightarrow> moved d s n m (d + k) = m (s + k)"
  by (simp add: moved_def)

lemma moved_outside: "a < d \<or> d + n \<le> a \<Longrightarrow> moved d s n m a = m a"
  by (auto simp: moved_def)

lemma moved_eqI:
  assumes "\<And>k. k < n \<Longrightarrow> m' (d + k) = m (s + k)" and "\<And>a. a < d \<or> d + n \<le> a \<Longrightarrow> m' a = m a"
  shows "m' = moved d s n m"
proof
  fix a
  show "m' a = moved d s n m a"
  proof (cases "d \<le> a \<and> a < d + n")
    case True
    then obtain k where "a = d + k" "k < n" by (metis add_less_cancel_left le_Suc_ex)
    then show ?thesis by (simp add: assms)
  next
    case False
    then show ?thesis by (metis assms(2) moved_outside not_le)
  qed
qed

lemma moved_0 [simp]: "moved d s 0 m = m"
  by (auto simp: moved_def fun_eq_iff)

lemma moved_split:
  assumes "d \<le> s \<or> s + (j + n) \<le> d"
  shows "moved (d + j) (s + j) n (moved d s j m) = moved d s (j + n) m"
proof (rule moved_eqI)
  fix k assume k: "k < j + n"
  show "moved (d + j) (s + j) n (moved d s j m) (d + k) = m (s + k)"
  proof (cases "k < j")
    case True
    then show ?thesis by (simp add: moved_outside)
  next
    case False
    then obtain i where "k = j + i" "i < n"
      using k by (metis add_less_cancel_left le_Suc_ex not_le)
    then show ?thesis
      using assms moved_at [of i n "d + j" "s + j" "moved d s j m"]
      by (auto simp: add.assoc moved_outside)
  qed
qed (auto simp: moved_outside)

lemma moved_1: "m(d := m s) = moved d s 1 m"
  by (rule moved_eqI) auto

lemma moved_4: "st32 d (ld32 m s) m = moved d s 4 m"
proof (rule moved_eqI)
  fix k :: nat assume "k < 4"
  then consider "k = 0" | "k = 1" | "k = 2" | "k = 3" by linarith
  then show "st32 d (ld32 m s) m (d + k) = m (s + k)"
    by cases (simp_all add: st32_ld32)
qed (auto simp: st32_ld32)

lemma memcpy_dwords_moved:
  "d \<le> s \<or> s + 4 * k \<le> d \<Longrightarrow> memcpy_dwords d s k m = moved d s (4 * k) m"
proof (induction k)
  case (Suc k)
  then have "memcpy_dwords d s (Suc k) m = moved (d + 4 * k) (s + 4 * k) 4 (moved d s (4 * k) m)"
    by (auto simp: memcpy_dwords_def moved_4)
  then show ?case using moved_split [of d s "4 * k" 4 m] Suc.prems by (simp add: add.commute)
qed (simp add: memcpy_dwords_def)

lemma memcpy_bytes_moved:
  "d \<le> s \<or> s + k \<le> d \<Longrightarrow> memcpy_bytes d s k m = moved d s k m"
proof (induction k)
  case (Suc k)
  then have "memcpy_bytes d s (Suc k) m = moved (d + k) (s + k) 1 (moved d s k m)"
    by (auto simp: memcpy_bytes_def moved_1)
  then show ?case using moved_split [of d s k 1 m] Suc.prems by simp
qed (simp add: memcpy_bytes_def)

lemma sdiv_smod_4:
  assumes "0 \<le> n" "n < 2 ^ 31"
  shows "to_u32 (n sdiv 4) = nat n div 4" and "to_u32 (n smod 4) = nat n mod 4"
  using assms
  by (cases "n = 0"; simp add: to_u32_def signed_divide_int_def signed_modulo_int_def nat_div_distrib
        nat_mod_distrib sgn_if; fail)+

lemma memcpy_moved:
  assumes "0 \<le> n" "n < 2 ^ 31" and "d \<le> s \<or> s + nat n \<le> d"
  shows "memcpy d s n m = moved d s (nat n) m"
proof -
  define k r where kr: "k = nat n div 4" "r = nat n mod 4"
  have n: "nat n = 4 * k + r" by (simp add: kr)
  have "memcpy d s n m = memcpy_bytes (d + 4 * k) (s + 4 * k) r (memcpy_dwords d s k m)"
    using assms(1,2) by (simp only: memcpy_def Let_def sdiv_smod_4 kr mult.commute)
  also have "memcpy_dwords d s k m = moved d s (4 * k) m"
    using assms(3) n by (intro memcpy_dwords_moved) linarith
  also have "memcpy_bytes (d + 4 * k) (s + 4 * k) r \<dots> = moved (d + 4 * k) (s + 4 * k) r \<dots>"
    using assms(3) n by (intro memcpy_bytes_moved) linarith
  also have "\<dots> = moved d s (4 * k + r) m"
    using assms(3) n by (intro moved_split) linarith
  finally show ?thesis by (simp only: n)
qed

lemma memmove_bytes_up_moved: "d \<le> s \<Longrightarrow> memmove_bytes_up n d s m = moved d s n m"
proof (induction n arbitrary: d s m)
  case (Suc n)
  then show ?case using moved_split [of d s 1 n m] by (simp add: moved_1)
qed simp

lemma memmove_words_up_moved: "d \<le> s \<Longrightarrow> memmove_words_up n d s m = moved d s n m"
proof (induction n d s m rule: memmove_words_up.induct)
  case (1 n d s m)
  show ?case
  proof (cases "n \<ge> 4")
    case True
    then show ?thesis
      using 1 moved_split [of d s 4 "n - 4" m] by (subst memmove_words_up.simps) (simp add: moved_4)
  next
    case False
    then show ?thesis using 1 by (subst memmove_words_up.simps) (simp add: memmove_bytes_up_moved)
  qed
qed

lemma memmove_align_up_moved: "d \<le> s \<Longrightarrow> memmove_align_up n d s m = moved d s n m"
proof (induction n arbitrary: d s m)
  case 0
  then show ?case by (subst memmove_align_up.simps) (simp add: memmove_words_up_moved)
next
  case (Suc n)
  then show ?case
    using moved_split [of d s 1 n m]
    by (subst memmove_align_up.simps) (simp add: moved_1 memmove_words_up_moved)
qed

lemma moved_split_down:
  assumes "s \<le> d"
  shows "moved d s n (moved (d + n) (s + n) j m) = moved d s (n + j) m"
proof (rule moved_eqI)
  fix k assume k: "k < n + j"
  show "moved d s n (moved (d + n) (s + n) j m) (d + k) = m (s + k)"
  proof (cases "k < n")
    case True
    then show ?thesis using assms by (simp add: moved_outside)
  next
    case False
    then obtain i where "k = n + i" "i < j"
      using k by (metis add_less_cancel_left le_Suc_ex not_le)
    then show ?thesis
      using moved_at [of i j "d + n" "s + n" m] by (simp add: add.assoc moved_outside)
  qed
qed (auto simp: moved_outside)

lemma memmove_bytes_down_moved: "s \<le> d \<Longrightarrow> memmove_bytes_down n d s m = moved d s n m"
proof (induction n arbitrary: m)
  case (Suc n)
  then show ?case using moved_split_down [of s d n 1 m] by (simp add: moved_1)
qed simp

lemma memmove_words_down_moved: "s \<le> d \<Longrightarrow> memmove_words_down n d s m = moved d s n m"
proof (induction n d s m rule: memmove_words_down.induct)
  case (1 n d s m)
  show ?case
  proof (cases "n \<ge> 4")
    case True
    then show ?thesis
      using 1 moved_split_down [of s d "n - 4" 4 m]
      by (subst memmove_words_down.simps) (simp add: moved_4)
  next
    case False
    then show ?thesis using 1 by (subst memmove_words_down.simps) (simp add: memmove_bytes_down_moved)
  qed
qed

lemma memmove_align_down_moved: "s \<le> d \<Longrightarrow> memmove_align_down n d s m = moved d s n m"
proof (induction n arbitrary: m)
  case 0
  then show ?case by (subst memmove_align_down.simps) (simp add: memmove_words_down_moved)
next
  case (Suc n)
  then show ?case
    using moved_split_down [of s d n 1 m]
    by (subst memmove_align_down.simps) (simp add: moved_1 memmove_words_down_moved)
qed

lemmas memmove_parts_moved =
  memmove_bytes_up_moved memmove_align_up_moved memmove_bytes_down_moved memmove_align_down_moved

lemma memmove_moved:
  assumes "0 \<le> n" "n < 2 ^ 31"
  shows "memmove d s n m = moved d s (nat n) m"
proof (cases "d = s")
  case True
  then show ?thesis by (auto simp: memmove_def moved_def fun_eq_iff)
next
  case False
  then show ?thesis
    using assms by (auto simp: memmove_def memmove_parts_moved intro!: memcpy_moved)
qed


lemma scast_u8_eq: "(scast (x :: u8) :: u32) = scast y \<longleftrightarrow> x = y"
proof -
  have "ucast (scast z :: u32) = z" for z :: u8
    by (rule bit_word_eqI) (auto simp: bit_simps)
  then show ?thesis by metis
qed

lemma str_cmp_0: "0 \<notin> set xs \<Longrightarrow> 0 \<notin> set ys \<Longrightarrow> str_cmp xs ys = 0 \<longleftrightarrow> xs = ys"
  using scast_u8_eq [of _ 0] by (induction xs ys rule: str_cmp.induct) (auto simp: scast_u8_eq)

end
