(* ===== verification/KStrings.thy ===== *)
theory KStrings
  imports Kutils
begin

text \<open>
  Correctness of the string routines of \<^verbatim>\<open>kernel/src/kutils.c\<close>: the word-at-a-time search against a
  byte scan, spans and tokens against the list functions, bounded copies.
\<close>


section \<open>Zero bytes and the hole test\<close>

definition byte_of :: "nat \<Rightarrow> u32 \<Rightarrow> u32" where
  "byte_of i x = take_bit 8 (drop_bit (8 * i) x)"

lemma byte_of_xor: "byte_of i (xor x y) = xor (byte_of i x) (byte_of i y)"
  by (simp add: byte_of_def)

lemma take_bit_unat_u32: "take_bit 32 (unat (x :: u32)) = unat x"
  using unsigned_less [of x] by (simp add: take_bit_nat_eq_self_iff)

lemma take_bit_unat_u8: "take_bit 32 (unat (x :: u8)) = unat x"
  using unat_u8_less [of x] by (simp add: take_bit_nat_eq_self_iff del: unat_u8_less)

lemma unat_byte_of: "unat (byte_of i x) = unat x div 256 ^ i mod 256"
proof -
  have "unat (byte_of i x) = take_bit 8 (drop_bit (8 * i) (unat x))"
    by (simp only: byte_of_def unsigned_take_bit_eq unsigned_drop_bit_eq)
      (simp add: take_bit_unat_u32)
  then show ?thesis by (simp add: take_bit_eq_mod drop_bit_eq_div power_mult)
qed

lemma magic_bits_val: "magic_bits = 0x7EFEFEFF"
  unfolding magic_bits_def by code_simp

lemma bit_add_magic:
  "k < 32 \<Longrightarrow> bit (x + magic_bits) k \<longleftrightarrow> odd ((unat x + 0x7EFEFEFF) div 2 ^ k)"
proof -
  assume "k < 32"
  moreover have "x + magic_bits = of_nat (unat x + 0x7EFEFEFF)"
    by (simp add: magic_bits_val)
  moreover have "bit (of_nat n :: u32) k \<longleftrightarrow> odd (n div 2 ^ k)" if "k < 32" for n
    using that by (simp add: bit_of_nat_iff possible_bit_def flip: bit_iff_odd)
  ultimately show ?thesis
    by metis
qed

lemma bit_u32_odd: "bit (x :: u32) k \<longleftrightarrow> odd (unat x div 2 ^ k)"
  by (simp add: bit_unsigned_iff possible_bit_def flip: bit_iff_odd)

lemma hole_testI:
  assumes "k \<in> {8, 16, 24, 31}"
    and "odd ((unat x + 0x7EFEFEFF) div 2 ^ k) \<longleftrightarrow> odd (unat x div 2 ^ k)"
  shows "hole_test x"
proof -
  have "bit (x + magic_bits) k \<longleftrightarrow> bit x k"
    using assms by (subst bit_add_magic) (auto simp: bit_u32_odd)
  then have "bit (and (xor (x + magic_bits) (not x)) (not magic_bits)) k"
    using assms(1) by (auto simp: bit_simps magic_bits_val)
  then show ?thesis unfolding hole_test_def by auto
qed

lemma bytes_sum:
  "x = r0 + 256 * q1 \<Longrightarrow> q1 = r1 + 256 * q2 \<Longrightarrow> q2 = r2 + 256 * q3 \<Longrightarrow>
   x = r0 + 256 * r1 + 65536 * r2 + 16777216 * (q3 :: nat)"
  by simp

lemma u32_bytes:
  obtains a b c d :: nat where "unat (x :: u32) = a + 256 * b + 65536 * c + 16777216 * d"
    and "a < 256" "b < 256" "c < 256" "d < 256"
    and "a = unat (byte_of 0 x)" "b = unat (byte_of 1 x)" "c = unat (byte_of 2 x)" "d = unat (byte_of 3 x)"
proof
  define q1 q2 q3 where q: "q1 = unat x div 256" "q2 = q1 div 256" "q3 = q2 div 256"
  have "unat x < 4294967296" using unsigned_less [of x] by simp
  then have "q3 < 256" by (simp add: q flip: div_mult2_eq)
  then have bytes: "unat (byte_of 0 x) = unat x mod 256" "unat (byte_of 1 x) = q1 mod 256"
    "unat (byte_of 2 x) = q2 mod 256" "unat (byte_of 3 x) = q3"
    by (simp_all add: unat_byte_of q flip: div_mult2_eq)
  show "unat x = unat (byte_of 0 x) + 256 * unat (byte_of 1 x) + 65536 * unat (byte_of 2 x)
      + 16777216 * unat (byte_of 3 x)"
    unfolding bytes by (rule bytes_sum) (simp_all only: q mod_mult_div_eq)
qed (simp_all add: unat_byte_of)

lemma hole_test_zero_byte:
  assumes "i < 4" "byte_of i x = 0"
  shows "hole_test x"
proof -
  obtain a b c d where x: "unat x = a + 256 * b + 65536 * c + 16777216 * d"
    and less: "a < 256" "b < 256" "c < 256" "d < 256"
    and bytes: "a = unat (byte_of 0 x)" "b = unat (byte_of 1 x)" "c = unat (byte_of 2 x)"
      "d = unat (byte_of 3 x)"
    by (rule u32_bytes)
  consider "i = 0" "a = 0" | "i = 1" "b = 0" | "i = 2" "c = 0" | "i = 3" "d = 0"
    using assms bytes by (cases "i = 0"; cases "i = 1"; cases "i = 2"; cases "i = 3") auto
  then show ?thesis
  proof cases
    case 1
    have "unat x div 256 = b + 256 * (c + 256 * d)"
      "(unat x + 0x7EFEFEFF) div 256 = b + 254 + 256 * (c + 254 + 256 * (d + 126))"
      using 1 x low_div [of 0 256] low_div [of 255 256] by simp_all
    then show ?thesis by (intro hole_testI [of 8]) simp_all
  next
    case 2
    have "unat x div 65536 = c + 256 * d"
      "(unat x + 0x7EFEFEFF) div 65536 = c + 254 + 256 * (d + 126)"
      using 2 x less low_div [of a 65536] low_div [of "a + 255 + 256 * 254" 65536] by simp_all
    then show ?thesis by (intro hole_testI [of 16]) simp_all
  next
    case 3
    have "unat x div 16777216 = d"
      "(unat x + 0x7EFEFEFF) div 16777216 = d + 126"
      using 3 x less low_div [of "a + 256 * b" 16777216]
        low_div [of "a + 256 * b + 255 + 256 * 254 + 65536 * 254" 16777216] by simp_all
    then show ?thesis by (intro hole_testI [of 24]) simp_all
  next
    case 4
    have "unat x div 2147483648 = 0" "(unat x + 0x7EFEFEFF) div 2147483648 = 0"
      using 4 x less by simp_all
    then show ?thesis by (intro hole_testI [of 31]) simp_all
  qed
qed

lemma low_mod: "x < 256 \<Longrightarrow> (x + (256 * y + 65536 * z)) mod 256 = (x :: nat)"
  using mod_mult_self2 [of x 256 "y + 256 * z"] by (simp add: algebra_simps)

lemma byte_of_ld32:
  assumes "i < 4"
  shows "byte_of i (ld32 m p) = ucast (m (p + i))"
proof -
  have b: "unat (m p) < 256" "unat (m (p + 1)) < 256" "unat (m (p + 2)) < 256" "unat (m (p + 3)) < 256"
    by simp_all
  note div = le_bytes_div [OF b(1-3), where d = "unat (m (p + 3))", folded unat_ld32]
  have "unat (ld32 m p) = unat (m p) + 256 * (unat (m (p + 1)) + 256 * unat (m (p + 2)) + 65536 * unat (m (p + 3)))"
    by (simp add: unat_ld32)
  then have "unat (ld32 m p) mod 256 = unat (m p)"
    by (metis mod_less mod_mult_self2 b(1))
  then have lo: "unat (byte_of 0 (ld32 m p)) = unat (m p)" "unat (byte_of 1 (ld32 m p)) = unat (m (p + 1))"
    "unat (byte_of 2 (ld32 m p)) = unat (m (p + 2))" "unat (byte_of 3 (ld32 m p)) = unat (m (p + 3))"
    by (simp_all add: unat_byte_of div low_mod)
  consider "i = 0" | "i = 1" | "i = 2" | "i = 3" using assms by linarith
  then have "unat (byte_of i (ld32 m p)) = unat (m (p + i))"
    by cases (simp_all only: lo add_0_right)
  then show ?thesis
    by (simp add: word_unat_eq_iff unsigned_ucast_eq take_bit_unat_u8)
qed

lemma byte_of_charmask:
  assumes "i < 4"
  shows "byte_of i (charmask c) = ucast c"
proof -
  consider "i = 0" | "i = 1" | "i = 2" | "i = 3" using assms by linarith
  then show ?thesis
    by cases (rule bit_word_eqI, auto simp: byte_of_def charmask_def Let_def bit_simps dest: bit_imp_le_length)+
qed

lemma strchrnul_test:
  assumes "i < 4" "m (p + i) = c \<or> m (p + i) = 0"
  shows "hole_test (ld32 m p) \<or> hole_test (xor (ld32 m p) (charmask c))"
proof (cases "m (p + i) = 0")
  case True
  then show ?thesis using assms(1) by (intro disjI1 hole_test_zero_byte [of i]) (simp_all add: byte_of_ld32)
next
  case False
  then show ?thesis
    using assms by (intro disjI2 hole_test_zero_byte [of i]) (simp_all add: byte_of_xor byte_of_ld32 byte_of_charmask)
qed

section \<open>The loops against their reference\<close>

lemma scan_first:
  "(\<And>i. i < k \<Longrightarrow> \<not> stop (p + i)) \<Longrightarrow> stop (p + k) \<Longrightarrow> scan stop p = Some (p + k)"
proof (induction k arbitrary: p)
  case 0
  then show ?case by (subst scan.simps) simp
next
  case (Suc k)
  have "\<not> stop p" using Suc.prems(1) [of 0] by simp
  moreover have "scan stop (p + 1) = Some (p + 1 + k)"
    using Suc.prems by (intro Suc.IH) (force, simp)
  ultimately show ?case by (subst scan.simps) simp
qed

lemma scan_here: "stop p \<Longrightarrow> scan stop p = Some p"
  by (subst scan.simps) simp

lemma scan_skip: "(\<And>i. i < k \<Longrightarrow> \<not> stop (p + i)) \<Longrightarrow> scan stop p = scan stop (p + k)"
proof (induction k)
  case (Suc k)
  have "scan stop (p + k) = scan stop (p + Suc k)"
    using Suc.prems [of k] by (subst scan.simps) simp
  then show ?case using Suc by simp
qed simp

lemma scan_SomeD:
  assumes "scan stop p = Some q"
  shows "p \<le> q \<and> stop q \<and> (\<forall>a. p \<le> a \<and> a < q \<longrightarrow> \<not> stop a)"
proof (rule scan.raw_induct
    [where P = "\<lambda>stop p q. p \<le> q \<and> stop q \<and> (\<forall>a. p \<le> a \<and> a < q \<longrightarrow> \<not> stop a)", OF _ assms])
  fix rec and stop :: "addr \<Rightarrow> bool" and p q :: addr
  assume IH: "\<And>stop p q. rec stop p = Some q \<Longrightarrow>
      p \<le> q \<and> stop q \<and> (\<forall>a. p \<le> a \<and> a < q \<longrightarrow> \<not> stop a)"
    and run: "(if stop p then Some p else rec stop (p + 1)) = Some q"
  show "p \<le> q \<and> stop q \<and> (\<forall>a. p \<le> a \<and> a < q \<longrightarrow> \<not> stop a)"
  proof (cases "stop p")
    case True
    then show ?thesis using run by auto
  next
    case False
    then have "p + 1 \<le> q \<and> stop q \<and> (\<forall>a. p + 1 \<le> a \<and> a < q \<longrightarrow> \<not> stop a)"
      using run IH [of stop "p + 1" q] by simp
    then show ?thesis
      using False by (metis Suc_eq_plus1 Suc_leD le_neq_implies_less Suc_leI)
  qed
qed

lemma scan_eq_Some:
  "scan stop p = Some q \<longleftrightarrow> p \<le> q \<and> stop q \<and> (\<forall>a. p \<le> a \<and> a < q \<longrightarrow> \<not> stop a)"
proof
  assume *: "p \<le> q \<and> stop q \<and> (\<forall>a. p \<le> a \<and> a < q \<longrightarrow> \<not> stop a)"
  then obtain k where "q = p + k" by (metis le_Suc_ex)
  then show "scan stop p = Some q" using * by (auto intro!: scan_first)
qed (rule scan_SomeD)

lemma first_of_four:
  assumes "\<exists>i<4. hit (p + i)"
  shows "(if hit p then Some p else if hit (p + 1) then Some (p + 1)
          else if hit (p + 2) then Some (p + 2) else if hit (p + 3) then Some (p + 3) else r) = scan hit p"
proof -
  have "hit p \<or> hit (p + 1) \<or> hit (p + 2) \<or> hit (p + 3)"
    using assms by (auto simp: less_Suc_eq numeral_eq_Suc)
  then show ?thesis
    by (auto simp: scan_eq_Some less_Suc_eq numeral_eq_Suc intro!: sym [of "scan hit p"])
qed

lemma strchrnul_words_SomeD:
  assumes "strchrnul_words m c p = Some q"
  shows "scan (\<lambda>a. m a = c \<or> m a = 0) p = Some q"
proof (rule strchrnul_words.raw_induct
    [where P = "\<lambda>m c p q. scan (\<lambda>a. m a = c \<or> m a = 0) p = Some q", OF _ assms])
  fix rec :: "mem \<Rightarrow> u8 \<Rightarrow> addr \<Rightarrow> addr option" and m :: mem and c :: u8 and p q :: addr
  let ?hit = "\<lambda>a. m a = c \<or> m a = 0"
  assume IH: "\<And>m c p q. rec m c p = Some q \<Longrightarrow> scan (\<lambda>a. m a = c \<or> m a = 0) p = Some q"
    and run: "(let longword = ld32 m p
       in if hole_test longword \<or> hole_test (xor longword (charmask c)) then
            (if ?hit p then Some p else if ?hit (p + 1) then Some (p + 1)
             else if ?hit (p + 2) then Some (p + 2) else if ?hit (p + 3) then Some (p + 3)
             else rec m c (p + 4))
          else rec m c (p + 4)) = Some q"
  show "scan ?hit p = Some q"
  proof (cases "\<exists>i<4. ?hit (p + i)")
    case True
    then have "hole_test (ld32 m p) \<or> hole_test (xor (ld32 m p) (charmask c))"
      by (metis strchrnul_test)
    then show ?thesis using run first_of_four [OF True, of "rec m c (p + 4)"] by (simp add: Let_def)
  next
    case False
    then have no: "\<not> ?hit (p + i)" if "i < 4" for i using that by metis
    then have "scan ?hit (p + 4) = Some q"
      using run IH no [of 0] no [of 1] no [of 2] no [of 3] by (auto simp: Let_def split: if_splits)
    then show ?thesis using scan_skip [of 4 ?hit p] no by metis
  qed
qed

lemma strchrnul_SomeD:
  assumes "strchrnul m c p = Some q"
  shows "scan (\<lambda>a. m a = c \<or> m a = 0) p = Some q"
proof (rule strchrnul.raw_induct
    [where P = "\<lambda>m c p q. scan (\<lambda>a. m a = c \<or> m a = 0) p = Some q", OF _ assms])
  fix rec and m :: mem and c :: u8 and p q :: addr
  assume IH: "\<And>m c p q. rec m c p = Some q \<Longrightarrow> scan (\<lambda>a. m a = c \<or> m a = 0) p = Some q"
    and run: "(if p mod 4 \<noteq> 0 then if m p = c \<or> m p = 0 then Some p else rec m c (p + 1)
               else strchrnul_words m c p) = Some q"
  then show "scan (\<lambda>a. m a = c \<or> m a = 0) p = Some q"
    using scan.simps [of "\<lambda>a. m a = c \<or> m a = 0" p]
    by (auto split: if_splits dest: strchrnul_words_SomeD)
qed

lemma strchrnul_words_returns:
  "m (p + k) = c \<or> m (p + k) = 0 \<Longrightarrow> strchrnul_words m c p \<noteq> None"
proof (induction k arbitrary: p rule: less_induct)
  case (less k)
  let ?hit = "\<lambda>a. m a = c \<or> m a = 0"
  show ?case
  proof (cases "\<exists>i<4. ?hit (p + i)")
    case True
    moreover have "hole_test (ld32 m p) \<or> hole_test (xor (ld32 m p) (charmask c))"
      using True by (metis strchrnul_test)
    moreover have "?hit p \<or> ?hit (p + 1) \<or> ?hit (p + 2) \<or> ?hit (p + 3)"
      using True by (auto simp: less_Suc_eq numeral_eq_Suc)
    ultimately show ?thesis by (subst strchrnul_words.simps) (auto simp: Let_def)
  next
    case False
    then have "4 \<le> k" using less.prems by (metis not_le)
    then have "strchrnul_words m c (p + 4) \<noteq> None"
      using less.prems by (intro less.IH [of "k - 4"]) simp_all
    then show ?thesis by (subst strchrnul_words.simps) (auto simp: Let_def)
  qed
qed

lemma strchrnul_returns:
  "m (p + k) = c \<or> m (p + k) = 0 \<Longrightarrow> strchrnul m c p \<noteq> None"
proof (induction k arbitrary: p)
  case 0
  then show ?case
    using strchrnul_words_returns [of m p 0 c] by (subst strchrnul.simps) auto
next
  case (Suc k)
  then show ?case
    using strchrnul_words_returns [of m p "Suc k" c] by (subst strchrnul.simps) auto
qed

lemma strchrnul_scan: "strchrnul m c p = scan (\<lambda>a. m a = c \<or> m a = 0) p"
proof (cases "scan (\<lambda>a. m a = c \<or> m a = 0) p")
  case None
  then show ?thesis by (cases "strchrnul m c p") (auto dest: strchrnul_SomeD)
next
  case (Some q)
  have "p \<le> q" "m q = c \<or> m q = 0" using scan_SomeD [OF Some] by simp_all
  then have "strchrnul m c p \<noteq> None" using strchrnul_returns [of m p "q - p" c] by simp
  then obtain y where y: "strchrnul m c p = Some y" by auto
  then show ?thesis using strchrnul_SomeD [OF y] by simp
qed


section \<open>Strings in memory\<close>

fun str_at :: "mem \<Rightarrow> addr \<Rightarrow> u8 list \<Rightarrow> bool" where
  "str_at m p [] \<longleftrightarrow> m p = 0"
| "str_at m p (x # xs) \<longleftrightarrow> m p = x \<and> x \<noteq> 0 \<and> str_at m (p + 1) xs"

lemma str_at_nth: "str_at m p xs \<Longrightarrow> i < length xs \<Longrightarrow> m (p + i) = xs ! i \<and> xs ! i \<noteq> 0"
proof (induction xs arbitrary: p i)
  case (Cons x xs)
  then show ?case using Cons.IH [of "p + 1" "i - 1"] by (cases i) auto
qed simp

lemma str_at_end: "str_at m p xs \<Longrightarrow> m (p + length xs) = 0"
  by (induction xs arbitrary: p) force+

lemma str_at_nz: "str_at m p xs \<Longrightarrow> 0 \<notin> set xs"
  by (induction xs arbitrary: p) auto

lemma str_atI:
  "(\<And>i. i < length xs \<Longrightarrow> m (p + i) = xs ! i) \<Longrightarrow> 0 \<notin> set xs \<Longrightarrow> m (p + length xs) = 0 \<Longrightarrow>
   str_at m p xs"
proof (induction xs arbitrary: p)
  case (Cons x xs)
  have "m p = x" using Cons.prems(1) [of 0] by simp
  moreover have "str_at m (p + 1) xs"
    using Cons.prems by (intro Cons.IH) (force, auto)
  ultimately show ?case using Cons.prems(2) by auto
qed simp

lemma str_at_append: "str_at m p (xs @ ys) \<Longrightarrow> str_at m (p + length xs) ys"
  by (induction xs arbitrary: p) force+

lemma str_at_cong:
  "str_at m p xs \<Longrightarrow> (\<And>a. p \<le> a \<Longrightarrow> a \<le> p + length xs \<Longrightarrow> m' a = m a) \<Longrightarrow> str_at m' p xs"
  by (induction xs arbitrary: p) auto

text \<open>Scanning a string for the first byte outside a class that does not contain NUL.\<close>
lemma scan_str_at:
  assumes "str_at m p xs" and "\<not> P 0"
  shows "scan (\<lambda>a. \<not> P (m a)) p = Some (p + length (takeWhile P xs))"
  using assms(1)
proof (induction xs arbitrary: p)
  case Nil
  then show ?case using assms(2) by (subst scan.simps) simp
next
  case (Cons x xs)
  then show ?case by (subst scan.simps) auto
qed

lemma strlen_str_at: "str_at m p xs \<Longrightarrow> strlen m p = Some (int (length xs))"
  using scan_str_at [of m p xs "\<lambda>x. x \<noteq> 0"] str_at_nz [of m p xs]
  by (auto simp: strlen_def intro!: arg_cong [of _ _ length] takeWhile_eq_all_conv [THEN iffD2])

lemma strcmp_str_at:
  "str_at m p xs \<Longrightarrow> str_at m q ys \<Longrightarrow> strcmp m p q = Some (str_cmp xs ys)"
proof (induction xs ys arbitrary: p q rule: str_cmp.induct)
  case (4 x xs y ys)
  then show ?case by (cases "x = y") (auto simp: strcmp.simps [of m p q])
qed (subst strcmp.simps, auto)+

section \<open>Byte sets\<close>

lemma bitop_and_bit: "bitop_and b bs \<longleftrightarrow> bit (bs ! (unat b div 32)) (unat b mod 32)"
  by (simp add: bitop_and_def bit_iff_and_push_bit_not_eq_0)

lemma unat_u8_div32: "unat (b :: u8) div 32 < 8"
  by (rule less_mult_imp_div_less) simp

lemma bitop_and_or:
  assumes "length bs = 8"
  shows "bitop_and b (bitop_or c bs) \<longleftrightarrow> b = c \<or> bitop_and b bs"
proof -
  have eq: "b = c \<longleftrightarrow> unat b div 32 = unat c div 32 \<and> unat b mod 32 = unat c mod 32"
    by (metis mult_div_mod_eq word_unat_eq_iff)
  show ?thesis
  proof (cases "unat b div 32 = unat c div 32")
    case True
    then have "bitop_or c bs ! (unat b div 32) = or (bs ! (unat b div 32)) (2 ^ (unat c mod 32))"
      using assms unat_u8_div32 [of c] by (simp add: bitop_or_def)
    then show ?thesis
      using True by (auto simp: bitop_and_bit bit_or_iff bit_exp_iff possible_bit_def eq)
  next
    case False
    then show ?thesis by (auto simp: bitop_and_bit bitop_or_def)
  qed
qed

lemma length_bitop_or [simp]: "length (bitop_or c bs) = length bs"
  by (simp add: bitop_or_def)

lemma byteset_fill_str_at:
  "str_at m c ds \<Longrightarrow> length bs = 8 \<Longrightarrow>
   \<exists>bs'. byteset_fill m c bs = Some bs' \<and> (\<forall>b. bitop_and b bs' \<longleftrightarrow> b \<in> set ds \<or> bitop_and b bs)"
proof (induction ds arbitrary: c bs)
  case Nil
  then show ?case by (simp add: byteset_fill.simps [of m c])
next
  case (Cons d ds)
  then obtain bs' where "byteset_fill m (c + 1) (bitop_or d bs) = Some bs'"
    "\<forall>b. bitop_and b bs' \<longleftrightarrow> b \<in> set ds \<or> bitop_and b (bitop_or d bs)"
    by (metis length_bitop_or str_at.simps(2))
  then show ?case using Cons.prems by (auto simp: byteset_fill.simps [of m c] bitop_and_or)
qed

lemma byteset_empty: "\<not> bitop_and b (replicate 8 0)"
  by (simp add: bitop_and_bit unat_u8_div32)

lemma str_at_two: "str_at m c ds \<Longrightarrow> m c = 0 \<longleftrightarrow> ds = []"
  "str_at m c ds \<Longrightarrow> m c \<noteq> 0 \<Longrightarrow> m (c + 1) = 0 \<longleftrightarrow> (\<exists>d. ds = [d])"
  by (cases ds; cases "tl ds"; auto)+

lemma strspn_str_at:
  assumes s: "str_at m s xs" and c: "str_at m c ds"
  shows "strspn m s c = Some (length (takeWhile (\<lambda>x. x \<in> set ds) xs))"
proof -
  have nz: "0 \<notin> set ds" using c by (rule str_at_nz)
  consider "ds = []" | d where "ds = [d]" | "m c \<noteq> 0" "m (c + 1) \<noteq> 0"
    using str_at_two [OF c] by auto
  then show ?thesis
  proof cases
    case 1
    then show ?thesis using c by (cases xs) (simp_all add: strspn_def)
  next
    case 2
    then show ?thesis using c scan_str_at [OF s, of "\<lambda>x. x = d"] by (simp add: strspn_def)
  next
    case 3
    obtain bs where bs: "byteset_fill m c (replicate 8 0) = Some bs" "\<forall>b. bitop_and b bs \<longleftrightarrow> b \<in> set ds"
      using byteset_fill_str_at [OF c, of "replicate 8 0"] byteset_empty by auto
    have "takeWhile (\<lambda>x. x \<noteq> 0 \<and> x \<in> set ds) xs = takeWhile (\<lambda>x. x \<in> set ds) xs"
      using nz by (intro takeWhile_cong) auto
    then show ?thesis
      using 3 bs scan_str_at [OF s, of "\<lambda>x. x \<noteq> 0 \<and> bitop_and x bs"] by (simp add: strspn_def)
  qed
qed

lemma strcspn_str_at:
  assumes s: "str_at m s xs" and c: "str_at m c ds"
  shows "strcspn m s c = Some (length (takeWhile (\<lambda>x. x \<notin> set ds) xs))"
proof -
  have nz: "0 \<notin> set xs" using s by (rule str_at_nz)
  then have tw: "takeWhile (\<lambda>x. x \<noteq> 0 \<and> x \<notin> D) xs = takeWhile (\<lambda>x. x \<notin> D) xs" for D
    by (intro takeWhile_cong) auto
  consider "m c = 0 \<or> m (c + 1) = 0" "set ds \<subseteq> {m c}" "ds = [] \<longleftrightarrow> m c = 0" | "m c \<noteq> 0" "m (c + 1) \<noteq> 0"
    using str_at_two [OF c] c by (cases ds) auto
  then show ?thesis
  proof cases
    case 1
    have mc: "m c \<in> set ds \<or> ds = []" using c by (cases ds) auto
    have "takeWhile (\<lambda>x. \<not> (x = m c \<or> x = 0)) xs = takeWhile (\<lambda>x. x \<notin> set ds) xs"
      using nz 1 c mc by (intro takeWhile_cong) auto
    then show ?thesis
      using 1 scan_str_at [OF s, of "\<lambda>x. \<not> (x = m c \<or> x = 0)"] by (auto simp: strcspn_def strchrnul_scan)
  next
    case 2
    obtain bs where bs: "byteset_fill m c (replicate 8 0) = Some bs" "\<forall>b. bitop_and b bs \<longleftrightarrow> b \<in> set ds"
      using byteset_fill_str_at [OF c, of "replicate 8 0"] byteset_empty by auto
    then show ?thesis
      using 2 scan_str_at [OF s, of "\<lambda>x. x \<noteq> 0 \<and> \<not> bitop_and x bs"] tw by (simp add: strcspn_def)
  qed
qed


section \<open>Copying and comparing strings\<close>

lemma takeWhile_nz: "0 \<notin> set xs \<Longrightarrow> takeWhile (\<lambda>x. x \<noteq> 0) xs = xs"
  by (auto simp: takeWhile_eq_all_conv)

lemma moved_str_at:
  assumes "str_at m s xs" and "s + length xs < d \<or> d + n \<le> s"
  shows "str_at (moved d s n m) s xs"
  using assms by (intro str_at_cong [OF assms(1)]) (auto simp: moved_def)

lemma strlcpy_loop_str_at:
  assumes "str_at m s xs" and "s + length xs < d \<or> d + length xs < s" and "1 \<le> n"
  shows "strlcpy_loop d s n m =
    (if int (length xs) < n
     then Some (d + length xs + 1, s + length xs + 1, n - int (length xs), moved d s (length xs + 1) m)
     else Some (d + nat n, s + nat n, 0, moved d s (nat n) m))"
  using assms
proof (induction xs arbitrary: d s n m)
  case Nil
  then show ?case using moved_1 [of m d s] by (simp add: strlcpy_loop.simps [of d s n m] Let_def)
next
  case (Cons x xs)
  let ?m1 = "moved d s 1 m"
  have x: "m s \<noteq> 0" using Cons.prems(1) by auto
  have "str_at m (s + 1) xs" using Cons.prems(1) by simp
  then have m1: "str_at ?m1 (s + 1) xs"
    using Cons.prems(2) by (elim str_at_cong) (intro moved_outside, auto)
  show ?case
  proof (cases "n = 1")
    case True
    then show ?thesis using x by (simp add: strlcpy_loop.simps [of d s 1 m] Let_def moved_1)
  next
    case False
    then have "strlcpy_loop d s n m = strlcpy_loop (d + 1) (s + 1) (n - 1) ?m1"
      using x by (simp add: strlcpy_loop.simps [of d s n m] Let_def moved_1)
    also have "\<dots> = (if int (length xs) < n - 1
       then Some (d + 1 + length xs + 1, s + 1 + length xs + 1, n - 1 - int (length xs),
                  moved (d + 1) (s + 1) (length xs + 1) ?m1)
       else Some (d + 1 + nat (n - 1), s + 1 + nat (n - 1), 0, moved (d + 1) (s + 1) (nat (n - 1)) ?m1))"
      using False Cons.prems m1 by (intro Cons.IH) auto
    also have "moved (d + 1) (s + 1) (length xs + 1) ?m1 = moved d s (1 + (length xs + 1)) m"
      using Cons.prems(2) by (intro moved_split) auto
    finally show ?thesis
      using False Cons.prems(2,3) moved_split [of d s 1 "nat (n - 1)" m]
      by (auto simp: Suc_nat_eq_nat_zadd1 nat_diff_distrib)
  qed
qed

lemma strcpy_step:
  "strcpy d s m = (if moved d s 1 m (s + 1) \<noteq> 0 then strcpy (d + 1) (s + 1) (moved d s 1 m)
                   else Some (moved d s 1 m))"
  by (subst strcpy.simps) (simp only: Let_def moved_1)

lemma strcpy_str_at:
  assumes "str_at m s (x # xs)" and "s + length xs + 1 < d \<or> d + length xs < s"
  shows "strcpy d s m = Some (moved d s (length xs + 1) m)"
  using assms
proof (induction xs arbitrary: x d s m)
  case Nil
  have "moved d s 1 m (s + 1) = m (s + 1)"
    using Nil.prems by (intro moved_outside) auto
  then show ?case using Nil.prems(1) strcpy_step [of d s m] by simp
next
  case (Cons y ys)
  let ?m1 = "moved d s 1 m"
  have "str_at m (s + 1) (y # ys)" using Cons.prems(1) by simp
  then have m1: "str_at ?m1 (s + 1) (y # ys)"
    using Cons.prems(2) by (elim str_at_cong) (intro moved_outside, auto)
  then have "strcpy d s m = strcpy (d + 1) (s + 1) ?m1"
    using strcpy_step [of d s m] by simp
  also have "\<dots> = Some (moved (d + 1) (s + 1) (length ys + 1) ?m1)"
    using Cons.prems(2) by (intro Cons.IH [OF m1]) auto
  finally show ?case using moved_split [of d s 1 "length ys + 1" m] Cons.prems(2) by auto
qed

lemma strncmp_loop_str_at:
  "str_at m p xs \<Longrightarrow> str_at m q ys \<Longrightarrow>
   strncmp_loop m p q (Suc n) = (if take (Suc n) xs = take (Suc n) ys then Some 0 else None)"
proof (induction xs arbitrary: p q ys n)
  case Nil
  then show ?case by (cases ys) auto
next
  case (Cons x xs)
  show ?case
  proof (cases ys)
    case Nil
    then show ?thesis using Cons.prems by auto
  next
    case (Cons y zs)
    then show ?thesis using Cons.prems Cons.IH [of "p + 1" "q + 1" zs "n - 1"] by (cases n) auto
  qed
qed

lemma memcmp_loop_0: "memcmp_loop m p q n = 0 \<longleftrightarrow> (\<forall>i<n. m (p + i) = m (q + i))"
  by (induction n arbitrary: p q) (auto simp: less_Suc_eq_0_disj)

text \<open>
  C10.  \<^verbatim>\<open>memmove\<close> moves every byte whatever the overlap, alignment and direction: the target
  holds what the source held before the call and no other byte changes.
\<close>
theorem memmove_exact:
  assumes "0 \<le> n" "n < 2 ^ 31"
  shows "memmove d s n m a = (if d \<le> a \<and> a < d + nat n then m (s + (a - d)) else m a)"
  by (simp add: memmove_moved [OF assms] moved_def)

theorem memmove_exact_witness:
  "0 \<le> (6 :: int) \<and> (6 :: int) < 2 ^ 31 \<and> memmove 102 100 6 (\<lambda>a. of_nat (a - 100)) 107 = 5"
  using memmove_exact [of 6 102 100 "\<lambda>a. of_nat (a - 100)" 107] by simp

text \<open>
  C4.  The word-at-a-time \<^verbatim>\<open>strchrnul\<close> with its magic-bits test is the byte scan for the character
  or the terminator, on every memory, start address and alignment: same result where there is one,
  and no result exactly where the scan has none.
\<close>
theorem strchrnul_is_byte_scan:
  "strchrnul m c p = scan (\<lambda>a. m a = c \<or> m a = 0) p"
  by (rule strchrnul_scan)

lemma strtok_r_rest:
  assumes "str_at m s xs" and "s \<noteq> 0"
  shows "\<exists>save m'. (if m (s + length (takeWhile P xs)) = 0 then do { z \<leftarrow> lfind m s 0; Some (s, z, m) }
                   else Some (s, s + length (takeWhile P xs) + 1, m(s + length (takeWhile P xs) := 0)))
           = Some (s, save, m')
         \<and> str_at m' s (takeWhile P xs) \<and> str_at m' save (drop 1 (dropWhile P xs))
         \<and> (\<forall>a. a \<noteq> s + length (takeWhile P xs) \<longrightarrow> m' a = m a)"
proof (cases "dropWhile P xs")
  case Nil
  then have all: "takeWhile P xs = xs" by (metis append_Nil2 takeWhile_dropWhile_id)
  have "lfind m s 0 = Some (s + length xs)"
    using scan_str_at [OF assms(1), of "\<lambda>x. x \<noteq> 0"] str_at_nz [OF assms(1)] str_at_end [OF assms(1)]
    by (simp add: lfind_def strchr_def strchrnul_scan takeWhile_nz)
  then show ?thesis unfolding all Nil using assms(1) str_at_end [OF assms(1)] by simp
next
  case (Cons y ys)
  let ?t = "takeWhile P xs"
  have xs: "xs = ?t @ y # ys" using Cons by (metis takeWhile_dropWhile_id)
  then have y: "str_at m (s + length ?t) (y # ys)" using assms(1) by (metis str_at_append)
  then have "str_at m (s + length ?t + 1) ys" by simp
  then have "str_at (m(s + length ?t := 0)) (s + length ?t + 1) ys" by (elim str_at_cong) auto
  moreover have "str_at (m(s + length ?t := 0)) s ?t"
  proof (rule str_atI)
    fix i assume "i < length ?t"
    then show "(m(s + length ?t := 0)) (s + i) = ?t ! i"
      using str_at_nth [OF assms(1), of i] length_takeWhile_le [of P xs] by (simp add: takeWhile_nth)
  next
    show "0 \<notin> set ?t" using str_at_nz [OF assms(1)] by (metis set_takeWhileD)
  qed simp
  moreover have "m (s + length ?t) \<noteq> 0" using y by auto
  ultimately show ?thesis
    unfolding Cons by (intro exI [of _ "s + length ?t + 1"] exI [of _ "m(s + length ?t := 0)"]) simp
qed

text \<open>
  C23.  \<^verbatim>\<open>strtok_r\<close> on a string and a delimiter string: it returns NULL exactly when only delimiters
  are left, otherwise the token is the maximal delimiter-free block after the leading delimiters,
  it is terminated in place, and the save pointer holds the string after the one delimiter that was
  overwritten.
\<close>
theorem strtok_r_token:
  assumes "str_at m s xs" and "str_at m c ds" and "s \<noteq> 0"
  shows "let k = length (takeWhile (\<lambda>x. x \<in> set ds) xs);
             rest = dropWhile (\<lambda>x. x \<in> set ds) xs;
             tok = takeWhile (\<lambda>x. x \<notin> set ds) rest
         in if rest = [] then strtok_r s c save m = Some (0, s + k, m)
            else \<exists>save' m'. strtok_r s c save m = Some (s + k, save', m') \<and> str_at m' (s + k) tok
                   \<and> str_at m' save' (drop 1 (dropWhile (\<lambda>x. x \<notin> set ds) rest))
                   \<and> (\<forall>a. a \<noteq> s + k + length tok \<longrightarrow> m' a = m a)"
proof -
  define k rest where kr: "k = length (takeWhile (\<lambda>x. x \<in> set ds) xs)" "rest = dropWhile (\<lambda>x. x \<in> set ds) xs"
  let ?tok = "takeWhile (\<lambda>x. x \<notin> set ds) rest"
  have r: "str_at m (s + k) rest"
    using assms(1) unfolding kr by (metis str_at_append takeWhile_dropWhile_id)
  have span: "strspn m s c = Some k" using strspn_str_at [OF assms(1,2)] by (simp add: kr)
  have pbrk: "strpbrk m (s + k) c = Some (if m (s + k + length ?tok) \<noteq> 0 then s + k + length ?tok else 0)"
    by (simp add: strpbrk_def strcspn_str_at [OF r assms(2)])
  have run: "strtok_r s c save m = (if rest = [] then Some (0, s + k, m)
      else if m (s + k + length ?tok) = 0 then do { z \<leftarrow> lfind m (s + k) 0; Some (s + k, z, m) }
      else Some (s + k, s + k + length ?tok + 1, m(s + k + length ?tok := 0)))"
    using assms(3) str_at_two(1) [OF r] by (auto simp: strtok_r_def span pbrk Let_def)
  show ?thesis
    using strtok_r_rest [OF r, of "\<lambda>x. x \<notin> set ds"] assms(3) run by (auto simp: Let_def kr)
qed

definition strtok_demo :: mem where
  "strtok_demo = (\<lambda>a. 0)(100 := 47, 101 := 97, 102 := 47, 103 := 98, 200 := 47)"

theorem strtok_r_token_witness:
  "str_at strtok_demo 100 [47, 97, 47, 98] \<and> str_at strtok_demo 200 [47] \<and>
   (\<exists>save' m'. strtok_r 100 200 0 strtok_demo = Some (101, save', m') \<and> str_at m' 101 [97]
      \<and> str_at m' save' [98])"
  using strtok_r_token [of strtok_demo 100 "[47, 97, 47, 98]" 200 "[47]" 0]
  by (auto simp: Let_def strtok_demo_def)

lemma copied_str_at: "str_at m s xs \<Longrightarrow> str_at (moved d s (length xs + 1) m) d xs"
  by (rule str_atI) (use str_at_nth str_at_nz str_at_end in auto)

lemma strlcpy_cut:
  assumes "str_at m s xs" and "s + length xs < d \<or> d + length xs < s" and "k \<le> length xs"
  shows "scan (\<lambda>a. ((moved d s k m)(d + k := 0)) a = 0) (s + k) = Some (s + length xs)"
    and "str_at ((moved d s k m)(d + k := 0)) d (take k xs)"
proof -
  let ?m = "(moved d s k m)(d + k := 0)"
  have "str_at m (s + k) (drop k xs)"
    using assms(1,3) str_at_append [of m s "take k xs" "drop k xs"] by simp
  then have "str_at ?m (s + k) (drop k xs)"
    using assms(2,3) by (elim str_at_cong) (auto simp: moved_outside)
  then show "scan (\<lambda>a. ?m a = 0) (s + k) = Some (s + length xs)"
    using scan_str_at [of ?m "s + k" "drop k xs" "\<lambda>x. x \<noteq> 0"] str_at_nz assms(3)
    by (simp add: takeWhile_nz)
  show "str_at ?m d (take k xs)"
    using assms str_at_nz [OF assms(1)]
    by (intro str_atI) (auto simp: str_at_nth dest: in_set_takeD)
qed

text \<open>
  C24.  \<^verbatim>\<open>strlcpy\<close> with a positive size copies at most \<open>size - 1\<close> bytes, always terminates the
  target within the size, returns the length of the source and writes nowhere else.
\<close>
theorem strlcpy_bounded:
  assumes "str_at m s xs" and "s + length xs < d \<or> d + length xs < s" and "0 < siz"
  shows "\<exists>m'. strlcpy d s siz m = Some (int (length xs), m')
              \<and> str_at m' d (take (nat siz - 1) xs)
              \<and> (\<forall>a. a < d \<or> d + min (nat siz) (length xs + 1) \<le> a \<longrightarrow> m' a = m a)"
proof (cases "int (length xs) < siz - 1")
  case True
  then have "strlcpy d s siz m = Some (int (length xs), moved d s (length xs + 1) m)"
    using strlcpy_loop_str_at [OF assms(1,2), of "siz - 1"] by (simp add: strlcpy_def)
  moreover have "take (nat siz - 1) xs = xs" "min (nat siz) (length xs + 1) = length xs + 1"
    using True by auto
  ultimately show ?thesis
    using copied_str_at [OF assms(1), of d] by (auto simp: moved_outside)
next
  case False
  define k where "k = nat siz - 1"
  let ?m = "(moved d s k m)(d + k := 0)"
  have k: "k \<le> length xs" "nat siz = k + 1" "siz = int k + 1" using False assms(3) by (auto simp: k_def)
  note cut = strlcpy_cut [OF assms(1,2) k(1)]
  have "strlcpy d s siz m = Some (int (length xs), ?m)"
    using strlcpy_loop_str_at [OF assms(1,2), of "siz - 1"] cut(1) k by (cases "k = 0") (auto simp: strlcpy_def Let_def)
  then show ?thesis using cut(2) k by (auto simp: moved_outside)
qed

theorem strlcpy_bounded_witness:
  "str_at strtok_demo 100 [47, 97, 47, 98] \<and>
   (\<exists>m'. strlcpy 300 100 3 strtok_demo = Some (4, m') \<and> str_at m' 300 [47, 97])"
  using strlcpy_bounded [of strtok_demo 100 "[47, 97, 47, 98]" 300 3]
  by (auto simp: strtok_demo_def)

text \<open>
  C25.  \<^verbatim>\<open>strcpy\<close> on a non-empty string copies its bytes but not the terminator: the byte after the
  copy keeps whatever the target held.
\<close>
theorem strcpy_leaves_unterminated:
  assumes "str_at m s xs" and "xs \<noteq> []" and "s + length xs < d \<or> d + length xs \<le> s"
  shows "\<exists>m'. strcpy d s m = Some m' \<and> (\<forall>i<length xs. m' (d + i) = xs ! i)
              \<and> m' (d + length xs) = m (d + length xs)"
proof -
  obtain y ys where xs: "xs = y # ys" using assms(2) by (cases xs) auto
  then have "strcpy d s m = Some (moved d s (length xs) m)"
    using strcpy_str_at [of m s y ys d] assms by auto
  then show ?thesis using str_at_nth [OF assms(1)] by (simp add: moved_outside)
qed

theorem strcpy_leaves_unterminated_witness:
  "\<exists>m'. strcpy 300 101 (strtok_demo(102 := 0, 301 := 7)) = Some m' \<and> m' 300 = 97 \<and> m' 301 = 7"
  using strcpy_leaves_unterminated [of "strtok_demo(102 := 0, 301 := 7)" 101 "[97]" 300]
  by (auto simp: strtok_demo_def)

text \<open>
  \<^verbatim>\<open>strncmp\<close> returns only where the prefixes agree, and \<^verbatim>\<open>strchrnul_\<close> does not return once it reaches an
  aligned address: its zero test is constantly false because \<^verbatim>\<open>ONES\<close> is zero.
\<close>
lemma strncmp_str_at:
  assumes "str_at m p xs" "str_at m q ys" "0 < n" "p \<noteq> 0" "q \<noteq> 0"
  shows "strncmp m p q n = (if take (nat n) xs = take (nat n) ys then Some 0 else None)"
proof -
  obtain k where "nat n = Suc k" using assms(3) by (cases "nat n") auto
  then show ?thesis using strncmp_loop_str_at [OF assms(1,2), of k] assms by (auto simp: strncmp_def)
qed

lemma haszero_never: "\<not> haszero x"
  by (simp add: haszero_def highs_def ones_def signed_divide_int_def)

lemma strchrnul_skip_diverges: "strchrnul_skip m k w = None"
proof (rule ccontr)
  assume "strchrnul_skip m k w \<noteq> None"
  then obtain q where q: "strchrnul_skip m k w = Some q" by auto
  show False
    by (rule strchrnul_skip.raw_induct [where P = "\<lambda>_ _ _ _. False", OF _ q])
      (simp add: haszero_never)
qed

lemma strchrnul_old_diverges:
  "c \<noteq> 0 \<Longrightarrow> s mod 4 = 0 \<Longrightarrow> strchrnul_old m c s = None"
  by (simp add: strchrnul_old_def strchrnul_old_align.simps [of m c s] strchrnul_skip_diverges)

end
