(* ===== verification/Hashmap.thy ===== *)
theory Hashmap
  imports Interfaces Kutils
begin

text \<open>
  The chained hash map of \<^verbatim>\<open>kernel/src/hashmap.c\<close>.  A bucket is the chain of its entries, in order;
  the map carries its hash, comparison, duplication and key-release functions, as the struct does.
  A value is a pointer, the null pointer standing for absence in the results.  Operations that
  release memory also return the keys released.  The faults are the division by a zero size, a bucket
  outside the array and the null entry that \<^verbatim>\<open>hashmap_remove\<close> may dereference.  Tables have fewer
  than \<open>2 ^ 30\<close> buckets: from there on the byte size of the array wraps around.
\<close>

section \<open>Data\<close>

record 'k hashmap_t =
  hash_func :: "'k \<Rightarrow> u32"
  hash_comp :: "'k \<Rightarrow> 'k \<Rightarrow> bool"
  hash_key_dup :: "'k \<Rightarrow> 'k"
  hash_key_free :: "'k \<Rightarrow> 'k list"
  msize :: int
  entries :: "('k \<times> addr) list list"

section \<open>Key functions\<close>

fun sdbm :: "u8 list \<Rightarrow> u32 \<Rightarrow> u32" where
  "sdbm [] hash = hash"
| "sdbm (c # key) hash = sdbm key (scast c + push_bit 6 hash + push_bit 16 hash - hash)"

definition hashmap_string_hash :: "u8 list \<Rightarrow> u32" where
  "hashmap_string_hash key = sdbm key 0"

definition hashmap_string_comp :: "u8 list \<Rightarrow> u8 list \<Rightarrow> bool" where
  "hashmap_string_comp a b \<longleftrightarrow> str_cmp a b = 0"

definition hashmap_string_dupe :: "u8 list \<Rightarrow> u8 list" where
  "hashmap_string_dupe key = key"

definition hashmap_int_hash :: "u32 \<Rightarrow> u32" where
  "hashmap_int_hash key = key"

definition hashmap_int_comp :: "u32 \<Rightarrow> u32 \<Rightarrow> bool" where
  "hashmap_int_comp a b \<longleftrightarrow> a = b"

definition hashmap_int_dupe :: "u32 \<Rightarrow> u32" where
  "hashmap_int_dupe key = key"

definition hashmap_int_free :: "u32 \<Rightarrow> u32 list" where
  "hashmap_int_free ptr = []"

section \<open>Operations\<close>

definition hashmap_create :: "int \<Rightarrow> u8 list hashmap_t" where
  "hashmap_create sz =
     \<lparr> hash_func = hashmap_string_hash, hash_comp = hashmap_string_comp,
       hash_key_dup = hashmap_string_dupe, hash_key_free = (\<lambda>key. [key]),
       msize = sz, entries = replicate (nat sz) [] \<rparr>"

definition hashmap_create_int :: "int \<Rightarrow> u32 hashmap_t" where
  "hashmap_create_int sz =
     \<lparr> hash_func = hashmap_int_hash, hash_comp = hashmap_int_comp,
       hash_key_dup = hashmap_int_dupe, hash_key_free = hashmap_int_free,
       msize = sz, entries = replicate (nat sz) [] \<rparr>"

definition hashmap_slot :: "'k hashmap_t \<Rightarrow> 'k \<Rightarrow> nat option" where
  "hashmap_slot hm key =
     (let sz = (word_of_int (msize hm) :: u32)
      in if sz = 0 then None else Some (unat (hash_func hm key mod sz)))"

fun chain_set :: "('k \<Rightarrow> 'k \<Rightarrow> bool) \<Rightarrow> ('k \<Rightarrow> 'k) \<Rightarrow> 'k \<Rightarrow> addr \<Rightarrow> ('k \<times> addr) list \<Rightarrow>
    addr \<times> ('k \<times> addr) list" where
  "chain_set cmp dup key v [] = (0, [(dup key, v)])"
| "chain_set cmp dup key v ((k, w) # es) =
     (if cmp k key then (w, (k, v) # es)
      else let (out, es) = chain_set cmp dup key v es in (out, (k, w) # es))"

fun chain_get :: "('k \<Rightarrow> 'k \<Rightarrow> bool) \<Rightarrow> 'k \<Rightarrow> ('k \<times> addr) list \<Rightarrow> addr" where
  "chain_get cmp key [] = 0"
| "chain_get cmp key ((k, w) # es) = (if cmp k key then w else chain_get cmp key es)"

fun chain_has :: "('k \<Rightarrow> 'k \<Rightarrow> bool) \<Rightarrow> 'k \<Rightarrow> ('k \<times> addr) list \<Rightarrow> bool" where
  "chain_has cmp key [] = False"
| "chain_has cmp key ((k, w) # es) = (if cmp k key then True else chain_has cmp key es)"

text \<open>The loop behind the first entry: its body runs before the chain is tested for its end.\<close>
fun chain_remove :: "('k \<Rightarrow> 'k \<Rightarrow> bool) \<Rightarrow> 'k \<Rightarrow> ('k \<times> addr) list \<Rightarrow>
    (addr \<times> 'k list \<times> ('k \<times> addr) list) option" where
  "chain_remove cmp key [] = None"
| "chain_remove cmp key ((k, w) # es) =
     (if cmp k key then Some (w, [k], es)
      else if es = [] then Some (0, [], [(k, w)])
      else do { (out, gone, es) \<leftarrow> chain_remove cmp key es; Some (out, gone, (k, w) # es) })"

definition hashmap_set :: "'k hashmap_t \<Rightarrow> 'k \<Rightarrow> addr \<Rightarrow> (addr \<times> 'k hashmap_t) option" where
  "hashmap_set hm key v = do {
     hash \<leftarrow> hashmap_slot hm key;
     x \<leftarrow> nth_opt (entries hm) hash;
     let (out, x) = chain_set (hash_comp hm) (hash_key_dup hm) key v x;
     Some (out, hm\<lparr>entries := (entries hm)[hash := x]\<rparr>) }"

definition hashmap_get :: "'k hashmap_t \<Rightarrow> 'k \<Rightarrow> addr option" where
  "hashmap_get hm key = do {
     hash \<leftarrow> hashmap_slot hm key;
     x \<leftarrow> nth_opt (entries hm) hash;
     Some (chain_get (hash_comp hm) key x) }"

definition hashmap_remove :: "'k hashmap_t \<Rightarrow> 'k \<Rightarrow> (addr \<times> 'k list \<times> 'k hashmap_t) option" where
  "hashmap_remove hm key = do {
     hash \<leftarrow> hashmap_slot hm key;
     x \<leftarrow> nth_opt (entries hm) hash;
     case x of
       [] \<Rightarrow> Some (0, [], hm)
     | (k, w) # es \<Rightarrow>
         if hash_comp hm k key
         then Some (w, hash_key_free hm k, hm\<lparr>entries := (entries hm)[hash := es]\<rparr>)
         else do {
           (out, gone, es) \<leftarrow> chain_remove (hash_comp hm) key es;
           Some (out, concat (map (hash_key_free hm) gone),
                 hm\<lparr>entries := (entries hm)[hash := (k, w) # es]\<rparr>) } }"

definition hashmap_has :: "'k hashmap_t \<Rightarrow> 'k \<Rightarrow> bool option" where
  "hashmap_has hm key = do {
     hash \<leftarrow> hashmap_slot hm key;
     x \<leftarrow> nth_opt (entries hm) hash;
     Some (chain_has (hash_comp hm) key x) }"

definition hashmap_keys :: "'k hashmap_t \<Rightarrow> 'k list" where
  "hashmap_keys hm = map fst (concat (entries hm))"

definition hashmap_values :: "'k hashmap_t \<Rightarrow> addr list" where
  "hashmap_values hm = map snd (concat (entries hm))"

definition hashmap_free :: "'k hashmap_t \<Rightarrow> 'k list" where
  "hashmap_free hm = concat (map (\<lambda>(k, w). hash_key_free hm k) (concat (entries hm)))"

section \<open>The map a hash map represents\<close>

definition hm_slot :: "'k hashmap_t \<Rightarrow> 'k \<Rightarrow> nat" where
  "hm_slot hm key = unat (hash_func hm key mod word_of_int (msize hm))"

definition hm_inv :: "('k \<Rightarrow> bool) \<Rightarrow> 'k hashmap_t \<Rightarrow> bool" where
  "hm_inv ok hm \<longleftrightarrow>
     0 < msize hm \<and> msize hm < 2 ^ 31 \<and> length (entries hm) = nat (msize hm)
     \<and> (\<forall>a b. ok a \<longrightarrow> ok b \<longrightarrow> (hash_comp hm a b \<longleftrightarrow> a = b)) \<and> (\<forall>a. hash_key_dup hm a = a)
     \<and> (\<forall>i < length (entries hm). distinct (map fst (entries hm ! i))
          \<and> (\<forall>k \<in> fst ` set (entries hm ! i). ok k \<and> hm_slot hm k = i))"

definition hm_map :: "'k hashmap_t \<Rightarrow> 'k \<Rightarrow> addr option" where
  "hm_map hm key = map_of (entries hm ! hm_slot hm key) key"

lemma hm_slot_less:
  assumes "hm_inv ok hm"
  shows "hm_slot hm key < length (entries hm)" "hashmap_slot hm key = Some (hm_slot hm key)"
proof -
  have sz: "0 < msize hm" "msize hm < 2 ^ 31" "length (entries hm) = nat (msize hm)"
    using assms by (auto simp: hm_inv_def)
  then have u: "unat (word_of_int (msize hm) :: u32) = nat (msize hm)"
    by (simp add: unsigned_of_int take_bit_int_eq_self)
  then have nz: "(word_of_int (msize hm) :: u32) \<noteq> 0" using sz by (metis unat_eq_zero zero_less_nat_eq less_irrefl)
  show "hashmap_slot hm key = Some (hm_slot hm key)"
    using nz by (simp add: hashmap_slot_def hm_slot_def Let_def)
  show "hm_slot hm key < length (entries hm)"
    unfolding hm_slot_def using nz u sz by (simp add: unat_mod_distrib)
qed

lemma chain_get_map_of:
  "\<forall>k \<in> fst ` set es. cmp k key \<longleftrightarrow> k = key \<Longrightarrow>
   chain_get cmp key es = or_null (map_of es key) \<and> chain_has cmp key es = (map_of es key \<noteq> None)"
  by (induction cmp key es rule: chain_get.induct) auto

lemma chain_set_map_of:
  assumes "\<forall>k \<in> fst ` set es. cmp k key \<longleftrightarrow> k = key" and "dup key = key"
    and "chain_set cmp dup key v es = (out, es')"
  shows "out = or_null (map_of es key)" "map_of es' = (map_of es)(key \<mapsto> v)"
    "fst ` set es' = insert key (fst ` set es)"
    "distinct (map fst es) \<Longrightarrow> distinct (map fst es')"
proof -
  have "out = or_null (map_of es key) \<and> map_of es' = (map_of es)(key \<mapsto> v) \<and>
     fst ` set es' = insert key (fst ` set es) \<and>
     (distinct (map fst es) \<longrightarrow> distinct (map fst es'))"
    using assms
  proof (induction cmp dup key v es arbitrary: out es' rule: chain_set.induct)
    case (2 cmp dup key v k w es)
    show ?case
    proof (cases "k = key")
      case True
      then show ?thesis using 2 by auto
    next
      case False
      then obtain es2 where "chain_set cmp dup key v es = (out, es2)" "es' = (k, w) # es2"
        using "2.prems" by (auto split: prod.splits)
      then show ?thesis using 2 False by (auto simp: fun_upd_twist)
    qed
  qed auto
  then show "out = or_null (map_of es key)" "map_of es' = (map_of es)(key \<mapsto> v)"
    "fst ` set es' = insert key (fst ` set es)"
    "distinct (map fst es) \<Longrightarrow> distinct (map fst es')" by auto
qed


lemma hm_slot_entries [simp]: "hm_slot (hm\<lparr>entries := es\<rparr>) = hm_slot hm"
  by (simp add: hm_slot_def fun_eq_iff)

lemma hm_bucket_upd:
  assumes "hm_inv ok hm" and "i < length (entries hm)" and "distinct (map fst es)"
    and "\<forall>k \<in> fst ` set es. ok k \<and> hm_slot hm k = i"
  shows "hm_inv ok (hm\<lparr>entries := (entries hm)[i := es]\<rparr>)"
    "hm_map (hm\<lparr>entries := (entries hm)[i := es]\<rparr>) k = (if hm_slot hm k = i then map_of es k else hm_map hm k)"
  using assms by (auto simp: hm_inv_def hm_map_def nth_list_update)

lemma hm_bucket:
  assumes "hm_inv ok hm"
  shows "distinct (map fst (entries hm ! hm_slot hm key))"
    "\<forall>k \<in> fst ` set (entries hm ! hm_slot hm key). ok k \<and> hm_slot hm k = hm_slot hm key"
    "ok key \<Longrightarrow> \<forall>k \<in> fst ` set (entries hm ! hm_slot hm key). hash_comp hm k key \<longleftrightarrow> k = key"
    "hash_key_dup hm key = key"
  using assms hm_slot_less(1) [OF assms, of key] by (auto simp: hm_inv_def)

lemma hashmap_get_rep:
  assumes "hm_inv ok hm" and "ok key"
  shows "hashmap_get hm key = Some (or_null (hm_map hm key))"
    "hashmap_has hm key = Some (hm_map hm key \<noteq> None)"
  using chain_get_map_of [of "entries hm ! hm_slot hm key" "hash_comp hm" key] hm_bucket(3) [OF assms] hm_slot_less [OF assms(1), of key]
  by (simp_all add: hashmap_get_def hashmap_has_def hm_map_def)

lemma hashmap_set_rep:
  assumes "hm_inv ok hm" and "ok key"
  shows "\<exists>hm'. hashmap_set hm key v = Some (or_null (hm_map hm key), hm') \<and> hm_inv ok hm'
               \<and> hm_map hm' = (hm_map hm)(key \<mapsto> v)"
proof -
  let ?i = "hm_slot hm key"
  let ?es = "entries hm ! ?i"
  obtain out es where run: "chain_set (hash_comp hm) (hash_key_dup hm) key v ?es = (out, es)"
    by (metis surj_pair)
  note set = chain_set_map_of [of ?es "hash_comp hm" key "hash_key_dup hm",
      OF hm_bucket(3) [OF assms] hm_bucket(4) [OF assms(1)] run]
  let ?hm = "hm\<lparr>entries := (entries hm)[?i := es]\<rparr>"
  have ok: "\<forall>k \<in> fst ` set es. ok k \<and> hm_slot hm k = ?i"
    unfolding set(3) using hm_bucket(2) [OF assms(1), of key] assms(2) by blast
  have dis: "distinct (map fst es)" using set(4) hm_bucket(1) [OF assms(1)] by blast
  note upd = hm_bucket_upd [OF assms(1) hm_slot_less(1) [OF assms(1)] dis ok]
  have "hm_map ?hm k = ((hm_map hm)(key \<mapsto> v)) k" for k
    by (cases "k = key"; cases "hm_slot hm k = ?i") (simp_all add: upd(2) set(2) hm_map_def [of hm])
  then have "hm_map ?hm = (hm_map hm)(key \<mapsto> v)" by blast
  moreover have "hashmap_set hm key v = Some (or_null (hm_map hm key), ?hm)"
    using run set(1) hm_slot_less [OF assms(1), of key] by (simp add: hashmap_set_def hm_map_def)
  ultimately show ?thesis using upd(1) by blast
qed

lemma chain_remove_map_of:
  assumes "\<forall>k \<in> fst ` set es. cmp k key \<longleftrightarrow> k = key" and "es \<noteq> []" and "distinct (map fst es)"
  shows "\<exists>es'. chain_remove cmp key es =
           Some (or_null (map_of es key), (if map_of es key = None then [] else [key]), es')
         \<and> map_of es' = (map_of es)(key := None) \<and> fst ` set es' \<subseteq> fst ` set es \<and> distinct (map fst es')"
  using assms
proof (induction cmp key es rule: chain_remove.induct)
  case (2 cmp key k w es)
  have fresh: "map_of es k = None" using "2.prems"(3) by (simp add: map_of_eq_None_iff)
  show ?case
  proof (cases "k = key \<or> es = []")
    case True
    then show ?thesis using "2.prems" fresh by (auto simp: fun_eq_iff)
  next
    case False
    then have k: "\<not> cmp k key" "es \<noteq> []" "k \<noteq> key" using "2.prems" by auto
    have "\<forall>k \<in> fst ` set es. cmp k key \<longleftrightarrow> k = key" "distinct (map fst es)" using "2.prems" by auto
    from "2.IH" [OF k(1,2) this(1) k(2) this(2)]
    obtain es' where es': "chain_remove cmp key es =
        Some (or_null (map_of es key), (if map_of es key = None then [] else [key]), es')"
      "map_of es' = (map_of es)(key := None)" "fst ` set es' \<subseteq> fst ` set es" "distinct (map fst es')"
      by blast
    have "map_of ((k, w) # es') = (map_of ((k, w) # es))(key := None)"
      using es'(2) k(3) by (simp add: fun_upd_twist)
    moreover have "distinct (map fst ((k, w) # es'))" using es'(3,4) "2.prems"(3) by auto
    ultimately show ?thesis using es'(1,3) k by (intro exI [of _ "(k, w) # es'"]) auto
  qed
qed simp

text \<open>The bucket of \<open>key\<close> on which \<^verbatim>\<open>hashmap_remove\<close> dereferences a null entry.\<close>
definition lone_other :: "'k hashmap_t \<Rightarrow> 'k \<Rightarrow> bool" where
  "lone_other hm key \<longleftrightarrow> (\<exists>k w. entries hm ! hm_slot hm key = [(k, w)] \<and> k \<noteq> key)"

lemma hashmap_remove_rep:
  assumes "hm_inv ok hm" and "ok key"
  shows "lone_other hm key \<Longrightarrow> hashmap_remove hm key = None"
    and "\<not> lone_other hm key \<Longrightarrow>
      \<exists>hm'. hashmap_remove hm key =
          Some (or_null (hm_map hm key), (if hm_map hm key = None then [] else hash_key_free hm key), hm')
        \<and> hm_inv ok hm' \<and> hm_map hm' = (hm_map hm)(key := None)"
proof -
  let ?i = "hm_slot hm key"
  let ?es = "entries hm ! ?i"
  note slot = hm_slot_less [OF assms(1), of key]
  note bucket = hm_bucket [OF assms(1), of key] 
  note cmp = bucket(3) [OF assms(2)]
  show "hashmap_remove hm key = None" if "lone_other hm key"
    using that cmp slot by (auto simp: hashmap_remove_def lone_other_def)
  assume no: "\<not> lone_other hm key"
  have done': "\<exists>hm'. hashmap_remove hm key = Some (or_null (hm_map hm key), gone, hm')
        \<and> hm_inv ok hm' \<and> hm_map hm' = (hm_map hm)(key := None)"
    if run: "hashmap_remove hm key = Some (or_null (hm_map hm key), gone, hm\<lparr>entries := (entries hm)[?i := es]\<rparr>)"
      and es: "map_of es = (map_of ?es)(key := None)" "fst ` set es \<subseteq> fst ` set ?es" "distinct (map fst es)"
    for es gone
  proof -
    have "\<forall>k \<in> fst ` set es. ok k \<and> hm_slot hm k = ?i" using es(2) bucket(2) by blast
    note upd = hm_bucket_upd [OF assms(1) slot(1) es(3) this]
    have "hm_map (hm\<lparr>entries := (entries hm)[?i := es]\<rparr>) = (hm_map hm)(key := None)"
      using es(1) upd(2) by (auto simp: hm_map_def fun_eq_iff)
    then show ?thesis using run upd(1) by blast
  qed
  show "\<exists>hm'. hashmap_remove hm key =
          Some (or_null (hm_map hm key), (if hm_map hm key = None then [] else hash_key_free hm key), hm')
        \<and> hm_inv ok hm' \<and> hm_map hm' = (hm_map hm)(key := None)"
  proof (cases ?es)
    case Nil
    then have "hm\<lparr>entries := (entries hm)[?i := []]\<rparr> = hm" by (metis list_update_id hashmap_t.surjective hashmap_t.update_convs(6) old.unit.exhaust)
    then show ?thesis using Nil slot by (intro done' [of _ "[]"]) (auto simp: hashmap_remove_def hm_map_def)
  next
    case (Cons e es)
    obtain k w where e: "e = (k, w)" by (cases e)
    show ?thesis
    proof (cases "k = key")
      case True
      then have "map_of es key = None" using bucket(1) Cons e by (simp add: map_of_eq_None_iff)
      then have "map_of es = (map_of ?es)(key := None)" using True Cons e by (auto simp: fun_eq_iff)
      moreover have "hash_comp hm k key" using cmp Cons e True by simp
      ultimately show ?thesis
        using True Cons e slot bucket(1)
        by (intro done' [of _ es]) (simp_all add: hashmap_remove_def hm_map_def, auto)
    next
      case False
      then have "es \<noteq> []" using no Cons e by (auto simp: lone_other_def)
      moreover have "\<forall>k \<in> fst ` set es. hash_comp hm k key \<longleftrightarrow> k = key" "distinct (map fst es)"
        using cmp bucket(1) Cons by auto
      ultimately obtain es' where es': "chain_remove (hash_comp hm) key es =
          Some (or_null (map_of es key), (if map_of es key = None then [] else [key]), es')"
        "map_of es' = (map_of es)(key := None)" "fst ` set es' \<subseteq> fst ` set es" "distinct (map fst es')"
        using chain_remove_map_of [of es "hash_comp hm" key] by blast
      show ?thesis
      proof (rule done' [of _ "(k, w) # es'"])
        show "map_of ((k, w) # es') = (map_of ?es)(key := None)"
          using es'(2) False Cons e by (simp add: fun_upd_twist)
        show "hashmap_remove hm key =
            Some (or_null (hm_map hm key), (if hm_map hm key = None then [] else hash_key_free hm key),
                  hm\<lparr>entries := (entries hm)[?i := (k, w) # es']\<rparr>)"
          using False Cons e slot cmp es'(1) by (simp add: hashmap_remove_def hm_map_def)
      qed (use es'(3,4) bucket(1) Cons e in auto)
    qed
  qed
qed


lemma hashmap_create_rep:
  assumes "0 < sz" "sz < 2 ^ 31"
  shows "hm_inv (\<lambda>k. 0 \<notin> set k) (hashmap_create sz)" "hm_map (hashmap_create sz) = Map.empty"
    "hm_inv (\<lambda>_. True) (hashmap_create_int sz)" "hm_map (hashmap_create_int sz) = Map.empty"
proof -
  show s: "hm_inv (\<lambda>k. 0 \<notin> set k) (hashmap_create sz)"
    using assms by (simp add: hm_inv_def hashmap_create_def hashmap_string_comp_def str_cmp_0
        hashmap_string_dupe_def)
  show i: "hm_inv (\<lambda>_. True) (hashmap_create_int sz)"
    using assms by (simp add: hm_inv_def hashmap_create_int_def hashmap_int_comp_def hashmap_int_dupe_def)
  show "hm_map (hashmap_create sz) = Map.empty"
    using hm_slot_less(1) [OF s] by (auto simp: hm_map_def hashmap_create_def fun_eq_iff)
  show "hm_map (hashmap_create_int sz) = Map.empty"
    using hm_slot_less(1) [OF i] by (auto simp: hm_map_def hashmap_create_int_def fun_eq_iff)
qed

definition hm_rep :: "('k \<Rightarrow> bool) \<Rightarrow> 'k hashmap_t \<Rightarrow> ('k \<Rightarrow> addr option) \<Rightarrow> bool" where
  "hm_rep ok hm f \<longleftrightarrow> hm_inv ok hm \<and> hm_map hm = f"

lemma hm_rep_laws:
  assumes "hm_rep ok hm f" and "ok key"
  shows "hashmap_get hm key = Some (or_null (f key))" "hashmap_has hm key = Some (f key \<noteq> None)"
    "\<exists>hm'. hashmap_set hm key v = Some (or_null (f key), hm') \<and> hm_rep ok hm' (f(key \<mapsto> v))"
proof -
  have inv: "hm_inv ok hm" and f: "f = hm_map hm" using assms(1) by (auto simp: hm_rep_def)
  show "hashmap_get hm key = Some (or_null (f key))" "hashmap_has hm key = Some (f key \<noteq> None)"
    unfolding f using hashmap_get_rep [OF inv assms(2)] by blast+
  show "\<exists>hm'. hashmap_set hm key v = Some (or_null (f key), hm') \<and> hm_rep ok hm' (f(key \<mapsto> v))"
    unfolding f hm_rep_def by (rule hashmap_set_rep [OF inv assms(2)])
qed

interpretation sm: value_map "hm_rep (\<lambda>k. 0 \<notin> set k)" "\<lambda>k. 0 \<notin> set k"
  hashmap_get hashmap_has hashmap_set
  by (rule value_map.intro) (rule hm_rep_laws; assumption)+

interpretation im: value_map "hm_rep (\<lambda>_. True)" "\<lambda>_. True" hashmap_get hashmap_has hashmap_set
  by (rule value_map.intro) (rule hm_rep_laws; assumption)+

lemma hm_map_bucket:
  assumes "hm_inv ok hm" and "i < length (entries hm)" and "k \<in> fst ` set (entries hm ! i)"
  shows "hm_slot hm k = i" "ok k"
  using assms by (auto simp: hm_inv_def)

lemma distinct_concat_buckets:
  "(\<forall>i<length xss. distinct (xss ! i)) \<Longrightarrow>
   (\<forall>i<length xss. \<forall>j<length xss. i \<noteq> j \<longrightarrow> set (xss ! i) \<inter> set (xss ! j) = {}) \<Longrightarrow> distinct (concat xss)"
proof (induction xss)
  case (Cons xs xss)
  have "set xs \<inter> set (xss ! j) = {}" if "j < length xss" for j
    using Cons.prems(2) [rule_format, of 0 "Suc j"] that by simp
  then have "set xs \<inter> set (concat xss) = {}" by (fastforce simp: in_set_conv_nth)
  moreover have "distinct (concat xss)"
    using Cons.prems by (intro Cons.IH) (metis Suc_less_eq length_Cons nth_Cons_Suc, metis Suc_inject Suc_less_eq length_Cons nth_Cons_Suc)
  moreover have "distinct xs" using Cons.prems(1) [rule_format, of 0] by simp
  ultimately show ?case by simp
qed simp

lemma set_hashmap_keys:
  "set (hashmap_keys hm) = (\<Union>i<length (entries hm). fst ` set (entries hm ! i))"
  by (force simp: hashmap_keys_def in_set_conv_nth [of _ "entries hm"])

lemma hashmap_keys_rep:
  assumes "hm_inv ok hm"
  shows "distinct (hashmap_keys hm)" and "set (hashmap_keys hm) = dom (hm_map hm)"
proof -
  have keys: "hashmap_keys hm = concat (map (map fst) (entries hm))"
    by (simp add: hashmap_keys_def map_concat)
  show "distinct (hashmap_keys hm)"
    unfolding keys
  proof (rule distinct_concat_buckets)
    show "\<forall>i<length (map (map fst) (entries hm)). distinct (map (map fst) (entries hm) ! i)"
      using assms by (simp add: hm_inv_def)
    have "fst ` set (entries hm ! i) \<inter> fst ` set (entries hm ! j) = {}"
      if "i < length (entries hm)" "j < length (entries hm)" "i \<noteq> j" for i j
      using hm_map_bucket(1) [OF assms that(1)] hm_map_bucket(1) [OF assms that(2)] that(3) by blast
    then show "\<forall>i<length (map (map fst) (entries hm)). \<forall>j<length (map (map fst) (entries hm)).
        i \<noteq> j \<longrightarrow> set (map (map fst) (entries hm) ! i) \<inter> set (map (map fst) (entries hm) ! j) = {}"
      by simp
  qed
  have dom: "k \<in> dom (hm_map hm) \<longleftrightarrow> k \<in> fst ` set (entries hm ! hm_slot hm k)" for k
    by (simp add: hm_map_def domIff map_of_eq_None_iff)
  show "set (hashmap_keys hm) = dom (hm_map hm)"
  proof (intro set_eqI iffI)
    fix k assume "k \<in> set (hashmap_keys hm)"
    then obtain i where i: "i < length (entries hm)" "k \<in> fst ` set (entries hm ! i)"
      unfolding set_hashmap_keys by blast
    then show "k \<in> dom (hm_map hm)" unfolding dom using hm_map_bucket(1) [OF assms i] by simp
  next
    fix k assume "k \<in> dom (hm_map hm)"
    then show "k \<in> set (hashmap_keys hm)"
      unfolding dom set_hashmap_keys using hm_slot_less(1) [OF assms, of k] by blast
  qed
qed

text \<open>
  C6.  A hash map with the invariant is a finite map: \<^verbatim>\<open>hashmap_get\<close> and \<^verbatim>\<open>hashmap_has\<close> read it,
  \<^verbatim>\<open>hashmap_set\<close> returns the replaced value, keeps the invariant and updates the map at the key
  only, and \<^verbatim>\<open>hashmap_keys\<close> lists every key once.
\<close>
theorem hashmap_refines_map:
  assumes "hm_inv ok hm" and "ok key"
  shows "hashmap_get hm key = Some (or_null (hm_map hm key))
       \<and> hashmap_has hm key = Some (hm_map hm key \<noteq> None)
       \<and> (\<exists>hm'. hashmap_set hm key v = Some (or_null (hm_map hm key), hm') \<and> hm_inv ok hm'
            \<and> hm_map hm' = (hm_map hm)(key \<mapsto> v))
       \<and> distinct (hashmap_keys hm) \<and> set (hashmap_keys hm) = dom (hm_map hm)"
  using hashmap_get_rep [OF assms] hashmap_set_rep [OF assms] hashmap_keys_rep [OF assms(1)] by blast

theorem hashmap_refines_map_witness:
  "hashmap_get (hashmap_create 10) [97] = Some 0
   \<and> (\<exists>hm'. hashmap_set (hashmap_create 10) [97] 5 = Some (0, hm') \<and> hm_map hm' [97] = Some 5)"
  using hashmap_refines_map [of "\<lambda>k. 0 \<notin> set k" "hashmap_create 10" "[97]" 5]
    hashmap_create_rep(1,2) [of 10] by auto

text \<open>
  C26.  A sequence of \<^verbatim>\<open>hashmap_set\<close> calls on a fresh map with string keys succeeds, and the last
  value stored under a key is the one \<^verbatim>\<open>hashmap_get\<close> returns.
\<close>
theorem hashmap_last_set_wins:
  assumes "0 < sz" "sz < 2 ^ 31" and "\<forall>k' \<in> fst ` set kvs. 0 \<notin> set k'" and "0 \<notin> set k"
    and "map_of (rev kvs) k = Some v"
  shows "\<exists>hm. foldl (\<lambda>m (k, v). do { hm \<leftarrow> m; (old, hm) \<leftarrow> hashmap_set hm k v; Some hm })
                (Some (hashmap_create sz)) kvs = Some hm \<and> hashmap_get hm k = Some v"
proof -
  have fold: "foldl (\<lambda>m (k, v). do { hm \<leftarrow> m; (old, hm) \<leftarrow> hashmap_set hm k v; Some hm }) (Some hm) kvs
      = sm.put_all kvs hm" for hm :: "u8 list hashmap_t"
  proof (induction kvs arbitrary: hm)
    case (Cons kv kvs)
    have none: "foldl (\<lambda>m (k, v). do { hm \<leftarrow> m; (old, hm) \<leftarrow> hashmap_set hm k v; Some hm }) None kvs = None"
      for kvs :: "(u8 list \<times> addr) list"
      by (induction kvs) auto
    show ?case using Cons none by (cases kv) (auto split: option.splits bind_splits)
  qed simp
  have "hm_rep (\<lambda>k. 0 \<notin> set k) (hashmap_create sz) Map.empty"
    using hashmap_create_rep(1,2) [OF assms(1,2)] by (simp add: hm_rep_def)
  from sm.last_put_wins [OF this assms(3,4,5)] show ?thesis by (auto simp: fold)
qed

theorem hashmap_last_set_wins_witness:
  "\<exists>hm. foldl (\<lambda>m (k, v). do { hm \<leftarrow> m; (old, hm) \<leftarrow> hashmap_set hm k v; Some hm })
          (Some (hashmap_create 10)) [([97], 5), ([98], 6), ([97], 7)] = Some hm \<and> hashmap_get hm [97] = Some 7"
  using hashmap_last_set_wins [of 10 "[([97], 5), ([98], 6), ([97], 7)]" "[97]" 7] by simp

text \<open>
  C27.  \<^verbatim>\<open>hashmap_remove\<close> returns the value of the key and removes it, or returns NULL when the key
  is absent, keeping the invariant, except when the bucket of the key holds a single entry with
  another key: then it dereferences the null entry behind it.
\<close>
theorem hashmap_remove_cases:
  assumes "hm_inv ok hm" and "ok key"
  shows "case hashmap_remove hm key of
           None \<Rightarrow> lone_other hm key
         | Some (out, gone, hm') \<Rightarrow> \<not> lone_other hm key \<and> out = or_null (hm_map hm key)
             \<and> gone = (if hm_map hm key = None then [] else hash_key_free hm key)
             \<and> hm_inv ok hm' \<and> hm_map hm' = (hm_map hm)(key := None)"
proof (cases "lone_other hm key")
  case True
  then show ?thesis by (simp add: hashmap_remove_rep(1) [OF assms])
next
  case False
  then obtain hm' where "hashmap_remove hm key =
      Some (or_null (hm_map hm key), (if hm_map hm key = None then [] else hash_key_free hm key), hm')"
    "hm_inv ok hm'" "hm_map hm' = (hm_map hm)(key := None)"
    using hashmap_remove_rep(2) [OF assms] by blast
  then show ?thesis using False by (simp only: option.case prod.case simp_thms)
qed

theorem hashmap_remove_cases_witness:
  "hashmap_remove (hashmap_create 1\<lparr>entries := [[([98], 6)]]\<rparr>) [97] = None"
proof -
  let ?hm = "hashmap_create 1\<lparr>entries := [[([98], 6)]]\<rparr>"
  have "hm_inv (\<lambda>k. 0 \<notin> set k) ?hm"
    by (simp add: hm_inv_def hashmap_create_def hashmap_string_comp_def str_cmp_0 hashmap_string_dupe_def
        hm_slot_def)
  moreover have "lone_other ?hm [97]"
    by (simp add: lone_other_def hm_slot_def hashmap_create_def)
  ultimately show ?thesis
    using hashmap_remove_cases [of "\<lambda>k. 0 \<notin> set k" ?hm "[97]"] by (cases "hashmap_remove ?hm [97]") auto
qed

end
