(* ===== verification/CTree.thy ===== *)
theory CTree
  imports Prelude "HOL-Library.Multiset"
begin

text \<open>
  The trees of \<^verbatim>\<open>kernel/src/tree.c\<close>: a heap of tree nodes, each with a value, the sequence of its
  children and its parent.  The children list of a node appears by its sequence of values; the
  list operations the code calls on it (\<^verbatim>\<open>list_insert\<close>, \<^verbatim>\<open>list_find\<close> with \<^verbatim>\<open>list_delete\<close>,
  \<^verbatim>\<open>list_merge\<close>) act on that sequence as theory \<open>CList\<close> shows.  Deleting a node that is not in the
  list dereferences a null list node.  Every node has a children list, so that the test of
  \<^verbatim>\<open>tree_count_children\<close> for a null list is not needed.  The recursive walks follow pointers, so they are partial
  functions over the sequence of nodes still to visit.
\<close>

section \<open>Data\<close>

record tree_node_t =
  tvalue :: addr
  tchildren :: "addr list"
  tparent :: addr

record tree_t =
  tnodes :: int
  troot :: addr

record theap =
  tmem :: "addr \<Rightarrow> tree_node_t option"
  tfreed :: "addr list"

definition tnode :: "theap \<Rightarrow> addr \<Rightarrow> tree_node_t option" where
  "tnode h n = (if n = 0 then None else tmem h n)"

definition tput :: "addr \<Rightarrow> tree_node_t \<Rightarrow> theap \<Rightarrow> theap" where
  "tput n nd h = h\<lparr>tmem := (tmem h)(n := Some nd)\<rparr>"

definition tfree :: "addr \<Rightarrow> theap \<Rightarrow> theap" where
  "tfree a h = h\<lparr>tmem := (tmem h)(a := None), tfreed := tfreed h @ [a]\<rparr>"

section \<open>Construction\<close>

definition tree_create :: tree_t where
  "tree_create = \<lparr>tnodes = 0, troot = 0\<rparr>"

text \<open>The address \<open>a\<close> is the one the allocator returns for the node.\<close>
definition tree_node_create :: "addr \<Rightarrow> addr \<Rightarrow> theap \<Rightarrow> theap" where
  "tree_node_create a v h = tput a \<lparr>tvalue = v, tchildren = [], tparent = 0\<rparr> h"

definition tree_set_root :: "addr \<Rightarrow> addr \<Rightarrow> tree_t \<Rightarrow> theap \<Rightarrow> tree_t \<times> theap" where
  "tree_set_root a v tree h = (tree\<lparr>troot := a, tnodes := 1\<rparr>, tree_node_create a v h)"

definition tree_node_insert_child_node ::
    "tree_t \<Rightarrow> addr \<Rightarrow> addr \<Rightarrow> theap \<Rightarrow> (tree_t \<times> theap) option" where
  "tree_node_insert_child_node tree parent node h = do {
     p \<leftarrow> tnode h parent;
     let h = tput parent (p\<lparr>tchildren := tchildren p @ [node]\<rparr>) h;
     nd \<leftarrow> tnode h node;
     Some (tree\<lparr>tnodes := tnodes tree + 1\<rparr>, tput node (nd\<lparr>tparent := parent\<rparr>) h) }"

definition tree_node_insert_child ::
    "addr \<Rightarrow> tree_t \<Rightarrow> addr \<Rightarrow> addr \<Rightarrow> theap \<Rightarrow> (tree_t \<times> theap) option" where
  "tree_node_insert_child a tree parent v h =
     tree_node_insert_child_node tree parent a (tree_node_create a v h)"

section \<open>Walks\<close>

text \<open>
  \<^verbatim>\<open>tree_node_destroy\<close> releases the values, in post-order; \<^verbatim>\<open>tree_node_free\<close> releases the nodes and
  accepts a null pointer.
\<close>
partial_function (option) tree_nodes_destroy :: "theap \<Rightarrow> addr list \<Rightarrow> addr list option" where
  "tree_nodes_destroy h ns = (case ns of [] \<Rightarrow> Some []
     | n # ns \<Rightarrow> do {
         nd \<leftarrow> tnode h n;
         below \<leftarrow> tree_nodes_destroy h (tchildren nd);
         rest \<leftarrow> tree_nodes_destroy h ns;
         Some (below @ tvalue nd # rest) })"

definition tree_node_destroy :: "theap \<Rightarrow> addr \<Rightarrow> addr list option" where
  "tree_node_destroy h node = tree_nodes_destroy h [node]"

definition tree_destroy :: "theap \<Rightarrow> tree_t \<Rightarrow> addr list option" where
  "tree_destroy h tree = (if troot tree \<noteq> 0 then tree_node_destroy h (troot tree) else Some [])"

partial_function (option) tree_nodes_free :: "addr list \<Rightarrow> theap \<Rightarrow> theap option" where
  "tree_nodes_free ns h = (case ns of [] \<Rightarrow> Some h
     | n # ns \<Rightarrow>
         if n = 0 then tree_nodes_free ns h
         else do {
           nd \<leftarrow> tnode h n;
           h \<leftarrow> tree_nodes_free (tchildren nd) h;
           tree_nodes_free ns (tfree n h) })"

definition tree_node_free :: "addr \<Rightarrow> theap \<Rightarrow> theap option" where
  "tree_node_free node h = tree_nodes_free [node] h"

definition tree_free :: "tree_t \<Rightarrow> theap \<Rightarrow> theap option" where
  "tree_free tree h = tree_node_free (troot tree) h"

partial_function (option) tree_find_parent_in :: "theap \<Rightarrow> addr \<Rightarrow> addr list \<Rightarrow> addr \<Rightarrow> addr option" where
  "tree_find_parent_in h haystack cs needle = (case cs of [] \<Rightarrow> Some 0
     | c # cs \<Rightarrow>
         if c = needle then Some haystack
         else do {
           nd \<leftarrow> tnode h c;
           found \<leftarrow> tree_find_parent_in h c (tchildren nd) needle;
           if found \<noteq> 0 then Some found else tree_find_parent_in h haystack cs needle })"

definition tree_node_find_parent :: "theap \<Rightarrow> addr \<Rightarrow> addr \<Rightarrow> addr option" where
  "tree_node_find_parent h haystack needle = do {
     nd \<leftarrow> tnode h haystack;
     tree_find_parent_in h haystack (tchildren nd) needle }"

definition tree_find_parent :: "theap \<Rightarrow> tree_t \<Rightarrow> addr \<Rightarrow> addr option" where
  "tree_find_parent h tree node =
     (if troot tree = 0 then Some 0 else tree_node_find_parent h (troot tree) node)"

partial_function (option) tree_count_list :: "theap \<Rightarrow> addr list \<Rightarrow> int option" where
  "tree_count_list h ns = (case ns of [] \<Rightarrow> Some 0
     | n # ns \<Rightarrow> do {
         out \<leftarrow> (if n = 0 then Some 0 else do {
           nd \<leftarrow> tnode h n;
           below \<leftarrow> tree_count_list h (tchildren nd);
           Some (int (length (tchildren nd)) + below) });
         rest \<leftarrow> tree_count_list h ns;
         Some (out + rest) })"

definition tree_count_children :: "theap \<Rightarrow> addr \<Rightarrow> int option" where
  "tree_count_children h node = tree_count_list h [node]"

partial_function (option) tree_find_list :: "theap \<Rightarrow> (addr \<Rightarrow> bool) \<Rightarrow> addr list \<Rightarrow> addr option" where
  "tree_find_list h match ns = (case ns of [] \<Rightarrow> Some 0
     | n # ns \<Rightarrow> do {
         nd \<leftarrow> tnode h n;
         (if match (tvalue nd) then Some n
          else do {
            found \<leftarrow> tree_find_list h match (tchildren nd);
            (if found \<noteq> 0 then Some found else tree_find_list h match ns) }) })"

definition tree_node_find :: "theap \<Rightarrow> (addr \<Rightarrow> addr \<Rightarrow> bool) \<Rightarrow> addr \<Rightarrow> addr \<Rightarrow> addr option" where
  "tree_node_find h comparator node search = tree_find_list h (\<lambda>v. comparator v search) [node]"

definition tree_find :: "theap \<Rightarrow> tree_t \<Rightarrow> (addr \<Rightarrow> addr \<Rightarrow> bool) \<Rightarrow> addr \<Rightarrow> addr option" where
  "tree_find h tree comparator v = tree_node_find h comparator (troot tree) v"

section \<open>Removal\<close>

definition child_delete :: "addr \<Rightarrow> addr \<Rightarrow> theap \<Rightarrow> theap option" where
  "child_delete parent node h = do {
     p \<leftarrow> tnode h parent;
     if node \<in> set (tchildren p)
     then Some (tput parent (p\<lparr>tchildren := remove1 node (tchildren p)\<rparr>) h)
     else None }"

fun set_parents :: "addr \<Rightarrow> addr list \<Rightarrow> theap \<Rightarrow> theap option" where
  "set_parents parent [] h = Some h"
| "set_parents parent (c # cs) h = do {
     nd \<leftarrow> tnode h c;
     set_parents parent cs (tput c (nd\<lparr>tparent := parent\<rparr>) h) }"

definition tree_node_parent_remove ::
    "tree_t \<Rightarrow> addr \<Rightarrow> addr \<Rightarrow> theap \<Rightarrow> (tree_t \<times> theap) option" where
  "tree_node_parent_remove tree parent node h = do {
     c \<leftarrow> tree_count_children h node;
     let tree = tree\<lparr>tnodes := tnodes tree - (c + 1)\<rparr>;
     h \<leftarrow> child_delete parent node h;
     h \<leftarrow> tree_node_free node h;
     Some (tree, h) }"

text \<open>The branch of \<^verbatim>\<open>tree_node_remove\<close> for the root.\<close>
definition tree_remove_root :: "tree_t \<Rightarrow> addr \<Rightarrow> addr \<Rightarrow> theap \<Rightarrow> (tree_t \<times> theap) option" where
  "tree_remove_root tree parent node h =
     (if parent = 0 \<and> node = troot tree
      then do { h \<leftarrow> tree_node_free node h; Some (tree\<lparr>tnodes := 0, troot := 0\<rparr>, h) }
      else Some (tree, h))"

definition tree_node_remove :: "tree_t \<Rightarrow> addr \<Rightarrow> theap \<Rightarrow> (tree_t \<times> theap) option" where
  "tree_node_remove tree node h = do {
     nd \<leftarrow> tnode h node;
     let parent = tparent nd;
     (tree, h) \<leftarrow> tree_remove_root tree parent node h;
     tree_node_parent_remove tree parent node h }"

text \<open>The common body of the two removals that hand the children over to \<open>heir\<close>.\<close>
definition tree_hand_over :: "addr \<Rightarrow> addr \<Rightarrow> theap \<Rightarrow> theap option" where
  "tree_hand_over heir node h = do {
     nd \<leftarrow> tnode h node;
     h \<leftarrow> set_parents heir (tchildren nd) h;
     r \<leftarrow> tnode h heir;
     Some (tfree node (tput heir (r\<lparr>tchildren := tchildren r @ tchildren nd\<rparr>) h)) }"

definition tree_remove :: "tree_t \<Rightarrow> addr \<Rightarrow> theap \<Rightarrow> (tree_t \<times> theap) option" where
  "tree_remove tree node h = do {
     nd \<leftarrow> tnode h node;
     let parent = tparent nd;
     if parent = 0 then Some (tree, h)
     else do {
       let tree = tree\<lparr>tnodes := tnodes tree - 1\<rparr>;
       h \<leftarrow> child_delete parent node h;
       h \<leftarrow> tree_hand_over parent node h;
       Some (tree, h) } }"

definition tree_remove_reparent_root :: "tree_t \<Rightarrow> addr \<Rightarrow> theap \<Rightarrow> (tree_t \<times> theap) option" where
  "tree_remove_reparent_root tree node h = do {
     nd \<leftarrow> tnode h node;
     let parent = tparent nd;
     if parent = 0 then Some (tree, h)
     else do {
       let tree = tree\<lparr>tnodes := tnodes tree - 1\<rparr>;
       h \<leftarrow> child_delete parent node h;
       h \<leftarrow> tree_hand_over (troot tree) node h;
       Some (tree, h) } }"

definition tree_break_off :: "addr \<Rightarrow> theap \<Rightarrow> theap option" where
  "tree_break_off node h = do {
     nd \<leftarrow> tnode h node;
     let parent = tparent nd;
     if parent = 0 then Some h else child_delete parent node h }"


section \<open>The trees a heap holds\<close>

datatype rtree = RNode (raddr: addr) (rval: addr) (rsubs: "rtree list")

fun raddrs :: "rtree \<Rightarrow> addr list" where
  "raddrs (RNode n v ts) = n # concat (map raddrs ts)"

fun rpost :: "rtree \<Rightarrow> addr list" where
  "rpost (RNode n v ts) = concat (map rpost ts) @ [n]"

fun tree_at :: "theap \<Rightarrow> addr \<Rightarrow> rtree \<Rightarrow> bool" where
  "tree_at h p (RNode n v ts) \<longleftrightarrow>
     n \<noteq> 0 \<and> tmem h n = Some \<lparr>tvalue = v, tchildren = map raddr ts, tparent = p\<rparr> \<and> (\<forall>t \<in> set ts. tree_at h n t)"

lemma raddr_in_raddrs [simp]: "raddr t \<in> set (raddrs t)"
  by (cases t) simp

lemma set_rpost: "set (rpost t) = set (raddrs t)"
  by (induction t) auto

lemma length_raddrs: "length (raddrs t) = Suc (\<Sum>s\<leftarrow>rsubs t. length (raddrs s))"
  by (cases t) (simp add: length_concat comp_def)

lemma tree_at_frame: "tree_at h p t \<Longrightarrow> \<forall>a \<in> set (raddrs t). tmem h' a = tmem h a \<Longrightarrow> tree_at h' p t"
  by (induction t arbitrary: p) auto

lemma tree_at_node:
  "tree_at h p t \<Longrightarrow>
   tnode h (raddr t) = Some \<lparr>tvalue = rval t, tchildren = map raddr (rsubs t), tparent = p\<rparr> \<and> raddr t \<noteq> 0"
  by (cases t) (simp add: tnode_def)

lemma tree_at_subs: "tree_at h p t \<Longrightarrow> s \<in> set (rsubs t) \<Longrightarrow> tree_at h (raddr t) s"
  by (cases t) simp

lemma tree_at_nz: "tree_at h p t \<Longrightarrow> 0 \<notin> set (raddrs t)"
  by (induction t arbitrary: p) auto

section \<open>What the walks compute\<close>

lemma sum_list_pred: "int (length ts) + (\<Sum>s\<leftarrow>ts. int (f s) - 1) = int (\<Sum>s\<leftarrow>ts. f s)"
  by (induction ts) auto

lemma tree_count_forest:
  "\<forall>t \<in> set ts. \<exists>p. tree_at h p t \<Longrightarrow>
   tree_count_list h (map raddr ts) = Some (\<Sum>t\<leftarrow>ts. int (length (raddrs t)) - 1)"
proof (induction "size_list size ts" arbitrary: ts rule: less_induct)
  case less
  show ?case
  proof (cases ts)
    case Nil
    then show ?thesis by (simp add: tree_count_list.simps [of h])
  next
    case (Cons t us)
    obtain p where p: "tree_at h p t" using less.prems Cons by auto
    note nd = tree_at_node [OF p]
    have subs: "tree_count_list h (map raddr (rsubs t)) = Some (\<Sum>s\<leftarrow>rsubs t. int (length (raddrs s)) - 1)"
      using less.prems tree_at_subs [OF p] Cons by (intro less.hyps) (cases t, auto)
    have rest: "tree_count_list h (map raddr us) = Some (\<Sum>t\<leftarrow>us. int (length (raddrs t)) - 1)"
      using less.prems Cons by (intro less.hyps) (cases t, auto)
    have "int (length (raddrs t)) - 1 = int (length (rsubs t)) + (\<Sum>s\<leftarrow>rsubs t. int (length (raddrs s)) - 1)"
      using sum_list_pred [of "rsubs t" "\<lambda>s. length (raddrs s)"] by (subst length_raddrs) simp
    then show ?thesis using Cons nd subs rest by (simp add: tree_count_list.simps [of h "raddr t # map raddr us"])
  qed
qed

lemma tree_count_children_rep:
  "tree_at h p t \<Longrightarrow> tree_count_children h (raddr t) = Some (int (length (raddrs t)) - 1)"
  using tree_count_forest [of "[t]" h] by (auto simp: tree_count_children_def)

definition without :: "addr list \<Rightarrow> theap \<Rightarrow> theap" where
  "without as h = h\<lparr>tmem := (\<lambda>a. if a \<in> set as then None else tmem h a), tfreed := tfreed h @ as\<rparr>"

lemma without_simps [simp]:
  "without [] h = h" "without bs (without as h) = without (as @ bs) h"
  "tmem (without as h) a = (if a \<in> set as then None else tmem h a)"
  by (auto simp: without_def fun_eq_iff)

lemma tfree_without: "tfree a h = without [a] h"
  by (auto simp: tfree_def without_def fun_eq_iff)

lemma tree_nodes_free_forest:
  "\<forall>t \<in> set ts. \<exists>p. tree_at h p t \<Longrightarrow> distinct (concat (map raddrs ts)) \<Longrightarrow>
   tree_nodes_free (map raddr ts) h = Some (without (concat (map rpost ts)) h)"
proof (induction "size_list size ts" arbitrary: ts h rule: less_induct)
  case less
  show ?case
  proof (cases ts)
    case Nil
    then show ?thesis by (simp add: tree_nodes_free.simps [of "[]"])
  next
    case (Cons t us)
    obtain p where p: "tree_at h p t" using less.prems Cons by auto
    obtain n v ss where t: "t = RNode n v ss" by (cases t)
    let ?h1 = "without (concat (map rpost ss)) h" and ?h2 = "without (rpost t) h"
    have subs: "tree_nodes_free (map raddr ss) h = Some ?h1"
      using less.prems p Cons t by (intro less.hyps) auto
    have "tree_at ?h2 q u" if "tree_at h q u" "u \<in> set us" for q u
      using that less.prems(2) Cons by (intro tree_at_frame [OF that(1)]) (auto simp: set_rpost)
    then have rest: "tree_nodes_free (map raddr us) ?h2 = Some (without (concat (map rpost us)) ?h2)"
      using less.prems Cons t by (intro less.hyps) (auto, blast)
    show ?thesis
      using p Cons t subs rest
      by (simp add: tree_nodes_free.simps [of "n # map raddr us"] tnode_def tfree_without)
  qed
qed

lemma tree_node_free_rep:
  "tree_at h p t \<Longrightarrow> distinct (raddrs t) \<Longrightarrow> tree_node_free (raddr t) h = Some (without (rpost t) h)"
  using tree_nodes_free_forest [of "[t]" h] by (auto simp: tree_node_free_def)

fun rpairs :: "rtree \<Rightarrow> (addr \<times> addr) list" where
  "rpairs (RNode n v ts) = (n, v) # concat (map rpairs ts)"

definition first_match :: "(addr \<Rightarrow> bool) \<Rightarrow> (addr \<times> addr) list \<Rightarrow> addr" where
  "first_match test ps = (case find (\<lambda>(n, v). test v) ps of None \<Rightarrow> 0 | Some (n, v) \<Rightarrow> n)"

lemma first_match_simps [simp]:
  "first_match test [] = 0"
  "first_match test ((n, v) # ps) = (if test v then n else first_match test ps)"
  by (simp_all add: first_match_def)

lemma first_match_append:
  "0 \<notin> fst ` set ps \<Longrightarrow> first_match test (ps @ qs) =
     (if first_match test ps \<noteq> 0 then first_match test ps else first_match test qs)"
  by (induction ps) auto

lemma fst_rpairs: "map fst (rpairs t) = raddrs t"
  by (induction t) (simp add: map_concat comp_def cong: map_cong)

lemma tree_find_forest:
  "\<forall>t \<in> set ts. \<exists>p. tree_at h p t \<Longrightarrow>
   tree_find_list h test (map raddr ts) = Some (first_match test (concat (map rpairs ts)))"
proof (induction "size_list size ts" arbitrary: ts rule: less_induct)
  case less
  show ?case
  proof (cases ts)
    case Nil
    then show ?thesis by (simp add: tree_find_list.simps [of h])
  next
    case (Cons t us)
    obtain p where p: "tree_at h p t" using less.prems Cons by auto
    obtain n v ss where t: "t = RNode n v ss" by (cases t)
    have subs: "tree_find_list h test (map raddr ss) = Some (first_match test (concat (map rpairs ss)))"
      using less.prems p Cons t by (intro less.hyps) auto
    have rest: "tree_find_list h test (map raddr us) = Some (first_match test (concat (map rpairs us)))"
      using less.prems Cons t by (intro less.hyps) auto
    have "set (map fst (concat (map rpairs ss))) \<subseteq> set (raddrs t)"
      by (auto simp: t map_concat comp_def fst_rpairs)
    then have "0 \<notin> fst ` set (concat (map rpairs ss))"
      using tree_at_nz [OF p] by auto
    then show ?thesis
      using p Cons t subs rest
      by (simp add: tree_find_list.simps [of h test "n # map raddr us"] tnode_def first_match_append)
  qed
qed

section \<open>Insertion and removal keep the tree\<close>

definition tree_ok :: "tree_t \<Rightarrow> theap \<Rightarrow> rtree \<Rightarrow> bool" where
  "tree_ok tree h t \<longleftrightarrow> troot tree = raddr t \<and> tnodes tree = int (length (raddrs t))
     \<and> tree_at h 0 t \<and> distinct (raddrs t)"

fun rt_insert :: "addr \<Rightarrow> addr \<Rightarrow> addr \<Rightarrow> rtree \<Rightarrow> rtree" where
  "rt_insert p a w (RNode n v ts) =
     RNode n v (map (rt_insert p a w) ts @ (if n = p then [RNode a w []] else []))"

fun rt_prune :: "addr \<Rightarrow> rtree \<Rightarrow> rtree" where
  "rt_prune x (RNode n v ts) = RNode n v (map (rt_prune x) (filter (\<lambda>t. raddr t \<noteq> x) ts))"

lemma raddr_rt [simp]: "raddr (rt_insert p a w t) = raddr t" "raddr (rt_prune x t) = raddr t"
  by (cases t, simp)+

lemma rt_insert_same [simp]: "p \<notin> set (raddrs t) \<Longrightarrow> rt_insert p a w t = t"
  by (induction t) (auto intro: map_idI)

lemma rt_prune_same [simp]: "x \<notin> set (raddrs t) \<Longrightarrow> rt_prune x t = t"
proof (induction t)
  case (RNode n v ts)
  then have "filter (\<lambda>t. raddr t \<noteq> x) ts = ts" by (intro filter_True) auto
  then show ?case using RNode by (auto intro!: map_idI)
qed

lemma replicate_mset_add: "replicate_mset (m + n) a = replicate_mset m a + replicate_mset n a"
  by (induction m) auto

lemma count_list_distinct: "distinct xs \<Longrightarrow> x \<in> set xs \<Longrightarrow> count_list xs x = 1"
  by (induction xs) (auto simp: count_list_0_iff)

lemma mset_concat_map_add:
  "\<forall>t \<in> set ts. mset (f t) = mset (g t) + replicate_mset (c t) a \<Longrightarrow>
   mset (concat (map f ts)) = mset (concat (map g ts)) + replicate_mset (\<Sum>t\<leftarrow>ts. c t) a"
  by (induction ts) (auto simp: replicate_mset_add)

lemma count_list_concat: "count_list (concat xss) x = (\<Sum>xs\<leftarrow>xss. count_list xs x)"
  by (induction xss) auto

lemma mset_raddrs_insert:
  "mset (raddrs (rt_insert p a w t)) = mset (raddrs t) + replicate_mset (count_list (raddrs t) p) a"
proof (induction t)
  case (RNode n v ts)
  then show ?case
    using mset_concat_map_add [of ts "\<lambda>t. raddrs (rt_insert p a w t)" raddrs "\<lambda>t. count_list (raddrs t) p" a]
    by (auto simp: count_list_concat comp_def)
qed

lemma raddrs_insert:
  assumes "distinct (raddrs t)" and "p \<in> set (raddrs t)" and "a \<notin> set (raddrs t)"
  shows "distinct (raddrs (rt_insert p a w t))" "length (raddrs (rt_insert p a w t)) = length (raddrs t) + 1"
proof -
  have "count_list (raddrs t) p = 1" using assms(1,2) by (simp add: count_list_distinct)
  then have eq: "mset (raddrs (rt_insert p a w t)) = mset (a # raddrs t)" by (simp add: mset_raddrs_insert)
  show "distinct (raddrs (rt_insert p a w t))" using mset_eq_imp_distinct_iff [OF eq] assms by simp
  show "length (raddrs (rt_insert p a w t)) = length (raddrs t) + 1" using mset_eq_length [OF eq] by simp
qed

lemma tree_at_insert:
  assumes "tree_at h q t" and "distinct (raddrs t)" and "a \<notin> set (raddrs t)" "a \<noteq> 0"
    and "tmem h' a = Some \<lparr>tvalue = w, tchildren = [], tparent = p\<rparr>"
    and "\<And>nd. tmem h p = Some nd \<Longrightarrow> tmem h' p = Some (nd\<lparr>tchildren := tchildren nd @ [a]\<rparr>)"
    and "\<And>b. b \<noteq> a \<Longrightarrow> b \<noteq> p \<Longrightarrow> tmem h' b = tmem h b"
  shows "tree_at h' q (rt_insert p a w t)"
  using assms(1-4)
proof (induction t arbitrary: q)
  case (RNode n v ts)
  have subs: "tree_at h' n (rt_insert p a w t)" if "t \<in> set ts" for t
    using RNode.IH [OF that, of n] RNode.prems that by (auto simp: distinct_concat_iff)
  have comp: "raddr \<circ> rt_insert p a w = raddr" by auto
  show ?case
  proof (cases "n = p")
    case True
    then show ?thesis using RNode.prems subs assms(5) assms(6) [of "\<lparr>tvalue = v, tchildren = map raddr ts, tparent = q\<rparr>"]
      by (auto simp: comp)
  next
    case False
    then show ?thesis using RNode.prems subs assms(7) [of n] by (auto simp: comp)
  qed
qed

lemma tree_at_lookup: "tree_at h q t \<Longrightarrow> p \<in> set (raddrs t) \<Longrightarrow> \<exists>nd. tnode h p = Some nd \<and> p \<noteq> 0"
  by (induction t arbitrary: q) (auto simp: tnode_def)

lemma tree_node_insert_child_rep:
  assumes "tree_ok tree h t" and "p \<in> set (raddrs t)" and "a \<noteq> 0" and "a \<notin> set (raddrs t)"
  shows "\<exists>tree' h'. tree_node_insert_child a tree p w h = Some (tree', h') \<and> tree_ok tree' h' (rt_insert p a w t)"
proof -
  have at: "tree_at h 0 t" "distinct (raddrs t)" using assms(1) by (auto simp: tree_ok_def)
  obtain nd where nd: "tnode h p = Some nd" "p \<noteq> 0" using tree_at_lookup [OF at(1) assms(2)] by auto
  have ap: "a \<noteq> p" using assms(2,4) by auto
  define h1 where "h1 = tree_node_create a w h"
  define h2 where "h2 = tput p (nd\<lparr>tchildren := tchildren nd @ [a]\<rparr>) h1"
  define h3 where "h3 = tput a \<lparr>tvalue = w, tchildren = [], tparent = p\<rparr> h2"
  have run: "tree_node_insert_child a tree p w h = Some (tree\<lparr>tnodes := tnodes tree + 1\<rparr>, h3)"
    using nd ap assms(3)
    by (simp add: tree_node_insert_child_def tree_node_insert_child_node_def tree_node_create_def
        tnode_def tput_def h1_def h2_def h3_def Let_def)
  have "tree_at h3 0 (rt_insert p a w t)"
    using at assms(3,4) nd ap
    by (intro tree_at_insert [of h]) (auto simp: h1_def h2_def h3_def tput_def tnode_def tree_node_create_def)
  then have "tree_ok (tree\<lparr>tnodes := tnodes tree + 1\<rparr>) h3 (rt_insert p a w t)"
    using assms(1) raddrs_insert [OF at(2) assms(2,4), of w] by (simp add: tree_ok_def)
  then show ?thesis using run by blast
qed

lemma split_at:
  assumes "distinct (concat (map raddrs ts))" and "s \<in> set ts"
  obtains us vs where "ts = us @ s # vs"
    and "\<And>r x. r \<in> set (us @ vs) \<Longrightarrow> x \<in> set (raddrs s) \<Longrightarrow> x \<notin> set (raddrs r)"
proof -
  obtain us vs where "ts = us @ s # vs" using assms(2) by (meson split_list)
  then show ?thesis using assms(1) by (intro that [of us vs]) auto
qed

lemma map_id_on: "(\<And>x. x \<in> set xs \<Longrightarrow> f x = x) \<Longrightarrow> map f xs = xs"
  by (induction xs) auto

lemma prune_split:
  assumes "\<And>r. r \<in> set (us @ vs) \<Longrightarrow> x \<notin> set (raddrs r)"
  shows "map (rt_prune x) (filter (\<lambda>t. raddr t \<noteq> x) (us @ s # vs)) =
         us @ (if raddr s = x then [] else [rt_prune x s]) @ vs"
proof -
  have "filter (\<lambda>t. raddr t \<noteq> x) us = us" "filter (\<lambda>t. raddr t \<noteq> x) vs = vs"
    using assms by (intro filter_True; force)+
  moreover have "map (rt_prune x) us = us" "map (rt_prune x) vs = vs"
    using assms by (intro map_id_on; simp)+
  ultimately show ?thesis by simp
qed

lemma tree_at_subtree:
  assumes "tree_at h q t" and "distinct (raddrs t)" and "x \<in> set (raddrs t)" and "x \<noteq> raddr t"
  shows "\<exists>p nd s. p \<in> set (raddrs (rt_prune x t)) \<and> tmem h p = Some nd \<and> x \<in> set (tchildren nd) \<and> raddr s = x
     \<and> tree_at h p s \<and> mset (raddrs t) = mset (raddrs (rt_prune x t)) + mset (raddrs s)"
  using assms
proof (induction t arbitrary: q)
  case (RNode n v ts)
  obtain s where s: "s \<in> set ts" "x \<in> set (raddrs s)" using RNode.prems by auto
  obtain us vs where ts: "ts = us @ s # vs" and dis: "\<And>r. r \<in> set (us @ vs) \<Longrightarrow> x \<notin> set (raddrs r)"
    using split_at [where ts = ts and s = s] s RNode.prems(2) by (metis distinct.simps(2) raddrs.simps)
  note prune = prune_split [OF dis, where s = s]
  show ?case
  proof (cases "raddr s = x")
    case True
    then show ?thesis
      using RNode.prems(1) ts prune
      by (intro exI [of _ n] exI [of _ "\<lparr>tvalue = v, tchildren = map raddr ts, tparent = q\<rparr>"] exI [of _ s]) auto
  next
    case False
    obtain p nd r where "p \<in> set (raddrs (rt_prune x s))" "tmem h p = Some nd" "x \<in> set (tchildren nd)" "raddr r = x"
      "tree_at h p r" "mset (raddrs s) = mset (raddrs (rt_prune x s)) + mset (raddrs r)"
      using RNode.IH [OF s(1), of n] RNode.prems s False by (auto simp: ts)
    then show ?thesis
      using ts prune False by (intro exI [of _ p] exI [of _ nd] exI [of _ r]) auto
  qed
qed

lemma tree_at_child_below:
  assumes "tree_at h q t" and "p \<in> set (raddrs t)" and "tmem h p = Some nd" and "c \<in> set (tchildren nd)"
  shows "c \<in> set (concat (map raddrs (rsubs t)))"
  using assms
proof (induction t arbitrary: q)
  case (RNode n v ts)
  show ?case
  proof (cases "p = n")
    case True
    then obtain r where "r \<in> set ts" "c = raddr r" using RNode.prems by auto
    then show ?thesis by (auto intro: bexI [of _ r])
  next
    case False
    then obtain s where s: "s \<in> set ts" "p \<in> set (raddrs s)" using RNode.prems by auto
    then have "c \<in> set (concat (map raddrs (rsubs s)))" using RNode.IH [OF s(1), of n] RNode.prems by auto
    then have "c \<in> set (raddrs s)" by (cases s) auto
    then show ?thesis using s(1) by (auto intro: bexI [of _ s])
  qed
qed

lemma tree_at_prune:
  assumes "tree_at h q t" and "distinct (raddrs t)" and "p \<in> set (raddrs t)"
    and p: "tmem h p = Some nd" "x \<in> set (tchildren nd)"
    and h': "tmem h' p = Some (nd\<lparr>tchildren := remove1 x (tchildren nd)\<rparr>)" "\<And>b. b \<noteq> p \<Longrightarrow> tmem h' b = tmem h b"
  shows "tree_at h' q (rt_prune x t)"
  using assms(1-3)
proof (induction t arbitrary: q)
  case (RNode n v ts)
  have frame: "tree_at h' n r" if "r \<in> set ts" "p \<notin> set (raddrs r)" for r
  proof (rule tree_at_frame [of h n r])
    show "tree_at h n r" using RNode.prems(1) that(1) by simp
    show "\<forall>a \<in> set (raddrs r). tmem h' a = tmem h a" using that(2) h'(2) by metis
  qed
  have d: "distinct (concat (map raddrs ts))" using RNode.prems(2) by simp
  show ?case
  proof (cases "p = n")
    case True
    then have nd: "nd = \<lparr>tvalue = v, tchildren = map raddr ts, tparent = q\<rparr>" using RNode.prems p by simp
    then have "x \<in> raddr ` set ts" using p(2) by simp
    then obtain s where s: "s \<in> set ts" "raddr s = x" by blast
    obtain us vs where ts: "ts = us @ s # vs"
      and dis': "\<And>r y. r \<in> set (us @ vs) \<Longrightarrow> y \<in> set (raddrs s) \<Longrightarrow> y \<notin> set (raddrs r)"
      using split_at [OF d s(1)] by blast
    have dis: "x \<notin> set (raddrs r)" if "r \<in> set (us @ vs)" for r
      using dis' [OF that, of x] raddr_in_raddrs [of s] s(2) by simp
    have "x \<notin> set (map raddr us)" using dis by force
    then have rm: "remove1 x (map raddr ts) = map raddr (us @ vs)" using ts s(2) by (simp add: remove1_append)
    have "tree_at h' n r" if "r \<in> set (us @ vs)" for r
      using frame [of r] RNode.prems(2) True ts that by auto
    moreover have eq: "rt_prune x (RNode n v ts) = RNode n v (us @ vs)"
      using prune_split [OF dis, where s = s] s(2) ts by simp
    moreover have "tmem h' n = Some \<lparr>tvalue = v, tchildren = map raddr (us @ vs), tparent = q\<rparr>"
      using h'(1) True nd rm by simp
    ultimately show ?thesis using RNode.prems(1) by (simp del: rt_prune.simps)
  next
    case False
    then obtain s where s: "s \<in> set ts" "p \<in> set (raddrs s)" using RNode.prems by auto
    have s_at: "tree_at h n s" "distinct (raddrs s)" using RNode.prems s(1) by (auto simp: distinct_concat_iff)
    have "x \<in> set (concat (map raddrs (rsubs s)))" by (rule tree_at_child_below [OF s_at(1) s(2) p])
    then have x: "x \<in> set (raddrs s)" "raddr s \<noteq> x" using s_at(2) by (cases s; auto)+
    obtain us vs where ts: "ts = us @ s # vs"
      and dis: "\<And>r y. r \<in> set (us @ vs) \<Longrightarrow> y \<in> set (raddrs s) \<Longrightarrow> y \<notin> set (raddrs r)"
      using split_at [OF d s(1)] by blast
    have "rt_prune x (RNode n v ts) = RNode n v (us @ rt_prune x s # vs)"
      using prune_split [OF dis [OF _ x(1)], where s = s] x(2) ts by simp
    moreover have "tree_at h' n r" if "r \<in> set (us @ vs)" for r
      using frame [of r] dis [OF that s(2)] that ts by simp
    moreover have "tree_at h' n (rt_prune x s)" using RNode.IH [OF s(1) s_at s(2)] .
    moreover have "tmem h' n = Some \<lparr>tvalue = v, tchildren = map raddr (us @ rt_prune x s # vs), tparent = q\<rparr>"
      using RNode.prems(1) False h'(2) [of n] ts by simp
    ultimately show ?thesis using RNode.prems(1) by (simp del: rt_prune.simps)
  qed
qed

lemma child_delete_rep:
  "tmem h p = Some nd \<Longrightarrow> p \<noteq> 0 \<Longrightarrow> x \<in> set (tchildren nd) \<Longrightarrow>
   child_delete p x h = Some (tput p (nd\<lparr>tchildren := remove1 x (tchildren nd)\<rparr>) h)"
  by (simp add: child_delete_def tnode_def)

lemma tree_node_remove_rep:
  assumes ok: "tree_ok tree h t" and x: "x \<in> set (raddrs t)" "x \<noteq> raddr t"
  shows "\<exists>tree' h' s. tree_node_remove tree x h = Some (tree', h') \<and> tree_ok tree' h' (rt_prune x t)
     \<and> raddr s = x \<and> tfreed h' = tfreed h @ rpost s
     \<and> mset (raddrs t) = mset (raddrs (rt_prune x t)) + mset (raddrs s)"
proof -
  have at: "tree_at h 0 t" "distinct (raddrs t)" using ok by (auto simp: tree_ok_def)
  obtain p nd s where p: "p \<in> set (raddrs (rt_prune x t))" "tmem h p = Some nd" "x \<in> set (tchildren nd)"
    and s: "raddr s = x" "tree_at h p s" "mset (raddrs t) = mset (raddrs (rt_prune x t)) + mset (raddrs s)"
    using tree_at_subtree [OF at x] by blast
  have pt: "p \<in> set (raddrs t)" using p(1) s(3) by (metis UnCI set_mset_mset set_mset_union)
  have pnz: "p \<noteq> 0" using tree_at_nz [OF at(1)] pt by metis
  have "distinct (raddrs (rt_prune x t) @ raddrs s)"
    using at(2) mset_eq_imp_distinct_iff [of "raddrs t" "raddrs (rt_prune x t) @ raddrs s"] s(3) by simp
  then have d: "distinct (raddrs (rt_prune x t))" "distinct (raddrs s)"
    and sep: "set (raddrs (rt_prune x t)) \<inter> set (raddrs s) = {}" by auto
  define h1 where "h1 = tput p (nd\<lparr>tchildren := remove1 x (tchildren nd)\<rparr>) h"
  have t1: "tree_at h1 0 (rt_prune x t)"
    using tree_at_prune [OF at pt p(2,3)] by (simp add: h1_def tput_def)
  have s1: "tree_at h1 p s" using p(1) sep by (intro tree_at_frame [OF s(2)]) (auto simp: h1_def tput_def)
  have free: "tree_node_free x h1 = Some (without (rpost s) h1)"
    using tree_node_free_rep [OF s1 d(2)] s(1) by simp
  have t2: "tree_at (without (rpost s) h1) 0 (rt_prune x t)"
    using sep by (intro tree_at_frame [OF t1]) (auto simp: set_rpost)
  have len: "int (length (raddrs t)) = int (length (raddrs (rt_prune x t))) + int (length (raddrs s))"
    using mset_eq_length [of "raddrs t" "raddrs (rt_prune x t) @ raddrs s"] s(3) by simp
  define tree' where "tree' = tree\<lparr>tnodes := tnodes tree - (int (length (raddrs s)) - 1 + 1)\<rparr>"
  have "tree_node_remove tree x h = Some (tree', without (rpost s) h1)"
    using tree_at_node [OF s(2)] s(1) pnz free tree_count_children_rep [OF s(2)]
      child_delete_rep [OF p(2) pnz p(3)]
    by (simp add: tree_node_remove_def tree_remove_root_def tree_node_parent_remove_def tree'_def h1_def)
  moreover have "tree_ok tree' (without (rpost s) h1) (rt_prune x t)"
    using ok d(1) t2 len by (simp add: tree_ok_def tree'_def)
  moreover have "tfreed (without (rpost s) h1) = tfreed h @ rpost s"
    by (simp add: without_def h1_def tput_def)
  ultimately show ?thesis using s(1,3) by blast
qed

text \<open>
  C11.  The tree operations keep the tree well-formed, its node count exact and its parent pointers
  right: \<^verbatim>\<open>tree_node_insert_child\<close> adds one leaf under the given parent, and \<^verbatim>\<open>tree_node_remove\<close> of a
  node other than the root cuts exactly its branch and releases exactly the nodes of the branch,
  each once, children first.
\<close>
theorem tree_updates_keep_tree:
  assumes "tree_ok tree h t" and "p \<in> set (raddrs t)" and "a \<noteq> 0" "a \<notin> set (raddrs t)"
    and "x \<in> set (raddrs t)" "x \<noteq> raddr t"
  shows "(\<exists>tree' h'. tree_node_insert_child a tree p w h = Some (tree', h') \<and> tree_ok tree' h' (rt_insert p a w t))
       \<and> (\<exists>tree' h' s. tree_node_remove tree x h = Some (tree', h') \<and> tree_ok tree' h' (rt_prune x t)
            \<and> raddr s = x \<and> tfreed h' = tfreed h @ rpost s
            \<and> mset (raddrs t) = mset (raddrs (rt_prune x t)) + mset (raddrs s))"
  using tree_node_insert_child_rep [OF assms(1-4)] tree_node_remove_rep [OF assms(1,5,6)] by blast

definition tree_demo :: theap where
  "tree_demo = \<lparr>tmem = (\<lambda>_. None)(10 := Some \<lparr>tvalue = 1, tchildren = [20, 30], tparent = 0\<rparr>,
     20 := Some \<lparr>tvalue = 2, tchildren = [40], tparent = 10\<rparr>,
     30 := Some \<lparr>tvalue = 3, tchildren = [], tparent = 10\<rparr>,
     40 := Some \<lparr>tvalue = 4, tchildren = [], tparent = 20\<rparr>), tfreed = []\<rparr>"

definition tree_demo_shape :: rtree where
  "tree_demo_shape = RNode 10 1 [RNode 20 2 [RNode 40 4 []], RNode 30 3 []]"

theorem tree_updates_keep_tree_witness:
  "tree_ok \<lparr>tnodes = 4, troot = 10\<rparr> tree_demo tree_demo_shape
   \<and> (\<exists>tree' h' s. tree_node_remove \<lparr>tnodes = 4, troot = 10\<rparr> 20 tree_demo = Some (tree', h')
        \<and> tree_ok tree' h' (RNode 10 1 [RNode 30 3 []]) \<and> raddr s = 20 \<and> tfreed h' = rpost s)"
proof -
  have ok: "tree_ok \<lparr>tnodes = 4, troot = 10\<rparr> tree_demo tree_demo_shape"
    by (simp add: tree_ok_def tree_demo_def tree_demo_shape_def)
  have prune: "rt_prune 20 tree_demo_shape = RNode 10 1 [RNode 30 3 []]" "tfreed tree_demo = []"
    by (simp_all add: tree_demo_shape_def tree_demo_def)
  show ?thesis
    using tree_updates_keep_tree [OF ok, of 30 50 20 9] ok unfolding prune
    by (simp add: tree_demo_shape_def) blast
qed

text \<open>
  C28.  On a well-formed tree \<^verbatim>\<open>tree_count_children\<close> returns the number of proper descendants,
  \<^verbatim>\<open>tree_find\<close> returns the first node in pre-order whose value matches (NULL if there is none), and
  \<^verbatim>\<open>tree_free\<close> returns after releasing every node exactly once.
\<close>
theorem tree_walks_correct:
  assumes "tree_ok tree h t"
  shows "tree_count_children h (troot tree) = Some (int (length (raddrs t)) - 1)
       \<and> tree_find h tree comparator v = Some (first_match (\<lambda>u. comparator u v) (rpairs t))
       \<and> tree_free tree h = Some (without (rpost t) h) \<and> distinct (rpost t)"
proof -
  have at: "tree_at h 0 t" "distinct (raddrs t)" "troot tree = raddr t" using assms by (auto simp: tree_ok_def)
  have "mset (rpost t) = mset (raddrs t)"
    by (induction t) (simp add: mset_concat comp_def cong: map_cong)
  then have "distinct (rpost t)" using at(2) mset_eq_imp_distinct_iff by blast
  then show ?thesis
    using at tree_count_children_rep [OF at(1)] tree_node_free_rep [OF at(1,2)] tree_find_forest [of "[t]" h]
    by (auto simp: tree_find_def tree_node_find_def tree_free_def)
qed

theorem tree_walks_correct_witness:
  "tree_count_children tree_demo 10 = Some 3
   \<and> tree_find tree_demo \<lparr>tnodes = 4, troot = 10\<rparr> (=) 4 = Some 40"
  using tree_walks_correct [of "\<lparr>tnodes = 4, troot = 10\<rparr>" tree_demo tree_demo_shape "(=)" 4]
  by (simp add: tree_ok_def tree_demo_def tree_demo_shape_def)

text \<open>
  C29.  \<^verbatim>\<open>tree_node_remove\<close> of the root does not stop after its own branch.  The branch empties the
  tree and releases every node once, children first; the call then goes on into
  \<^verbatim>\<open>tree_node_parent_remove\<close> with a null parent, which faults in every state: removing the root
  has no result on any tree.
\<close>
theorem tree_node_remove_root_faults:
  assumes "tree_ok tree h t"
  shows "(\<exists>h'. tree_remove_root tree 0 (troot tree) h = Some (tree\<lparr>tnodes := 0, troot := 0\<rparr>, h') \<and>
      tfreed h' = tfreed h @ rpost t \<and> tmem h' = tmem h |` (- set (raddrs t))) \<and>
    tree_node_parent_remove tree' 0 node h'' = None \<and> tree_node_remove tree (troot tree) h = None"
proof -
  have at: "tree_at h 0 t" "distinct (raddrs t)" "troot tree = raddr t" using assms by (auto simp: tree_ok_def)
  have null: "tree_node_parent_remove x 0 y z = None" for x y z
    by (cases "tree_count_children z y") (simp_all add: tree_node_parent_remove_def child_delete_def tnode_def)
  have free: "tree_remove_root tree 0 (troot tree) h = Some (tree\<lparr>tnodes := 0, troot := 0\<rparr>, without (rpost t) h)"
    using tree_node_free_rep [OF at(1,2)] at(3) by (simp add: tree_remove_root_def)
  have "tnode h (troot tree) = Some \<lparr>tvalue = rval t, tchildren = map raddr (rsubs t), tparent = 0\<rparr>"
    using tree_at_node [OF at(1)] at(3) by auto
  then have "tree_node_remove tree (troot tree) h = None" by (simp add: tree_node_remove_def free null)
  moreover have "tmem (without (rpost t) h) = tmem h |` (- set (raddrs t))"
    by (auto simp: without_def set_rpost restrict_map_def fun_eq_iff)
  moreover have "tfreed (without (rpost t) h) = tfreed h @ rpost t" by (simp add: without_def)
  ultimately show ?thesis using null free by blast
qed

theorem tree_node_remove_root_faults_witness:
  "tree_node_remove \<lparr>tnodes = 4, troot = 10\<rparr> 10 tree_demo = None \<and>
   (\<exists>h'. tree_remove_root \<lparr>tnodes = 4, troot = 10\<rparr> 0 10 tree_demo = Some (\<lparr>tnodes = 0, troot = 0\<rparr>, h') \<and>
      tmem h' 10 = None)"
proof -
  have "tree_ok \<lparr>tnodes = 4, troot = 10\<rparr> tree_demo tree_demo_shape"
    by (simp add: tree_ok_def tree_demo_def tree_demo_shape_def)
  moreover have "10 \<in> set (raddrs tree_demo_shape)" by (simp add: tree_demo_shape_def)
  ultimately show ?thesis using tree_node_remove_root_faults [of "\<lparr>tnodes = 4, troot = 10\<rparr>" tree_demo tree_demo_shape
        "\<lparr>tnodes = 0, troot = 0\<rparr>" 10 tree_demo]
    by (auto simp: restrict_map_def)
qed

end
