(* ===== verification/Ringbuffer.thy ===== *)
theory Ringbuffer
  imports Interfaces
begin

text \<open>
  The blocking ring buffer of \<^verbatim>\<open>kernel/src/ringbuffer.c\<close> and the Unix pipe of
  \<^verbatim>\<open>kernel/src/unixpipe.c\<close> built on it.

  A wait queue is the sequence of the processes sleeping on it; waking a queue empties it and records
  the processes woken, with the interruption flag, in \<open>rb_woken\<close>.  A call that sleeps lets other
  processes run: what they do to the shared state until the sleeper runs again, together with the
  value \<^verbatim>\<open>sleep_on\<close> returns to it, is one element of the call's list of \<open>sleeps\<close>.  A call that
  needs more sleeps than the list has is still blocked.  The pipe record extends the buffer record,
  so that while a reader of the pipe sleeps inside the buffer the others may also close an end.
\<close>

section \<open>Data\<close>

record ring_buffer_t =
  rb_buffer :: "u8 list"
  rb_write_ptr :: int
  rb_read_ptr :: int
  rb_size :: int
  rb_readers :: "nat list"
  rb_writers :: "nat list"
  rb_internal_stop :: bool
  rb_alert_waiters :: "nat list option"
  rb_discard :: bool
  rb_woken :: "(nat \<times> bool) list"
  rb_node_waits :: "nat list"

type_synonym 's sleeps = "('s \<Rightarrow> 's \<times> bool) list"

datatype ('a, 's) call = Returns 'a 's | Blocked 's

section \<open>Counters and pointers\<close>

definition ring_buffer_unread :: "'a ring_buffer_t_scheme \<Rightarrow> int" where
  "ring_buffer_unread rb =
     (if rb_read_ptr rb = rb_write_ptr rb then 0
      else if rb_read_ptr rb > rb_write_ptr rb then (rb_size rb - rb_read_ptr rb) + rb_write_ptr rb
      else rb_write_ptr rb - rb_read_ptr rb)"

definition ring_buffer_size :: "'a ring_buffer_t_scheme \<Rightarrow> int" where
  "ring_buffer_size rb = ring_buffer_unread rb"

definition ring_buffer_available :: "'a ring_buffer_t_scheme \<Rightarrow> int" where
  "ring_buffer_available rb =
     (if rb_read_ptr rb = rb_write_ptr rb then rb_size rb - 1
      else if rb_read_ptr rb > rb_write_ptr rb then rb_read_ptr rb - rb_write_ptr rb - 1
      else (rb_size rb - rb_write_ptr rb) + rb_read_ptr rb - 1)"

definition ring_buffer_increment_read :: "'a ring_buffer_t_scheme \<Rightarrow> 'a ring_buffer_t_scheme" where
  "ring_buffer_increment_read rb =
     (let p = rb_read_ptr rb + 1 in rb\<lparr>rb_read_ptr := (if p = rb_size rb then 0 else p)\<rparr>)"

definition ring_buffer_increment_write :: "'a ring_buffer_t_scheme \<Rightarrow> 'a ring_buffer_t_scheme" where
  "ring_buffer_increment_write rb =
     (let p = rb_write_ptr rb + 1 in rb\<lparr>rb_write_ptr := (if p = rb_size rb then 0 else p)\<rparr>)"

section \<open>Waking\<close>

definition wake_readers :: "bool \<Rightarrow> 'a ring_buffer_t_scheme \<Rightarrow> 'a ring_buffer_t_scheme" where
  "wake_readers interrupted rb =
     rb\<lparr>rb_readers := [], rb_woken := rb_woken rb @ map (\<lambda>p. (p, interrupted)) (rev (rb_readers rb))\<rparr>"

definition wake_writers :: "bool \<Rightarrow> 'a ring_buffer_t_scheme \<Rightarrow> 'a ring_buffer_t_scheme" where
  "wake_writers interrupted rb =
     rb\<lparr>rb_writers := [], rb_woken := rb_woken rb @ map (\<lambda>p. (p, interrupted)) (rev (rb_writers rb))\<rparr>"

definition ring_buffer_alert_waiters :: "'a ring_buffer_t_scheme \<Rightarrow> 'a ring_buffer_t_scheme" where
  "ring_buffer_alert_waiters rb =
     (case rb_alert_waiters rb of None \<Rightarrow> rb | Some ps \<Rightarrow> rb\<lparr>rb_alert_waiters := Some []\<rparr>)"

definition ring_buffer_select_wait :: "nat \<Rightarrow> 'a ring_buffer_t_scheme \<Rightarrow> 'a ring_buffer_t_scheme" where
  "ring_buffer_select_wait process rb =
     (let waiters = (case rb_alert_waiters rb of None \<Rightarrow> [] | Some ps \<Rightarrow> ps)
      in rb\<lparr>rb_alert_waiters := Some (if process \<in> set waiters then waiters else waiters @ [process]),
            rb_node_waits := rb_node_waits rb @ [process]\<rparr>)"

section \<open>Reading and writing\<close>

definition ring_take :: "'a ring_buffer_t_scheme \<Rightarrow> (u8 \<times> 'a ring_buffer_t_scheme) option" where
  "ring_take rb = do {
     b \<leftarrow> nth_opt (rb_buffer rb) (nat (rb_read_ptr rb));
     Some (b, ring_buffer_increment_read rb) }"

definition ring_put :: "u8 \<Rightarrow> 'a ring_buffer_t_scheme \<Rightarrow> 'a ring_buffer_t_scheme option" where
  "ring_put b rb = do {
     buf \<leftarrow> upd_opt (rb_buffer rb) (nat (rb_write_ptr rb)) b;
     Some (ring_buffer_increment_write (rb\<lparr>rb_buffer := buf\<rparr>)) }"

fun ring_collect :: "nat \<Rightarrow> 'a ring_buffer_t_scheme \<Rightarrow> (u8 list \<times> 'a ring_buffer_t_scheme) option" where
  "ring_collect 0 rb = Some ([], rb)"
| "ring_collect (Suc n) rb =
     (if ring_buffer_unread rb > 0 then do {
        (b, rb) \<leftarrow> ring_take rb;
        (bs, rb) \<leftarrow> ring_collect n rb;
        Some (b # bs, rb) }
      else Some ([], rb))"

fun ring_deposit :: "u8 list \<Rightarrow> 'a ring_buffer_t_scheme \<Rightarrow> (u8 list \<times> 'a ring_buffer_t_scheme) option" where
  "ring_deposit [] rb = Some ([], rb)"
| "ring_deposit (b # bs) rb =
     (if ring_buffer_available rb > 0 then do { rb \<leftarrow> ring_put b rb; ring_deposit bs rb }
      else Some (b # bs, rb))"

text \<open>
  The result of a call that returns: the bytes transferred (for a read) or their number (for a write)
  and the sleeps not used.
\<close>
fun ring_buffer_read :: "nat \<Rightarrow> 'a ring_buffer_t_scheme sleeps \<Rightarrow> int \<Rightarrow> 'a ring_buffer_t_scheme \<Rightarrow>
    (u8 list \<times> 'a ring_buffer_t_scheme sleeps, 'a ring_buffer_t_scheme) call option" where
  "ring_buffer_read me sleeps sz rb = do {
     (bs, rb) \<leftarrow> ring_collect (nat sz) rb;
     let rb = wake_writers False rb;
     if bs \<noteq> [] then Some (Returns (bs, sleeps) (wake_writers False rb))
     else
       let rb = rb\<lparr>rb_readers := rb_readers rb @ [me]\<rparr>
       in case sleeps of
            [] \<Rightarrow> Some (Blocked rb)
          | e # sleeps \<Rightarrow>
              let (rb, interrupted) = e rb
              in if interrupted \<and> rb_internal_stop rb
                 then Some (Returns ([], sleeps) (wake_writers False (rb\<lparr>rb_internal_stop := False\<rparr>)))
                 else ring_buffer_read me sleeps sz rb }"

definition wake_after_write :: "'a ring_buffer_t_scheme \<Rightarrow> 'a ring_buffer_t_scheme" where
  "wake_after_write rb = ring_buffer_alert_waiters (wake_readers False rb)"

fun ring_buffer_write :: "nat \<Rightarrow> 'a ring_buffer_t_scheme sleeps \<Rightarrow> u8 list \<Rightarrow> nat \<Rightarrow> 'a ring_buffer_t_scheme \<Rightarrow>
    (nat \<times> 'a ring_buffer_t_scheme sleeps, 'a ring_buffer_t_scheme) call option" where
  "ring_buffer_write me sleeps bs written rb =
     (if bs = [] then Some (Returns (written, sleeps) (wake_after_write rb))
      else do {
        (rest, rb) \<leftarrow> ring_deposit bs rb;
        let written = written + (length bs - length rest);
        let rb = wake_after_write rb;
        if rest = [] \<or> rb_discard rb then Some (Returns (written, sleeps) (wake_after_write rb))
        else
          let rb = rb\<lparr>rb_writers := rb_writers rb @ [me]\<rparr>
          in case sleeps of
               [] \<Rightarrow> Some (Blocked rb)
             | e # sleeps \<Rightarrow>
                 let (rb, interrupted) = e rb
                 in if interrupted \<and> rb_internal_stop rb
                    then Some (Returns (written, sleeps) (wake_after_write (rb\<lparr>rb_internal_stop := False\<rparr>)))
                    else ring_buffer_write me sleeps rest written rb })"

section \<open>Lifetime\<close>

text \<open>The function \<open>fill\<close> is what the allocator left in the block.\<close>
definition ring_buffer_create :: "int \<Rightarrow> (nat \<Rightarrow> u8) \<Rightarrow> ring_buffer_t" where
  "ring_buffer_create sz fill =
     \<lparr>rb_buffer = map fill [0..<nat sz], rb_write_ptr = 0, rb_read_ptr = 0, rb_size = sz, rb_readers = [],
      rb_writers = [], rb_internal_stop = False, rb_alert_waiters = None, rb_discard = False,
      rb_woken = [], rb_node_waits = []\<rparr>"

definition ring_buffer_destroy :: "'a ring_buffer_t_scheme \<Rightarrow> 'a ring_buffer_t_scheme" where
  "ring_buffer_destroy rb =
     (let rb = ring_buffer_alert_waiters (wake_readers False (wake_writers False (rb\<lparr>rb_buffer := []\<rparr>)))
      in rb\<lparr>rb_alert_waiters := None\<rparr>)"

definition ring_buffer_interrupt :: "'a ring_buffer_t_scheme \<Rightarrow> 'a ring_buffer_t_scheme" where
  "ring_buffer_interrupt rb = wake_writers True (wake_readers True (rb\<lparr>rb_internal_stop := True\<rparr>))"

declare ring_buffer_read.simps [simp del] ring_buffer_write.simps [simp del]

section \<open>Unix pipes\<close>

record unix_pipe = ring_buffer_t +
  up_read_closed :: bool
  up_write_closed :: bool
  up_sigpipe :: "nat list"

text \<open>
  \<^verbatim>\<open>read_unixpipe\<close> takes its bytes one at a time and stops after a newline; \<open>acc\<close> holds the bytes
  stored so far and \<open>n\<close> how many are still wanted.  \<^verbatim>\<open>write_unixpipe\<close> gives them one at a time; a
  closed read end makes it handle SIGPIPE, recorded in \<open>up_sigpipe\<close>.
\<close>
partial_function (option) read_unixpipe :: "nat \<Rightarrow> unix_pipe sleeps \<Rightarrow> nat \<Rightarrow> u8 list \<Rightarrow> unix_pipe \<Rightarrow>
    (u8 list \<times> unix_pipe sleeps, unix_pipe) call option" where
  "read_unixpipe me sleeps n acc self =
     (if n = 0 then Some (Returns (acc, sleeps) self)
      else if up_write_closed self \<and> ring_buffer_unread self = 0 then Some (Returns (acc, sleeps) self)
      else do {
        r \<leftarrow> ring_buffer_read me sleeps 1 self;
        (case r of
           Blocked self \<Rightarrow> Some (Blocked self)
         | Returns ret self \<Rightarrow>
             (if fst ret \<noteq> [] \<and> hd (fst ret) = 10 then Some (Returns (acc @ fst ret, snd ret) self)
              else read_unixpipe me (snd ret) (n - length (fst ret)) (acc @ fst ret) self)) })"

partial_function (option) write_unixpipe :: "nat \<Rightarrow> unix_pipe sleeps \<Rightarrow> u8 list \<Rightarrow> nat \<Rightarrow> unix_pipe \<Rightarrow>
    (nat \<times> unix_pipe sleeps, unix_pipe) call option" where
  "write_unixpipe me sleeps bs written self =
     (if bs = [] then Some (Returns (written, sleeps) self)
      else if up_read_closed self
      then Some (Returns (written, sleeps) (self\<lparr>up_sigpipe := up_sigpipe self @ [me]\<rparr>))
      else do {
        r \<leftarrow> ring_buffer_write me sleeps [hd bs] 0 self;
        (case r of
           Blocked self \<Rightarrow> Some (Blocked self)
         | Returns ret self \<Rightarrow>
             write_unixpipe me (snd ret) (drop (fst ret) bs) (written + fst ret) self) })"

definition close_complete :: "unix_pipe \<Rightarrow> unix_pipe" where
  "close_complete self = ring_buffer_destroy self"

definition close_read_pipe :: "unix_pipe \<Rightarrow> unix_pipe" where
  "close_read_pipe self =
     (let self = self\<lparr>up_read_closed := True\<rparr>
      in if up_write_closed self then self else ring_buffer_interrupt self)"

definition close_write_pipe :: "unix_pipe \<Rightarrow> unix_pipe" where
  "close_write_pipe self =
     (let self = self\<lparr>up_write_closed := True\<rparr>
      in if up_read_closed self then self else ring_buffer_interrupt self)"

definition check_pipe :: "unix_pipe \<Rightarrow> int" where
  "check_pipe self = (if ring_buffer_unread self > 0 then 0 else 1)"

definition wait_pipe :: "nat \<Rightarrow> unix_pipe \<Rightarrow> unix_pipe" where
  "wait_pipe process self = ring_buffer_select_wait process self"

definition make_unix_pipe :: "(nat \<Rightarrow> u8) \<Rightarrow> unix_pipe" where
  "make_unix_pipe fill = ring_buffer_t.extend (ring_buffer_create 512 fill) (unix_pipe.fields False False [])"

section \<open>The queue a ring buffer holds\<close>

definition rb_inv :: "'a ring_buffer_t_scheme \<Rightarrow> bool" where
  "rb_inv rb \<longleftrightarrow> 0 < rb_size rb \<and> length (rb_buffer rb) = nat (rb_size rb)
     \<and> 0 \<le> rb_read_ptr rb \<and> rb_read_ptr rb < rb_size rb
     \<and> 0 \<le> rb_write_ptr rb \<and> rb_write_ptr rb < rb_size rb"

text \<open>The cells from the read pointer on, as many as are unread.\<close>
definition ring_cells :: "'b list \<Rightarrow> nat \<Rightarrow> nat \<Rightarrow> 'b list" where
  "ring_cells buf r n = map (\<lambda>i. buf ! ((r + i) mod length buf)) [0..<n]"

definition rb_contents :: "'a ring_buffer_t_scheme \<Rightarrow> u8 list" where
  "rb_contents rb = ring_cells (rb_buffer rb) (nat (rb_read_ptr rb)) (nat (ring_buffer_unread rb))"

definition rb_capacity :: "'a ring_buffer_t_scheme \<Rightarrow> nat" where
  "rb_capacity rb = nat (rb_size rb) - 1"

lemma ring_cells_Cons:
  "r < length buf \<Longrightarrow> ring_cells buf r (Suc n) = buf ! r # ring_cells buf (Suc r mod length buf) n"
  by (simp add: ring_cells_def map_upt_Suc mod_simps add.commute [of r] del: upt_Suc)

lemma mod_shift_inj:
  assumes "i < n" "n < L"
  shows "(r + i) mod L \<noteq> (r + n) mod (L :: nat)"
proof
  assume "(r + i) mod L = (r + n) mod L"
  then have "L dvd (r + n) - (r + i)" using assms by (metis add_le_cancel_left less_imp_le mod_eq_dvd_iff_nat)
  then show False using assms by (auto dest: dvd_imp_le)
qed

lemma ring_cells_snoc:
  assumes "r < length buf" "n < length buf"
  shows "ring_cells (buf[(r + n) mod length buf := b]) r (Suc n) = ring_cells buf r n @ [b]"
proof -
  have "(r + n) mod length buf \<noteq> (r + i) mod length buf" if "i < n" for i
    using mod_shift_inj [OF that assms(2), of r] by simp
  moreover have "(r + n) mod length buf < length buf" using assms(1) by (intro mod_less_divisor) linarith
  ultimately show ?thesis by (simp add: ring_cells_def)
qed

lemma ring_take_law:
  assumes "rb_inv rb" and "rb_contents rb = b # bs"
  shows "\<exists>rb'. ring_take rb = Some (b, rb') \<and> rb_inv rb' \<and> rb_contents rb' = bs
               \<and> rb_capacity rb' = rb_capacity rb"
proof -
  let ?r = "nat (rb_read_ptr rb)" and ?L = "length (rb_buffer rb)"
  let ?rb = "ring_buffer_increment_read rb"
  have inv: "rb_inv ?rb" using assms(1) by (auto simp: rb_inv_def ring_buffer_increment_read_def Let_def)
  have "nat (ring_buffer_unread rb) \<noteq> 0" using assms(2) by (auto simp: rb_contents_def ring_cells_def)
  then have n: "nat (ring_buffer_unread rb) = Suc (nat (ring_buffer_unread ?rb))"
    using assms(1)
    by (auto simp: rb_inv_def ring_buffer_unread_def ring_buffer_increment_read_def Let_def split: if_splits)
  have r: "?r < ?L" "nat (rb_read_ptr ?rb) = Suc ?r mod ?L"
    using assms(1) by (auto simp: rb_inv_def ring_buffer_increment_read_def Let_def mod_Suc nat_add_distrib)
  have "rb_buffer ?rb = rb_buffer rb" "rb_size ?rb = rb_size rb"
    by (simp_all add: ring_buffer_increment_read_def Let_def)
  then have "b = rb_buffer rb ! ?r" "rb_contents ?rb = bs" "rb_capacity ?rb = rb_capacity rb"
    using assms(2) r by (simp_all add: rb_contents_def n ring_cells_Cons rb_capacity_def)
  then show ?thesis using r(1) inv by (simp add: ring_take_def)
qed

lemma ring_unread_length: "rb_inv rb \<Longrightarrow> ring_buffer_unread rb = int (length (rb_contents rb))"
  by (auto simp: rb_inv_def rb_contents_def ring_cells_def ring_buffer_unread_def)

lemma ring_available_room:
  "rb_inv rb \<Longrightarrow> ring_buffer_available rb = int (rb_capacity rb) - int (length (rb_contents rb))"
  by (auto simp: rb_inv_def rb_contents_def ring_cells_def ring_buffer_unread_def ring_buffer_available_def
      rb_capacity_def)

lemma ring_put_law:
  assumes "rb_inv rb" and "length (rb_contents rb) < rb_capacity rb"
  shows "\<exists>rb'. ring_put b rb = Some rb' \<and> rb_inv rb' \<and> rb_contents rb' = rb_contents rb @ [b]
               \<and> rb_capacity rb' = rb_capacity rb"
proof -
  let ?r = "nat (rb_read_ptr rb)" and ?w = "nat (rb_write_ptr rb)" and ?L = "length (rb_buffer rb)"
  let ?n = "nat (ring_buffer_unread rb)"
  let ?rb = "ring_buffer_increment_write (rb\<lparr>rb_buffer := (rb_buffer rb)[?w := b]\<rparr>)"
  have inv: "rb_inv ?rb" using assms(1) by (auto simp: rb_inv_def ring_buffer_increment_write_def Let_def)
  have room: "?n < rb_capacity rb" using assms by (simp add: ring_unread_length)
  then have n: "nat (ring_buffer_unread ?rb) = Suc ?n"
    using assms(1)
    by (auto simp: rb_inv_def ring_buffer_unread_def ring_buffer_increment_write_def Let_def rb_capacity_def
        split: if_splits)
  have w: "?r < ?L" "?n < ?L" "?w < ?L"
    using assms(1) room by (auto simp: rb_inv_def rb_capacity_def)
  have "?r + ?n = ?w \<or> ?r + ?n = ?w + ?L"
    using assms(1) by (auto simp: rb_inv_def ring_buffer_unread_def)
  then have w3: "?w = (?r + ?n) mod ?L" using w(3) by auto
  have "rb_contents ?rb = ring_cells ((rb_buffer rb)[?w := b]) ?r (Suc ?n)"
    by (simp add: rb_contents_def n) (simp add: ring_buffer_increment_write_def Let_def)
  also have "\<dots> = rb_contents rb @ [b]"
    using ring_cells_snoc [OF w(1,2), of b] w3 by (simp add: rb_contents_def)
  finally show ?thesis
    using inv w(3) by (simp add: ring_put_def) (simp add: rb_capacity_def ring_buffer_increment_write_def Let_def)
qed

interpretation rbq: byte_fifo rb_inv rb_contents rb_capacity ring_buffer_unread ring_buffer_available
  ring_take ring_put
  using ring_unread_length ring_available_room ring_take_law ring_put_law by unfold_locales

lemma ring_collect_eq: "ring_collect n = rbq.collect n"
  by (rule ext, induction n) (simp_all add: fun_eq_iff)

lemma ring_deposit_eq: "ring_deposit bs = rbq.deposit bs"
proof (induction bs)
  case (Cons b bs)
  show ?case by (rule ext) (simp add: Cons.IH)
qed (simp add: fun_eq_iff)


section \<open>Frames\<close>

lemma rb_wake_frame [simp]:
  "rb_inv (wake_readers i rb) = rb_inv rb" "rb_inv (wake_writers i rb) = rb_inv rb"
  "rb_contents (wake_readers i rb) = rb_contents rb" "rb_contents (wake_writers i rb) = rb_contents rb"
  "rb_capacity (wake_readers i rb) = rb_capacity rb" "rb_capacity (wake_writers i rb) = rb_capacity rb"
  "rb_discard (wake_readers i rb) = rb_discard rb"
  by (simp_all add: wake_readers_def wake_writers_def rb_inv_def rb_contents_def rb_capacity_def
      ring_buffer_unread_def)

lemma rb_queue_frame [simp]:
  "rb_inv (rb\<lparr>rb_readers := q\<rparr>) = rb_inv rb" "rb_contents (rb\<lparr>rb_readers := q\<rparr>) = rb_contents rb"
  "rb_inv (rb\<lparr>rb_writers := q\<rparr>) = rb_inv rb" "rb_contents (rb\<lparr>rb_writers := q\<rparr>) = rb_contents rb"
  "rb_capacity (rb\<lparr>rb_writers := q\<rparr>) = rb_capacity rb"
  by (simp_all add: rb_inv_def rb_contents_def ring_buffer_unread_def rb_capacity_def)

lemma rb_alert_frame [simp]:
  "rb_inv (ring_buffer_alert_waiters rb) = rb_inv rb"
  "rb_contents (ring_buffer_alert_waiters rb) = rb_contents rb"
  "rb_capacity (ring_buffer_alert_waiters rb) = rb_capacity rb"
  "rb_discard (ring_buffer_alert_waiters rb) = rb_discard rb"
  by (auto simp: ring_buffer_alert_waiters_def rb_inv_def rb_contents_def ring_buffer_unread_def
      rb_capacity_def split: option.splits)

lemma wake_after_write_frame [simp]:
  "rb_inv (wake_after_write rb) = rb_inv rb" "rb_contents (wake_after_write rb) = rb_contents rb"
  "rb_capacity (wake_after_write rb) = rb_capacity rb" "rb_discard (wake_after_write rb) = rb_discard rb"
  by (simp_all add: wake_after_write_def)

lemma rb_contents_capacity: "rb_inv rb \<Longrightarrow> length (rb_contents rb) \<le> rb_capacity rb"
  by (auto simp: rb_inv_def rb_contents_def ring_cells_def ring_buffer_unread_def rb_capacity_def)

lemma ring_put_discard: "ring_put b rb = Some rb' \<Longrightarrow> rb_discard rb' = rb_discard rb"
  by (auto simp: ring_put_def upd_opt_def ring_buffer_increment_write_def Let_def split: if_splits)

lemma ring_deposit_discard: "ring_deposit bs rb = Some (rest, rb') \<Longrightarrow> rb_discard rb' = rb_discard rb"
  by (induction bs arbitrary: rb) (auto simp: bind_eq_Some_conv dest!: ring_put_discard split: if_splits)

section \<open>Reading\<close>

lemma ring_read_now:
  assumes "rb_inv rb" and "rb_contents rb \<noteq> []" and "0 < sz"
  shows "\<exists>rb'. ring_buffer_read me sleeps sz rb = Some (Returns (take (nat sz) (rb_contents rb), sleeps) rb')
               \<and> rb_inv rb' \<and> rb_contents rb' = drop (nat sz) (rb_contents rb)"
proof -
  obtain rb1 where rb1: "ring_collect (nat sz) rb = Some (take (nat sz) (rb_contents rb), rb1)"
    "rb_inv rb1" "rb_contents rb1 = drop (nat sz) (rb_contents rb)"
    using rbq.collect_contents [OF assms(1), of "nat sz"] by (auto simp: ring_collect_eq)
  then show ?thesis using assms(2,3) by (simp add: ring_buffer_read.simps [of me sleeps])
qed

text \<open>The state a reader goes to sleep in, and a sequence of sleeps that all find nothing to read.\<close>
definition asleep :: "nat \<Rightarrow> 'a ring_buffer_t_scheme \<Rightarrow> 'a ring_buffer_t_scheme" where
  "asleep me rb = (let rb = wake_writers False rb in rb\<lparr>rb_readers := rb_readers rb @ [me]\<rparr>)"

inductive waits :: "nat \<Rightarrow> 'a ring_buffer_t_scheme sleeps \<Rightarrow> 'a ring_buffer_t_scheme \<Rightarrow>
    'a ring_buffer_t_scheme \<Rightarrow> bool" where
  waits_done: "waits me [] rb rb"
| waits_step: "rb_contents rb = [] \<Longrightarrow> e (asleep me rb) = (rb1, interrupted) \<Longrightarrow>
    \<not> (interrupted \<and> rb_internal_stop rb1) \<Longrightarrow> rb_inv rb1 \<Longrightarrow> waits me es rb1 rb2 \<Longrightarrow>
    waits me (e # es) rb rb2"

lemma ring_read_sleeps:
  assumes "rb_inv rb" and "rb_contents rb = []"
  shows "ring_buffer_read me sleeps sz rb =
    (case sleeps of [] \<Rightarrow> Some (Blocked (asleep me rb))
     | e # es \<Rightarrow> (case e (asleep me rb) of (rb1, interrupted) \<Rightarrow>
         if interrupted \<and> rb_internal_stop rb1
         then Some (Returns ([], es) (wake_writers False (rb1\<lparr>rb_internal_stop := False\<rparr>)))
         else ring_buffer_read me es sz rb1))"
proof -
  have "ring_buffer_unread rb = 0" using ring_unread_length [OF assms(1)] assms(2) by simp
  then have "ring_collect (nat sz) rb = Some ([], rb)" by (cases "nat sz") auto
  then show ?thesis
    by (simp add: ring_buffer_read.simps [of me sleeps] asleep_def Let_def split: list.split)
qed

lemma waits_inv: "waits me es rb rb2 \<Longrightarrow> rb_inv rb \<Longrightarrow> rb_inv rb2"
  by (induction rule: waits.induct) auto

lemma ring_read_after_waits:
  assumes "waits me es rb rb2" and "rb_inv rb"
  shows "ring_buffer_read me (es @ sleeps) sz rb = ring_buffer_read me sleeps sz rb2"
  using assms
proof (induction rule: waits.induct)
  case (waits_step rb e me rb1 interrupted es rb2)
  then show ?case by (auto simp: ring_read_sleeps)
qed simp

section \<open>Writing\<close>

lemma ring_deposit_law:
  assumes "rb_inv rb"
  shows "\<exists>rb'. ring_deposit bs rb = Some (drop (rb_capacity rb - length (rb_contents rb)) bs, rb') \<and> rb_inv rb'
     \<and> rb_contents rb' = rb_contents rb @ take (rb_capacity rb - length (rb_contents rb)) bs
     \<and> rb_capacity rb' = rb_capacity rb \<and> rb_discard rb' = rb_discard rb"
  using rbq.deposit_contents [OF assms rb_contents_capacity [OF assms], of bs] ring_deposit_discard
  by (metis ring_deposit_eq)

definition rb_room :: "'a ring_buffer_t_scheme \<Rightarrow> nat" where
  "rb_room rb = rb_capacity rb - length (rb_contents rb)"

lemma ring_write_done:
  assumes "rb_inv rb" and "length bs \<le> rb_room rb \<or> rb_discard rb"
  shows "\<exists>rb'. ring_buffer_write me sleeps bs 0 rb = Some (Returns (min (rb_room rb) (length bs), sleeps) rb')
           \<and> rb_inv rb' \<and> rb_contents rb' = rb_contents rb @ take (rb_room rb) bs \<and> rb_capacity rb' = rb_capacity rb
           \<and> rb_discard rb' = rb_discard rb"
proof (cases "bs = []")
  case True
  then show ?thesis using assms by (simp add: ring_buffer_write.simps [of me sleeps])
next
  case False
  obtain rb1 where rb1: "ring_deposit bs rb = Some (drop (rb_room rb) bs, rb1)" "rb_inv rb1"
    "rb_contents rb1 = rb_contents rb @ take (rb_room rb) bs" "rb_capacity rb1 = rb_capacity rb"
    "rb_discard rb1 = rb_discard rb"
    using ring_deposit_law [OF assms(1), of bs] unfolding rb_room_def by blast
  have "length bs - length (drop (rb_room rb) bs) = min (rb_room rb) (length bs)" by simp
  moreover have "drop (rb_room rb) bs = [] \<or> rb_discard rb1" using assms(2) rb1(5) by simp
  ultimately have "ring_buffer_write me sleeps bs 0 rb =
      Some (Returns (min (rb_room rb) (length bs), sleeps) (wake_after_write (wake_after_write rb1)))"
    using False rb1(1) by (simp add: ring_buffer_write.simps [of me sleeps] del: length_drop)
  then show ?thesis using rb1 by (intro exI [of _ "wake_after_write (wake_after_write rb1)"]) simp
qed

lemma ring_write_blocks:
  assumes "rb_inv rb" and "rb_room rb < length bs" and "\<not> rb_discard rb"
  shows "\<exists>rb'. ring_buffer_write me [] bs 0 rb = Some (Blocked rb') \<and> rb_inv rb'
           \<and> rb_contents rb' = rb_contents rb @ take (rb_room rb) bs
           \<and> length (rb_contents rb') = rb_capacity rb' \<and> me \<in> set (rb_writers rb')"
proof -
  obtain rb1 where rb1: "ring_deposit bs rb = Some (drop (rb_room rb) bs, rb1)" "rb_inv rb1"
    "rb_contents rb1 = rb_contents rb @ take (rb_room rb) bs" "rb_capacity rb1 = rb_capacity rb"
    "rb_discard rb1 = rb_discard rb"
    using ring_deposit_law [OF assms(1), of bs] unfolding rb_room_def by blast
  let ?rb = "wake_after_write rb1"
  have "bs \<noteq> []" "drop (rb_room rb) bs \<noteq> []" using assms(2) by auto
  then have "ring_buffer_write me [] bs 0 rb = Some (Blocked (?rb\<lparr>rb_writers := rb_writers ?rb @ [me]\<rparr>))"
    using rb1(1,5) assms(3) by (simp add: ring_buffer_write.simps [of me "[]"] Let_def)
  moreover have "length (rb_contents rb1) = rb_capacity rb1"
    using rb1(3,4) assms(2) rb_contents_capacity [OF assms(1)] by (simp add: rb_room_def)
  ultimately show ?thesis using rb1 by (intro exI [of _ "?rb\<lparr>rb_writers := rb_writers ?rb @ [me]\<rparr>"]) simp
qed

section \<open>Unix pipes carry lines\<close>

lemma wake_more [simp]:
  "ring_buffer_t.more (wake_readers i rb) = ring_buffer_t.more rb"
  "ring_buffer_t.more (wake_writers i rb) = ring_buffer_t.more rb"
  "ring_buffer_t.more (wake_after_write rb) = ring_buffer_t.more rb"
  by (simp_all add: wake_readers_def wake_writers_def wake_after_write_def ring_buffer_alert_waiters_def
      split: option.split)

lemma ring_put_more: "ring_put b rb = Some rb' \<Longrightarrow> ring_buffer_t.more rb' = ring_buffer_t.more rb"
  by (auto simp: ring_put_def upd_opt_def ring_buffer_increment_write_def Let_def split: if_splits)

lemma ring_take_more: "ring_take rb = Some (b, rb') \<Longrightarrow> ring_buffer_t.more rb' = ring_buffer_t.more rb"
  by (auto simp: ring_take_def nth_opt_def ring_buffer_increment_read_def Let_def split: if_splits)

lemma pipe_closed_more:
  "ring_buffer_t.more p' = ring_buffer_t.more p \<Longrightarrow>
   up_read_closed p' = up_read_closed p \<and> up_write_closed p' = up_write_closed p"
  by (cases p; cases p') simp

lemma ring_write_byte:
  assumes "rb_inv p" and "0 < rb_room p"
  shows "\<exists>p'. ring_buffer_write me sleeps [b] 0 p = Some (Returns (1, sleeps) p') \<and> rb_inv p'
     \<and> rb_contents p' = rb_contents p @ [b] \<and> rb_capacity p' = rb_capacity p
     \<and> ring_buffer_t.more p' = ring_buffer_t.more p"
proof -
  have room: "length (rb_contents p) < rb_capacity p" using assms(2) by (simp add: rb_room_def)
  then obtain q where q: "ring_put b p = Some q" "rb_inv q" "rb_contents q = rb_contents p @ [b]"
      "rb_capacity q = rb_capacity p"
    using ring_put_law [OF assms(1)] by blast
  have "ring_buffer_available p > 0" using ring_available_room [OF assms(1)] room by simp
  then have "ring_buffer_write me sleeps [b] 0 p = Some (Returns (1, sleeps) (wake_after_write (wake_after_write q)))"
    using q(1) by (simp add: ring_buffer_write.simps [of me sleeps] Let_def)
  then show ?thesis using q ring_put_more [OF q(1)] by simp
qed

lemma ring_read_byte:
  assumes "rb_inv p" and "rb_contents p = b # bs"
  shows "\<exists>p'. ring_buffer_read me sleeps 1 p = Some (Returns ([b], sleeps) p') \<and> rb_inv p'
     \<and> rb_contents p' = bs \<and> ring_buffer_t.more p' = ring_buffer_t.more p"
proof -
  obtain q where q: "ring_take p = Some (b, q)" "rb_inv q" "rb_contents q = bs"
    using ring_take_law [OF assms] by blast
  have "ring_buffer_unread p > 0" using ring_unread_length [OF assms(1)] assms(2) by simp
  then have "ring_buffer_read me sleeps 1 p = Some (Returns ([b], sleeps) (wake_writers False (wake_writers False q)))"
    using q(1) by (simp add: ring_buffer_read.simps [of me sleeps] numeral_eq_Suc)
  then show ?thesis using q ring_take_more [OF q(1)] by simp
qed

lemma write_unixpipe_fits:
  assumes "rb_inv p" and "length bs \<le> rb_room p" and "\<not> up_read_closed p"
  shows "\<exists>p'. write_unixpipe me sleeps bs w p = Some (Returns (w + length bs, sleeps) p') \<and> rb_inv p'
     \<and> rb_contents p' = rb_contents p @ bs \<and> rb_capacity p' = rb_capacity p
     \<and> ring_buffer_t.more p' = ring_buffer_t.more p"
  using assms
proof (induction bs arbitrary: p w)
  case Nil
  then show ?case by (simp add: write_unixpipe.simps [of me sleeps])
next
  case (Cons b bs)
  have "0 < rb_room p" using Cons.prems(2) by simp
  then obtain q where q: "ring_buffer_write me sleeps [b] 0 p = Some (Returns (1, sleeps) q)" "rb_inv q"
    "rb_contents q = rb_contents p @ [b]" "rb_capacity q = rb_capacity p"
    "ring_buffer_t.more q = ring_buffer_t.more p"
    using ring_write_byte [OF Cons.prems(1)] by blast
  have "\<not> up_read_closed q" "length bs \<le> rb_room q"
    using pipe_closed_more [OF q(5)] Cons.prems(2,3) q(3,4) by (simp_all add: rb_room_def)
  then obtain p' where "write_unixpipe me sleeps bs (w + 1) q = Some (Returns (w + 1 + length bs, sleeps) p')"
    "rb_inv p'" "rb_contents p' = rb_contents q @ bs" "rb_capacity p' = rb_capacity q"
    "ring_buffer_t.more p' = ring_buffer_t.more q"
    using Cons.IH [OF q(2)] by blast
  then show ?case using q Cons.prems(3) by (simp add: write_unixpipe.simps [of me sleeps "b # bs"])
qed

lemma read_unixpipe_line:
  assumes "rb_inv p" and "rb_contents p = l @ 10 # rest" and "10 \<notin> set l" and "length l < n"
  shows "\<exists>p'. read_unixpipe me sleeps n acc p = Some (Returns (acc @ l @ [10], sleeps) p') \<and> rb_inv p'
     \<and> rb_contents p' = rest \<and> ring_buffer_t.more p' = ring_buffer_t.more p"
  using assms
proof (induction l arbitrary: p n acc)
  case Nil
  then show ?case
    using ring_read_byte [OF Nil.prems(1), of 10 rest me sleeps] ring_unread_length [OF Nil.prems(1)]
    by (auto simp: read_unixpipe.simps [of me sleeps n])
next
  case (Cons b l)
  obtain q where q: "ring_buffer_read me sleeps 1 p = Some (Returns ([b], sleeps) q)" "rb_inv q"
    "rb_contents q = l @ 10 # rest" "ring_buffer_t.more q = ring_buffer_t.more p"
    using ring_read_byte [OF Cons.prems(1), of b "l @ 10 # rest"] Cons.prems(2) by auto
  have "10 \<notin> set l" "length l < n - 1" using Cons.prems(3,4) by auto
  then obtain p' where "read_unixpipe me sleeps (n - 1) (acc @ [b]) q = Some (Returns ((acc @ [b]) @ l @ [10], sleeps) p')"
    "rb_inv p'" "rb_contents p' = rest" "ring_buffer_t.more p' = ring_buffer_t.more q"
    using Cons.IH [OF q(2,3), of "n - 1" "acc @ [b]"] by blast
  then show ?case
    using q Cons.prems ring_unread_length [OF Cons.prems(1)]
    by (simp add: read_unixpipe.simps [of me sleeps n])
qed

lemma read_unixpipe_eof:
  assumes "rb_inv p" and "rb_contents p = bs" and "10 \<notin> set bs" and "up_write_closed p" and "length bs \<le> n"
  shows "\<exists>p'. read_unixpipe me sleeps n acc p = Some (Returns (acc @ bs, sleeps) p') \<and> rb_contents p' = []"
  using assms
proof (induction bs arbitrary: p n acc)
  case Nil
  then show ?case
    using ring_unread_length [OF Nil.prems(1)] by (auto simp: read_unixpipe.simps [of me sleeps n])
next
  case (Cons b bs)
  obtain q where q: "ring_buffer_read me sleeps 1 p = Some (Returns ([b], sleeps) q)" "rb_inv q"
    "rb_contents q = bs" "ring_buffer_t.more q = ring_buffer_t.more p"
    using ring_read_byte [OF Cons.prems(1,2)] by blast
  have "up_write_closed q" "10 \<notin> set bs" "length bs \<le> n - 1"
    using pipe_closed_more [OF q(4)] Cons.prems(3-5) by auto
  then obtain p' where "read_unixpipe me sleeps (n - 1) (acc @ [b]) q = Some (Returns ((acc @ [b]) @ bs, sleeps) p')"
    "rb_contents p' = []"
    using Cons.IH [OF q(2,3), of "n - 1" "acc @ [b]"] by blast
  then show ?case
    using q Cons.prems ring_unread_length [OF Cons.prems(1)]
    by (simp add: read_unixpipe.simps [of me sleeps n])
qed

lemma make_unix_pipe_rep:
  "rb_inv (make_unix_pipe fill)" "rb_contents (make_unix_pipe fill) = []" "rb_room (make_unix_pipe fill) = 511"
  "\<not> up_read_closed (make_unix_pipe fill)" "\<not> up_write_closed (make_unix_pipe fill)"
  by (simp_all add: make_unix_pipe_def ring_buffer_create_def ring_buffer_t.defs unix_pipe.defs rb_inv_def
      rb_room_def rb_capacity_def rb_contents_def ring_cells_def ring_buffer_unread_def)

lemma close_write_pipe_frame:
  "rb_inv (close_write_pipe p) = rb_inv p" "rb_contents (close_write_pipe p) = rb_contents p"
  "up_write_closed (close_write_pipe p)"
  by (simp_all add: close_write_pipe_def ring_buffer_interrupt_def Let_def rb_inv_def rb_contents_def
      ring_buffer_unread_def wake_readers_def wake_writers_def)

text \<open>
  C30.  Reads and writes of a ring buffer are queue operations: a reader that is woken (any number of
  times, with the others doing anything that keeps the buffer intact) and finds data returns the
  oldest bytes, at most as many as it asked for, and leaves the others in order.
\<close>
theorem ring_read_returns_when_fed:
  assumes "rb_inv rb" and "waits me es rb rb2" and "rb_contents rb2 \<noteq> []" and "0 < sz"
  shows "\<exists>rb'. ring_buffer_read me (es @ sleeps) sz rb =
             Some (Returns (take (nat sz) (rb_contents rb2), sleeps) rb')
         \<and> rb_inv rb' \<and> rb_contents rb' = drop (nat sz) (rb_contents rb2)"
  using ring_read_now [OF waits_inv [OF assms(2,1)] assms(3,4)]
  by (simp add: ring_read_after_waits [OF assms(2,1)])

text \<open>
  C19.  A write to a ring buffer appends the bytes in order and never more than the capacity: it
  returns the number stored when they fit or the buffer discards, and otherwise fills the buffer and
  blocks with the writer on the queue.
\<close>
theorem ring_write_cases:
  assumes "rb_inv rb"
  shows "if length bs \<le> rb_room rb \<or> rb_discard rb
         then \<exists>rb'. ring_buffer_write me sleeps bs 0 rb = Some (Returns (min (rb_room rb) (length bs), sleeps) rb')
                \<and> rb_inv rb' \<and> rb_contents rb' = rb_contents rb @ take (rb_room rb) bs
         else \<exists>rb'. ring_buffer_write me [] bs 0 rb = Some (Blocked rb') \<and> rb_inv rb'
                \<and> rb_contents rb' = rb_contents rb @ take (rb_room rb) bs
                \<and> length (rb_contents rb') = rb_capacity rb' \<and> me \<in> set (rb_writers rb')"
proof (cases "length bs \<le> rb_room rb \<or> rb_discard rb")
  case True
  then show ?thesis using ring_write_done [OF assms True, of me sleeps] by auto
next
  case False
  then show ?thesis using ring_write_blocks [OF assms, of bs me] by simp
qed

definition ring_demo :: ring_buffer_t where
  "ring_demo = (ring_buffer_create 4 (\<lambda>_. 0))\<lparr>rb_buffer := [1, 2, 3, 4], rb_read_ptr := 3, rb_write_ptr := 1\<rparr>"

lemma ring_demo_rep:
  "rb_inv ring_demo" "rb_contents ring_demo = [4, 1]" "rb_room ring_demo = 1" "\<not> rb_discard ring_demo"
  by (simp_all add: ring_demo_def ring_buffer_create_def rb_inv_def rb_contents_def rb_room_def rb_capacity_def
      ring_buffer_unread_def ring_cells_def upt_rec)

theorem ring_read_returns_when_fed_witness:
  "\<exists>rb'. ring_buffer_read 7 [\<lambda>_. (ring_demo, True)] 1 (ring_buffer_create 4 (\<lambda>_. 0)) = Some (Returns ([4], []) rb')
     \<and> rb_contents rb' = [1]"
proof -
  let ?rb = "ring_buffer_create 4 (\<lambda>_. 0)"
  have inv: "rb_inv ?rb" "rb_contents ?rb = []"
    by (simp_all add: ring_buffer_create_def rb_inv_def rb_contents_def ring_cells_def ring_buffer_unread_def)
  have "waits 7 [\<lambda>_. (ring_demo, True)] ?rb ring_demo"
    by (rule waits_step [OF inv(2) _ _ ring_demo_rep(1) waits_done])
      (simp_all add: ring_demo_def ring_buffer_create_def)
  from ring_read_returns_when_fed [OF inv(1) this, of 1 "[]"] show ?thesis
    by (auto simp: ring_demo_rep)
qed

theorem ring_write_cases_witness:
  "\<exists>rb'. ring_buffer_write 7 [] [8, 9] 0 ring_demo = Some (Blocked rb') \<and> rb_contents rb' = [4, 1, 8]"
  using ring_write_cases [OF ring_demo_rep(1), of "[8, 9]" 7 "[]"]
  by (auto simp: ring_demo_rep)

text \<open>
  C31.  A line of at most 511 bytes written to a fresh Unix pipe is stored without blocking and comes
  back from the next read exactly, newline included; a later read on the pipe with its write end
  closed returns zero bytes instead of blocking.
\<close>
theorem unixpipe_line_roundtrip:
  assumes "10 \<notin> set l" and "length l < 511" and "length l < n"
  shows "\<exists>p1 p2 p3. write_unixpipe w [] (l @ [10]) 0 (make_unix_pipe fill) = Some (Returns (length l + 1, []) p1)
       \<and> read_unixpipe r [] n [] p1 = Some (Returns (l @ [10], []) p2)
       \<and> read_unixpipe r [] n [] (close_write_pipe p2) = Some (Returns ([], []) p3)"
proof -
  note new = make_unix_pipe_rep [of fill]
  obtain p1 where p1: "write_unixpipe w [] (l @ [10]) 0 (make_unix_pipe fill) = Some (Returns (length l + 1, []) p1)"
    "rb_inv p1" "rb_contents p1 = l @ 10 # []"
    using write_unixpipe_fits [OF new(1), of "l @ [10]" w "[]" 0] new assms(2) by auto
  obtain p2 where p2: "read_unixpipe r [] n [] p1 = Some (Returns (l @ [10], []) p2)" "rb_inv p2"
    "rb_contents p2 = []"
    using read_unixpipe_line [OF p1(2,3) assms(1,3), of r "[]" "[]"] by auto
  have inv: "rb_inv (close_write_pipe p2)" "rb_contents (close_write_pipe p2) = []"
    "up_write_closed (close_write_pipe p2)"
    using p2(2,3) by (simp_all add: close_write_pipe_frame)
  show ?thesis
    using p1(1) p2(1) read_unixpipe_eof [OF inv(1,2) _ inv(3), of n r "[]" "[]"] by auto
qed

theorem unixpipe_line_roundtrip_witness:
  "\<exists>p1 p2. write_unixpipe 1 [] [104, 105, 10] 0 (make_unix_pipe (\<lambda>_. 0)) = Some (Returns (3, []) p1)
     \<and> read_unixpipe 2 [] 100 [] p1 = Some (Returns ([104, 105, 10], []) p2)"
  using unixpipe_line_roundtrip [of "[104, 105]" 100 1 "\<lambda>_. 0" 2] by auto

text \<open>
  C32.  Once the read end is closed, a write returns at once with nothing written and the writer
  handles SIGPIPE.
\<close>
theorem unixpipe_write_closed:
  assumes "bs \<noteq> []"
  shows "\<exists>p'. write_unixpipe me sleeps bs 0 (close_read_pipe p) = Some (Returns (0, sleeps) p')
            \<and> up_sigpipe p' = up_sigpipe p @ [me] \<and> rb_contents p' = rb_contents p"
  using assms
  by (simp add: write_unixpipe.simps [of me sleeps bs] close_read_pipe_def ring_buffer_interrupt_def Let_def
      wake_readers_def wake_writers_def rb_contents_def ring_buffer_unread_def)

theorem unixpipe_write_closed_witness:
  "\<exists>p'. write_unixpipe 1 [] [65] 0 (close_read_pipe (make_unix_pipe (\<lambda>_. 0))) = Some (Returns (0, []) p')"
  using unixpipe_write_closed [of "[65]" 1 "[]" "make_unix_pipe (\<lambda>_. 0)"] by auto

end
