(* ===== verification/Pipe.thy ===== *)
theory Pipe
  imports Ringbuffer
begin

text \<open>
  The pipe device of \<^verbatim>\<open>kernel/src/pipe.c\<close>: the same circular buffer as the ring buffer, with a
  reference count and a \<open>dead\<close> flag, and without interruption: a sleep's return value is ignored.
  Wait queues and sleeps are modelled as in theory \<open>Ringbuffer\<close>; \<open>pp_signals\<close> records the
  processes that were sent SIGPIPE.  The file-system node of the pipe has constant fields and is not
  repeated here.
\<close>

record pipe_device_t =
  pp_buffer :: "u8 list"
  pp_write_ptr :: int
  pp_read_ptr :: int
  pp_size :: int
  pp_refcount :: int
  pp_readers :: "nat list"
  pp_writers :: "nat list"
  pp_dead :: bool
  pp_alert_waiters :: "nat list option"
  pp_woken :: "nat list"
  pp_signals :: "nat list"
  pp_node_waits :: "nat list"

definition pipe_unread :: "pipe_device_t \<Rightarrow> int" where
  "pipe_unread p =
     (if pp_read_ptr p = pp_write_ptr p then 0
      else if pp_read_ptr p > pp_write_ptr p then (pp_size p - pp_read_ptr p) + pp_write_ptr p
      else pp_write_ptr p - pp_read_ptr p)"

definition pipe_size :: "pipe_device_t \<Rightarrow> int" where
  "pipe_size p = pipe_unread p"

definition pipe_available :: "pipe_device_t \<Rightarrow> int" where
  "pipe_available p =
     (if pp_read_ptr p = pp_write_ptr p then pp_size p - 1
      else if pp_read_ptr p > pp_write_ptr p then pp_read_ptr p - pp_write_ptr p - 1
      else (pp_size p - pp_write_ptr p) + pp_read_ptr p - 1)"

definition pipe_unsize :: "pipe_device_t \<Rightarrow> int" where
  "pipe_unsize p = pipe_available p"

definition pipe_increment_read :: "pipe_device_t \<Rightarrow> pipe_device_t" where
  "pipe_increment_read p =
     (let r = pp_read_ptr p + 1 in p\<lparr>pp_read_ptr := (if r = pp_size p then 0 else r)\<rparr>)"

definition pipe_increment_write :: "pipe_device_t \<Rightarrow> pipe_device_t" where
  "pipe_increment_write p =
     (let w = pp_write_ptr p + 1 in p\<lparr>pp_write_ptr := (if w = pp_size p then 0 else w)\<rparr>)"

definition pipe_wake_readers :: "pipe_device_t \<Rightarrow> pipe_device_t" where
  "pipe_wake_readers p = p\<lparr>pp_readers := [], pp_woken := pp_woken p @ rev (pp_readers p)\<rparr>"

definition pipe_wake_writers :: "pipe_device_t \<Rightarrow> pipe_device_t" where
  "pipe_wake_writers p = p\<lparr>pp_writers := [], pp_woken := pp_woken p @ rev (pp_writers p)\<rparr>"

definition pipe_alert_waiters :: "pipe_device_t \<Rightarrow> pipe_device_t" where
  "pipe_alert_waiters p =
     (case pp_alert_waiters p of None \<Rightarrow> p | Some ps \<Rightarrow> p\<lparr>pp_alert_waiters := Some []\<rparr>)"

definition pipe_take :: "pipe_device_t \<Rightarrow> (u8 \<times> pipe_device_t) option" where
  "pipe_take p = do {
     b \<leftarrow> nth_opt (pp_buffer p) (nat (pp_read_ptr p));
     Some (b, pipe_increment_read p) }"

definition pipe_put :: "u8 \<Rightarrow> pipe_device_t \<Rightarrow> pipe_device_t option" where
  "pipe_put b p = do {
     buf \<leftarrow> upd_opt (pp_buffer p) (nat (pp_write_ptr p)) b;
     Some (pipe_increment_write (p\<lparr>pp_buffer := buf\<rparr>)) }"

fun pipe_collect :: "nat \<Rightarrow> pipe_device_t \<Rightarrow> (u8 list \<times> pipe_device_t) option" where
  "pipe_collect 0 p = Some ([], p)"
| "pipe_collect (Suc n) p =
     (if pipe_unread p > 0 then do {
        (b, p) \<leftarrow> pipe_take p;
        (bs, p) \<leftarrow> pipe_collect n p;
        Some (b # bs, p) }
      else Some ([], p))"

fun pipe_deposit :: "u8 list \<Rightarrow> pipe_device_t \<Rightarrow> (u8 list \<times> pipe_device_t) option" where
  "pipe_deposit [] p = Some ([], p)"
| "pipe_deposit (b # bs) p =
     (if pipe_available p > 0 then do { p \<leftarrow> pipe_put b p; pipe_deposit bs p }
      else Some (b # bs, p))"

fun pipe_read_loop :: "nat \<Rightarrow> pipe_device_t sleeps \<Rightarrow> nat \<Rightarrow> pipe_device_t \<Rightarrow>
    (u8 list \<times> pipe_device_t sleeps, pipe_device_t) call option" where
  "pipe_read_loop me sleeps sz p = do {
     (bs, p) \<leftarrow> pipe_collect sz p;
     let p = pipe_wake_writers p;
     if bs \<noteq> [] then Some (Returns (bs, sleeps) p)
     else
       let p = p\<lparr>pp_readers := pp_readers p @ [me]\<rparr>
       in case sleeps of
            [] \<Rightarrow> Some (Blocked p)
          | e # sleeps \<Rightarrow> pipe_read_loop me sleeps sz (fst (e p)) }"

definition read_pipe :: "nat \<Rightarrow> pipe_device_t sleeps \<Rightarrow> u32 \<Rightarrow> pipe_device_t \<Rightarrow>
    (u8 list \<times> pipe_device_t sleeps, pipe_device_t) call option" where
  "read_pipe me sleeps sz p =
     (if pp_dead p then Some (Returns ([], sleeps) (p\<lparr>pp_signals := pp_signals p @ [me]\<rparr>))
      else pipe_read_loop me sleeps (unat sz) p)"

fun pipe_write_loop :: "nat \<Rightarrow> pipe_device_t sleeps \<Rightarrow> u8 list \<Rightarrow> nat \<Rightarrow> pipe_device_t \<Rightarrow>
    (nat \<times> pipe_device_t sleeps, pipe_device_t) call option" where
  "pipe_write_loop me sleeps bs written p =
     (if bs = [] then Some (Returns (written, sleeps) p)
      else do {
        (rest, p) \<leftarrow> pipe_deposit bs p;
        let written = written + (length bs - length rest);
        let p = pipe_alert_waiters (pipe_wake_readers p);
        if rest = [] then Some (Returns (written, sleeps) p)
        else
          let p = p\<lparr>pp_writers := pp_writers p @ [me]\<rparr>
          in case sleeps of
               [] \<Rightarrow> Some (Blocked p)
             | e # sleeps \<Rightarrow> pipe_write_loop me sleeps rest written (fst (e p)) })"

definition write_pipe :: "nat \<Rightarrow> pipe_device_t sleeps \<Rightarrow> u8 list \<Rightarrow> pipe_device_t \<Rightarrow>
    (nat \<times> pipe_device_t sleeps, pipe_device_t) call option" where
  "write_pipe me sleeps bs p =
     (if pp_dead p then Some (Returns (0, sleeps) (p\<lparr>pp_signals := pp_signals p @ [me]\<rparr>))
      else pipe_write_loop me sleeps bs 0 p)"

definition open_pipe :: "pipe_device_t \<Rightarrow> pipe_device_t" where
  "open_pipe p = p\<lparr>pp_refcount := pp_refcount p + 1\<rparr>"

definition close_pipe :: "pipe_device_t \<Rightarrow> pipe_device_t" where
  "close_pipe p = p\<lparr>pp_refcount := pp_refcount p - 1\<rparr>"

definition pipe_check :: "pipe_device_t \<Rightarrow> int" where
  "pipe_check p = (if pipe_unread p > 0 then 0 else 1)"

definition pipe_wait :: "nat \<Rightarrow> pipe_device_t \<Rightarrow> pipe_device_t" where
  "pipe_wait process p =
     (let waiters = (case pp_alert_waiters p of None \<Rightarrow> [] | Some ps \<Rightarrow> ps)
      in p\<lparr>pp_alert_waiters := Some (if process \<in> set waiters then waiters else waiters @ [process]),
           pp_node_waits := pp_node_waits p @ [process]\<rparr>)"

definition make_pipe :: "int \<Rightarrow> (nat \<Rightarrow> u8) \<Rightarrow> pipe_device_t" where
  "make_pipe sz fill =
     \<lparr>pp_buffer = map fill [0..<nat sz], pp_write_ptr = 0, pp_read_ptr = 0, pp_size = sz, pp_refcount = 0,
      pp_readers = [], pp_writers = [], pp_dead = False, pp_alert_waiters = None, pp_woken = [],
      pp_signals = [], pp_node_waits = []\<rparr>"

declare pipe_read_loop.simps [simp del] pipe_write_loop.simps [simp del]

section \<open>The queue a pipe holds\<close>

text \<open>The circular buffer inside the pipe, as a ring buffer.\<close>
definition pp_ring :: "pipe_device_t \<Rightarrow> ring_buffer_t" where
  "pp_ring p = (ring_buffer_create (pp_size p) (\<lambda>_. 0))
     \<lparr>rb_buffer := pp_buffer p, rb_read_ptr := pp_read_ptr p, rb_write_ptr := pp_write_ptr p\<rparr>"

lemma pp_ring_simps [simp]:
  "rb_buffer (pp_ring p) = pp_buffer p" "rb_read_ptr (pp_ring p) = pp_read_ptr p"
  "rb_write_ptr (pp_ring p) = pp_write_ptr p" "rb_size (pp_ring p) = pp_size p"
  by (simp_all add: pp_ring_def ring_buffer_create_def)

lemma pipe_ring_ops:
  "pipe_unread p = ring_buffer_unread (pp_ring p)" "pipe_available p = ring_buffer_available (pp_ring p)"
  "map_option (\<lambda>(b, q). (b, pp_ring q)) (pipe_take p) = ring_take (pp_ring p)"
  "map_option pp_ring (pipe_put b p) = ring_put b (pp_ring p)"
  by (simp_all add: pipe_unread_def ring_buffer_unread_def pipe_available_def ring_buffer_available_def
      pipe_take_def ring_take_def pipe_put_def ring_put_def nth_opt_def upd_opt_def pipe_increment_read_def
      ring_buffer_increment_read_def pipe_increment_write_def ring_buffer_increment_write_def Let_def)
    (simp_all add: pp_ring_def ring_buffer_create_def)

definition pp_inv :: "pipe_device_t \<Rightarrow> bool" where
  "pp_inv p \<longleftrightarrow> rb_inv (pp_ring p)"

definition pp_contents :: "pipe_device_t \<Rightarrow> u8 list" where
  "pp_contents p = rb_contents (pp_ring p)"

definition pp_capacity :: "pipe_device_t \<Rightarrow> nat" where
  "pp_capacity p = rb_capacity (pp_ring p)"

interpretation ppq: byte_fifo pp_inv pp_contents pp_capacity pipe_unread pipe_available pipe_take pipe_put
proof
  fix p b bs
  assume inv: "pp_inv p"
  show "pipe_unread p = int (length (pp_contents p))"
    using ring_unread_length inv by (simp add: pp_inv_def pp_contents_def pipe_ring_ops)
  show "pipe_available p = int (pp_capacity p) - int (length (pp_contents p))"
    using ring_available_room inv by (simp add: pp_inv_def pp_contents_def pp_capacity_def pipe_ring_ops)
  show "\<exists>q. pipe_take p = Some (b, q) \<and> pp_inv q \<and> pp_contents q = bs \<and> pp_capacity q = pp_capacity p"
    if "pp_contents p = b # bs"
    using ring_take_law [of "pp_ring p" b bs] inv that
    by (auto simp: pp_inv_def pp_contents_def pp_capacity_def simp flip: pipe_ring_ops(3))
  show "\<exists>q. pipe_put b p = Some q \<and> pp_inv q \<and> pp_contents q = pp_contents p @ [b] \<and> pp_capacity q = pp_capacity p"
    if "length (pp_contents p) < pp_capacity p"
    using ring_put_law [of "pp_ring p" b] inv that
    by (auto simp: pp_inv_def pp_contents_def pp_capacity_def simp flip: pipe_ring_ops(4))
qed

lemma pipe_collect_eq: "pipe_collect n = ppq.collect n"
  by (rule ext, induction n) (simp_all add: fun_eq_iff)

lemma pipe_deposit_eq: "pipe_deposit bs = ppq.deposit bs"
proof (induction bs)
  case (Cons b bs)
  show ?case by (rule ext) (simp add: Cons.IH)
qed (simp add: fun_eq_iff)


section \<open>Transfer\<close>

lemma pp_frame [simp]:
  "pp_ring (pipe_wake_readers p) = pp_ring p" "pp_ring (pipe_wake_writers p) = pp_ring p"
  "pp_ring (pipe_alert_waiters p) = pp_ring p" "pp_ring (p\<lparr>pp_readers := q\<rparr>) = pp_ring p"
  "pp_ring (p\<lparr>pp_writers := q\<rparr>) = pp_ring p"
  by (simp_all add: pp_ring_def pipe_wake_readers_def pipe_wake_writers_def pipe_alert_waiters_def
      split: option.split)

lemma pp_ring_frame:
  "pp_ring q = pp_ring p \<Longrightarrow> pp_inv q = pp_inv p \<and> pp_contents q = pp_contents p \<and> pp_capacity q = pp_capacity p"
  by (simp add: pp_inv_def pp_contents_def pp_capacity_def)

lemma pp_contents_capacity: "pp_inv p \<Longrightarrow> length (pp_contents p) \<le> pp_capacity p"
  using rb_contents_capacity by (auto simp: pp_inv_def pp_contents_def pp_capacity_def)

lemma pipe_read_now:
  assumes "pp_inv p" and "pp_contents p \<noteq> []" and "0 < sz"
  shows "\<exists>q. pipe_read_loop me sleeps sz p = Some (Returns (take sz (pp_contents p), sleeps) q)
             \<and> pp_inv q \<and> pp_contents q = drop sz (pp_contents p)"
proof -
  obtain q where q: "pipe_collect sz p = Some (take sz (pp_contents p), q)"
    "pp_inv q" "pp_contents q = drop sz (pp_contents p)"
    using ppq.collect_contents [OF assms(1), of sz] by (auto simp: pipe_collect_eq)
  then show ?thesis
    using assms(2,3) pp_ring_frame [of "pipe_wake_writers q" q]
    by (simp add: pipe_read_loop.simps [of me sleeps])
qed

text \<open>A sleep during which the readers empty the pipe.\<close>
definition drains :: "(pipe_device_t \<Rightarrow> pipe_device_t \<times> bool) \<Rightarrow> bool" where
  "drains e \<longleftrightarrow> (\<forall>p. pp_inv p \<longrightarrow> pp_inv (fst (e p)) \<and> pp_contents (fst (e p)) = []
      \<and> pp_capacity (fst (e p)) = pp_capacity p)"

lemma pipe_write_loop_drained:
  assumes "pp_inv p" and "pp_contents p = []" and "0 < pp_capacity p"
    and "\<forall>e \<in> set es. drains e" and "length bs \<le> (length es + 1) * pp_capacity p"
  shows "\<exists>j q. j \<le> length es \<and> pipe_write_loop me es bs w p = Some (Returns (w + length bs, drop j es) q)
              \<and> pp_inv q \<and> pp_contents q = drop (j * pp_capacity p) bs \<and> j * pp_capacity p \<le> length bs"
  using assms
proof (induction es arbitrary: bs w p)
  case Nil
  obtain q where q: "pipe_deposit bs p = Some ([], q)" "pp_inv q" "pp_contents q = bs"
    using ppq.deposit_contents [OF Nil.prems(1) pp_contents_capacity [OF Nil.prems(1)], of bs] Nil.prems(2,5)
    by (auto simp: pipe_deposit_eq)
  then show ?case
    using Nil.prems pp_ring_frame [of "pipe_alert_waiters (pipe_wake_readers q)" q]
    by (cases "bs = []") (simp_all add: pipe_write_loop.simps [of me "[]"])
next
  case (Cons e es)
  let ?c = "pp_capacity p"
  show ?case
  proof (cases "bs = []")
    case True
    then show ?thesis using Cons.prems by (intro exI [of _ 0] exI [of _ p]) (simp add: pipe_write_loop.simps [of me "e # es"])
  next
    case False
    obtain q where q: "pipe_deposit bs p = Some (drop ?c bs, q)" "pp_inv q" "pp_contents q = take ?c bs"
        "pp_capacity q = ?c"
      using ppq.deposit_contents [OF Cons.prems(1) pp_contents_capacity [OF Cons.prems(1)], of bs] Cons.prems(2)
      by (auto simp: pipe_deposit_eq)
    let ?q = "pipe_alert_waiters (pipe_wake_readers q)"
    show ?thesis
    proof (cases "length bs \<le> ?c")
      case True
      then show ?thesis
        using False q pp_ring_frame [of ?q q]
        by (intro exI [of _ 0] exI [of _ ?q]) (simp add: pipe_write_loop.simps [of me "e # es"])
    next
      case long: False
      let ?q' = "?q\<lparr>pp_writers := pp_writers ?q @ [me]\<rparr>"
      let ?r = "fst (e ?q')"
      have r: "pp_inv ?r" "pp_contents ?r = []" "pp_capacity ?r = ?c"
        using Cons.prems(4) q(2,4) pp_ring_frame [of ?q' q] by (auto simp: drains_def)
      have "length (drop ?c bs) \<le> (length es + 1) * pp_capacity ?r" using Cons.prems(5) r(3) by simp
      then obtain j s where j: "j \<le> length es"
        "pipe_write_loop me es (drop ?c bs) (w + ?c) ?r = Some (Returns (w + ?c + length (drop ?c bs), drop j es) s)"
        "pp_inv s" "pp_contents s = drop (j * ?c) (drop ?c bs)" "j * ?c \<le> length (drop ?c bs)"
        using Cons.IH [OF r(1,2), of "drop ?c bs" "w + ?c"] Cons.prems(3,4) r(3) by auto
      have "pipe_write_loop me (e # es) bs w p = Some (Returns (w + length bs, drop (Suc j) (e # es)) s)"
        using False long q(1) j(2) by (simp add: pipe_write_loop.simps [of me "e # es"] Let_def)
      then show ?thesis using j long by (intro exI [of _ "Suc j"] exI [of _ s]) (simp add: add.commute)
    qed
  qed
qed

text \<open>
  C33.  A write to an empty pipe of any length completes once the readers have emptied the pipe
  often enough, and every capacity's worth is handed over in order: after \<open>j\<close> drains the
  pipe holds the data from byte \<open>j * capacity\<close> on.
\<close>
theorem pipe_write_completes:
  assumes "pp_inv p" and "pp_contents p = []" and "0 < pp_capacity p" and "\<not> pp_dead p"
    and "\<forall>e \<in> set es. drains e" and "length bs \<le> (length es + 1) * pp_capacity p"
  shows "\<exists>j q. j \<le> length es \<and> write_pipe me es bs p = Some (Returns (length bs, drop j es) q)
              \<and> pp_inv q \<and> pp_contents q = drop (j * pp_capacity p) bs"
  using pipe_write_loop_drained [OF assms(1-3,5,6), of me 0] assms(4) by (auto simp: write_pipe_def)

lemma make_pipe_rep:
  "0 < sz \<Longrightarrow> pp_inv (make_pipe sz fill)" "0 < sz \<Longrightarrow> pp_contents (make_pipe sz fill) = []"
  "pp_capacity (make_pipe sz fill) = nat sz - 1" "\<not> pp_dead (make_pipe sz fill)"
  by (simp_all add: pp_inv_def pp_contents_def pp_capacity_def rb_inv_def rb_contents_def rb_capacity_def
      ring_cells_def ring_buffer_unread_def) (simp_all add: make_pipe_def)

definition drain_all :: "pipe_device_t \<Rightarrow> pipe_device_t \<times> bool" where
  "drain_all p = (p\<lparr>pp_read_ptr := pp_write_ptr p\<rparr>, False)"

lemma drains_drain_all: "drains drain_all"
  by (simp add: drains_def drain_all_def pp_inv_def pp_contents_def pp_capacity_def rb_inv_def rb_contents_def
      rb_capacity_def ring_cells_def ring_buffer_unread_def)

theorem pipe_write_completes_witness:
  "\<exists>j q. j \<le> 1 \<and> write_pipe 7 [drain_all] [1, 2, 3] (make_pipe 3 (\<lambda>_. 0)) = Some (Returns (3, drop j [drain_all]) q)
     \<and> pp_contents q = drop (j * 2) [1, 2, 3]"
  using pipe_write_completes [of "make_pipe 3 (\<lambda>_. 0)" "[drain_all]" "[1, 2, 3]" 7]
  by (auto simp: make_pipe_rep drains_drain_all)

text \<open>
  C34.  A read of zero bytes never returns from a live pipe, whatever the other processes do: its
  loop waits for a byte it is not allowed to take.
\<close>
theorem read_pipe_zero_never_returns:
  assumes "\<not> pp_dead p"
  shows "read_pipe me sleeps 0 p \<noteq> Some (Returns ret q)"
proof -
  have "pipe_read_loop me sleeps 0 p \<noteq> Some (Returns ret q)" for p
  proof (induction sleeps arbitrary: p)
    case Nil
    then show ?case by (simp add: pipe_read_loop.simps [of me "[]"] Let_def)
  next
    case (Cons e es)
    then show ?case by (simp add: pipe_read_loop.simps [of me "e # es"] Let_def)
  qed
  then show ?thesis using assms by (simp add: read_pipe_def)
qed

theorem read_pipe_zero_never_returns_witness:
  "read_pipe 7 [] 0 (make_pipe 3 (\<lambda>_. 0)) \<noteq> Some (Returns ([], []) (make_pipe 3 (\<lambda>_. 0)))"
  using read_pipe_zero_never_returns [OF make_pipe_rep(4)] by blast

end
