(* ===== verification/Frames.thy ===== *)
theory Frames
  imports Kutils
begin

text \<open>
  The first half of \<^verbatim>\<open>kernel/src/mem/mem.c\<close>: the bitmap of physical frames, the operations that
  give frames to page table entries and take them back, the lookups in a page directory, and
  the growth of the kernel heap (\<^verbatim>\<open>sbrk\<close>), on which the heap allocator of theory \<open>Alloc\<close>
  rests; the operations that need the allocator itself are in theory \<open>Paging\<close>.

  A \<^verbatim>\<open>uintptr_t\<close> is a 32-bit word and its arithmetic wraps.  Page directories and page tables
  are objects in two stores indexed by their address, a page table entry is named by the
  address of its table and its index.  \<open>kmem\<close> is the byte memory of the kernel's own address
  space, \<open>phys\<close> the physical memory in dwords.  An access outside an array or to an object
  that does not exist has no result.  \<^verbatim>\<open>panic_assert\<close> counts the failed assertion and returns,
  so the code after a failed assertion runs.
\<close>

unbundle bit_operations_syntax

section \<open>State\<close>

record page_t =
  present :: bool
  rw :: bool
  user :: bool
  writethrough :: bool
  cachedisable :: bool
  unused :: "7 word"
  frame :: "20 word"

type_synonym page_table_t = "page_t list"

record page_directory_t =
  physical_tables :: "u32 list"
  tables :: "u32 list"
  physical_address :: u32
  ref_count :: u32

type_synonym page_ref = "u32 \<times> nat"

record mm =
  placement_pointer :: u32
  heap_end :: u32
  kernel_heap_alloc_point :: u32
  frames :: "u32 list"
  nframes :: u32
  kernel_directory :: u32
  current_directory :: u32
  dirs :: "u32 \<rightharpoonup> page_directory_t"
  tbls :: "u32 \<rightharpoonup> page_table_t"
  kmem :: mem
  phys :: "u32 \<Rightarrow> u32"
  failures :: int

definition KERNEL_HEAP_INIT :: u32 where "KERNEL_HEAP_INIT = 0x00800000"
definition KERNEL_HEAP_END :: u32 where "KERNEL_HEAP_END = 0x20000000"

definition panic_assert :: "bool \<Rightarrow> 'a mm_scheme \<Rightarrow> 'a mm_scheme" where
  "panic_assert b s = (if b then s else s\<lparr>failures := failures s + 1\<rparr>)"

text \<open>A zeroed entry, what \<^verbatim>\<open>memset\<close> leaves in a new table.\<close>
definition zero_page :: page_t where
  "zero_page = \<lparr>present = False, rw = False, user = False, writethrough = False,
                cachedisable = False, unused = 0, frame = 0\<rparr>"

definition rd_page :: "'a mm_scheme \<Rightarrow> page_ref \<Rightarrow> page_t option" where
  "rd_page s r = do { t \<leftarrow> tbls s (fst r); nth_opt t (snd r) }"

definition wr_page :: "page_ref \<Rightarrow> page_t \<Rightarrow> 'a mm_scheme \<Rightarrow> 'a mm_scheme option" where
  "wr_page r p s =
     do { t \<leftarrow> tbls s (fst r); t' \<leftarrow> upd_opt t (snd r) p; Some (s\<lparr>tbls := (tbls s)(fst r \<mapsto> t')\<rparr>) }"

text \<open>
  The loop \<^verbatim>\<open>for (i = i0; i < limit; i += step) body\<close> on 32-bit unsigned counters; the limit is
  evaluated in the state of each iteration.
\<close>
partial_function (option) for_below ::
    "('s \<Rightarrow> u32) \<Rightarrow> u32 \<Rightarrow> (u32 \<Rightarrow> 's \<Rightarrow> 's option) \<Rightarrow> u32 \<Rightarrow> 's \<Rightarrow> 's option" where
  "for_below limit step body i s =
     (if i < limit s
      then (case body i s of None \<Rightarrow> None | Some s' \<Rightarrow> for_below limit step body (i + step) s')
      else Some s)"

section \<open>The frame bitmap\<close>

definition INDEX_FROM_BIT :: "u32 \<Rightarrow> u32" where "INDEX_FROM_BIT b = b div 0x20"
definition OFFSET_FROM_BIT :: "u32 \<Rightarrow> u32" where "OFFSET_FROM_BIT b = b mod 0x20"

definition set_frame :: "u32 \<Rightarrow> 'a mm_scheme \<Rightarrow> 'a mm_scheme option" where
  "set_frame frame_addr s =
     (if frame_addr < nframes s * 4 * 0x400
      then let frame = frame_addr div 0x1000;
               index = unat (INDEX_FROM_BIT frame);
               offset = unat (OFFSET_FROM_BIT frame)
           in do { w \<leftarrow> nth_opt (frames s) index;
                   Some (s\<lparr>frames := (frames s)[index := w OR push_bit offset 1]\<rparr>) }
      else Some s)"

definition clear_frame :: "u32 \<Rightarrow> 'a mm_scheme \<Rightarrow> 'a mm_scheme option" where
  "clear_frame frame_addr s =
     (let frame = frame_addr div 0x1000;
          index = unat (INDEX_FROM_BIT frame);
          offset = unat (OFFSET_FROM_BIT frame)
      in do { w \<leftarrow> nth_opt (frames s) index;
              Some (s\<lparr>frames := (frames s)[index := w AND NOT (push_bit offset 1)]\<rparr>) })"

definition test_frame :: "u32 \<Rightarrow> 'a mm_scheme \<Rightarrow> u32 option" where
  "test_frame frame_addr s =
     (let frame = frame_addr div 0x1000;
          index = unat (INDEX_FROM_BIT frame);
          offset = unat (OFFSET_FROM_BIT frame)
      in do { w \<leftarrow> nth_opt (frames s) index; Some (w AND push_bit offset 1) })"

text \<open>The inner loop: the value of \<^verbatim>\<open>bad\<close> after \<open>n\<close> iterations.\<close>
fun first_n_bad :: "u32 \<Rightarrow> nat \<Rightarrow> 'a mm_scheme \<Rightarrow> int option" where
  "first_n_bad i 0 s = Some 0"
| "first_n_bad i (Suc j) s =
     do { bad \<leftarrow> first_n_bad i j s;
          t \<leftarrow> test_frame (i + 0x1000 * of_nat j) s;
          Some (if t \<noteq> 0 then int j + 1 else bad) }"

partial_function (option) first_n_loop :: "int \<Rightarrow> u32 \<Rightarrow> 'a mm_scheme \<Rightarrow> u32 option" where
  "first_n_loop n i s =
     (if i < nframes s * 0x1000
      then (case first_n_bad i (nat n) s of
              None \<Rightarrow> None
            | Some bad \<Rightarrow> if bad = 0 then Some (i div 0x1000) else first_n_loop n (i + 0x1000) s)
      else Some 0xFFFFFFFF)"

definition first_n_frames :: "int \<Rightarrow> 'a mm_scheme \<Rightarrow> u32 option" where
  "first_n_frames n s = first_n_loop n 0 s"

fun first_frame_loop :: "nat list \<Rightarrow> u32 list \<Rightarrow> u32 option" where
  "first_frame_loop [] ws = Some (- 1)"
| "first_frame_loop (i # is) ws =
     do { w \<leftarrow> nth_opt ws i;
          if w \<noteq> 0xFFFFFFFF
          then (case find (\<lambda>j. w AND push_bit j 1 = 0) [0..<32] of
                  Some j \<Rightarrow> Some (of_nat i * 0x20 + of_nat j)
                | None \<Rightarrow> first_frame_loop is ws)
          else first_frame_loop is ws }"

text \<open>When no frame is left the code shows a message, waits for an interrupt and returns \<open>-1\<close>.\<close>
definition first_frame :: "'a mm_scheme \<Rightarrow> u32 option" where
  "first_frame s = first_frame_loop [0..<unat (INDEX_FROM_BIT (nframes s))] (frames s)"

definition memory_use :: "'a mm_scheme \<Rightarrow> u32 option" where
  "memory_use s =
     do { ret \<leftarrow> fold (\<lambda>i acc. do { ret \<leftarrow> acc;
                                   w \<leftarrow> nth_opt (frames s) i;
                                   Some (fold (\<lambda>j r. if w AND push_bit j 1 \<noteq> 0 then r + 1 else r)
                                           [0..<32] ret) })
            [0..<unat (INDEX_FROM_BIT (nframes s))] (Some 0);
          Some (ret * 4) }"

definition memory_total :: "'a mm_scheme \<Rightarrow> u32" where
  "memory_total s = nframes s * 4"

definition paging_mark_system :: "64 word \<Rightarrow> 'a mm_scheme \<Rightarrow> 'a mm_scheme option" where
  "paging_mark_system addr s = set_frame (ucast addr) s"

section \<open>Frames of page table entries\<close>

text \<open>Both arms of each conditional of the source are \<open>1\<close>: the arguments have no effect.\<close>
definition alloc_frame :: "page_ref \<Rightarrow> int \<Rightarrow> int \<Rightarrow> 'a mm_scheme \<Rightarrow> 'a mm_scheme option" where
  "alloc_frame page is_kernel is_writeable s =
     do { p \<leftarrow> rd_page s page;
          if frame p \<noteq> 0
          then wr_page page (p\<lparr>present := True,
                               rw := (if is_writeable = 1 then True else True),
                               user := (if is_kernel = 1 then True else True)\<rparr>) s
          else do { index \<leftarrow> first_frame s;
                    let s = panic_assert (index \<noteq> - 1) s;
                    s \<leftarrow> set_frame (index * 0x1000) s;
                    wr_page page (p\<lparr>frame := ucast index, present := True,
                                    rw := (if is_writeable = 1 then True else True),
                                    user := (if is_kernel = 1 then True else True)\<rparr>) s } }"

definition dma_frame :: "page_ref \<Rightarrow> int \<Rightarrow> int \<Rightarrow> u32 \<Rightarrow> 'a mm_scheme \<Rightarrow> 'a mm_scheme option" where
  "dma_frame page is_kernel is_writeable address s =
     do { p \<leftarrow> rd_page s page;
          s \<leftarrow> wr_page page (p\<lparr>present := True,
                               rw := (if is_writeable \<noteq> 0 then True else True),
                               user := (if is_kernel \<noteq> 0 then True else True),
                               frame := ucast (address div 0x1000)\<rparr>) s;
          set_frame address s }"

definition free_frame :: "page_ref \<Rightarrow> 'a mm_scheme \<Rightarrow> 'a mm_scheme option" where
  "free_frame page s =
     do { p \<leftarrow> rd_page s page;
          if frame p = 0 then Some (panic_assert False s)
          else do { s \<leftarrow> clear_frame (ucast (frame p) * 0x1000) s;
                    wr_page page (p\<lparr>frame := 0\<rparr>) s } }"

section \<open>Lookups in a directory\<close>

text \<open>
  \<^verbatim>\<open>get_page\<close> with \<open>make\<close> zero, the form that allocates nothing: the entry, or the null
  pointer (the inner \<open>None\<close>).
\<close>
definition get_page_lookup :: "u32 \<Rightarrow> u32 \<Rightarrow> 'a mm_scheme \<Rightarrow> page_ref option option" where
  "get_page_lookup address dir s =
     do { let address = address div 0x1000;
          let table_index = unat (address div 1024);
          d \<leftarrow> dirs s dir;
          t \<leftarrow> nth_opt (tables d) table_index;
          Some (if t \<noteq> 0 then Some (t, unat (address mod 1024)) else None) }"

definition map_to_physical :: "u32 \<Rightarrow> 'a mm_scheme \<Rightarrow> u32 option" where
  "map_to_physical virtual s =
     do { let remaining = virtual mod 0x1000;
          let frame' = virtual div 0x1000;
          let table = unat (frame' div 1024);
          let subframe = unat (frame' mod 1024);
          d \<leftarrow> dirs s (current_directory s);
          t \<leftarrow> nth_opt (tables d) table;
          if t \<noteq> 0
          then do { p \<leftarrow> rd_page s (t, subframe); Some (ucast (frame p) * 0x1000 + remaining) }
          else Some 0 }"

definition switch_page_directory :: "u32 \<Rightarrow> 'a mm_scheme \<Rightarrow> 'a mm_scheme" where
  "switch_page_directory dir s = s\<lparr>current_directory := dir\<rparr>"

section \<open>Growing the kernel heap\<close>

definition heap_install :: "'a mm_scheme \<Rightarrow> 'a mm_scheme" where
  "heap_install s = s\<lparr>heap_end := (placement_pointer s + 0x1000) AND NOT 0xFFF\<rparr>"

definition sbrk_page :: "u32 \<Rightarrow> 'a mm_scheme \<Rightarrow> 'a mm_scheme option" where
  "sbrk_page i s =
     do { page \<leftarrow> get_page_lookup i (kernel_directory s) s;
          let s = panic_assert (page \<noteq> None) s;
          r \<leftarrow> page;
          alloc_frame r 1 0 s }"

definition sbrk :: "u32 \<Rightarrow> 'a mm_scheme \<Rightarrow> (u32 \<times> 'a mm_scheme) option" where
  "sbrk increment s =
     do { let s = panic_assert (increment mod 0x1000 = 0) s;
          let s = panic_assert (heap_end s mod 0x1000 = 0) s;
          let s = panic_assert (heap_end s + increment \<le> KERNEL_HEAP_END - 1) s;
          let address = heap_end s;
          s \<leftarrow> (if heap_end s + increment > kernel_heap_alloc_point s
                then for_below (\<lambda>s. heap_end s + increment) 0x1000 sbrk_page (heap_end s) s
                else Some s);
          let s = s\<lparr>heap_end := heap_end s + increment\<rparr>;
          Some (address, s\<lparr>kmem := memset (unat address) 0 (sint increment) (kmem s)\<rparr>) }"

section \<open>The bitmap as a set of frame numbers\<close>

definition bm :: "u32 list \<Rightarrow> nat \<Rightarrow> bool" where
  "bm ws k = bit (ws ! (k div 32)) (k mod 32)"

definition bm_set :: "u32 list \<Rightarrow> nat \<Rightarrow> u32 list" where
  "bm_set ws k = ws[k div 32 := ws ! (k div 32) OR push_bit (k mod 32) 1]"

definition bm_clear :: "u32 list \<Rightarrow> nat \<Rightarrow> u32 list" where
  "bm_clear ws k = ws[k div 32 := ws ! (k div 32) AND NOT (push_bit (k mod 32) 1)]"

text \<open>The bitmap covers the frames, and their addresses fit in 32 bits.\<close>
definition bm_ok :: "'a mm_scheme \<Rightarrow> bool" where
  "bm_ok s \<longleftrightarrow> unat (nframes s) < 2 ^ 20 \<and> unat (nframes s) div 32 < length (frames s)"

lemma length_bm [simp]: "length (bm_set ws k) = length ws" "length (bm_clear ws k) = length ws"
  by (simp_all add: bm_set_def bm_clear_def)

lemma bit_pow2 [simp]: "j < 32 \<Longrightarrow> bit (2 ^ n :: u32) j \<longleftrightarrow> n = j"
  by (auto simp: bit_exp_iff)

lemma and_pow2_0: "j < 32 \<Longrightarrow> (w :: u32) AND 2 ^ j = 0 \<longleftrightarrow> \<not> bit w j"
  by (auto simp: bit_eq_iff [of _ "0 :: u32"] bit_and_iff)

lemma div_mod_32_eq: "(j :: nat) div 32 = k div 32 \<Longrightarrow> j mod 32 = k mod 32 \<Longrightarrow> j = k"
  by (metis mod_mult_div_eq)

lemma bm_set_iff: "k div 32 < length ws \<Longrightarrow> bm (bm_set ws k) j \<longleftrightarrow> j = k \<or> bm ws j"
  by (cases "j div 32 = k div 32")
     (auto simp: bm_def bm_set_def bit_or_iff dest: div_mod_32_eq)

lemma bm_clear_iff: "k div 32 < length ws \<Longrightarrow> bm (bm_clear ws k) j \<longleftrightarrow> j \<noteq> k \<and> bm ws j"
  by (cases "j div 32 = k div 32")
     (auto simp: bm_def bm_clear_def bit_and_iff bit_not_iff dest: div_mod_32_eq)

lemma frame_addr_parts:
  assumes "k < 2 ^ 20"
  shows "(of_nat k * 0x1000 :: u32) div 0x1000 = of_nat k"
    and "unat (INDEX_FROM_BIT (of_nat k)) = k div 32"
    and "unat (OFFSET_FROM_BIT (of_nat k)) = k mod 32"
proof -
  have "unat (of_nat k * 0x1000 :: u32) = k * 4096"
    using assms by (simp add: unat_word_ariths unat_of_nat_u32)
  then have "unat ((of_nat k * 0x1000 :: u32) div 0x1000) = unat (of_nat k :: u32)"
    using assms by (simp add: unat_div unat_of_nat_u32)
  then show "(of_nat k * 0x1000 :: u32) div 0x1000 = of_nat k" by (simp add: word_unat_eq_iff)
  show "unat (INDEX_FROM_BIT (of_nat k)) = k div 32" "unat (OFFSET_FROM_BIT (of_nat k)) = k mod 32"
    using assms by (simp_all add: INDEX_FROM_BIT_def OFFSET_FROM_BIT_def unat_div unat_mod unat_of_nat_u32)
qed

lemma frame_guard:
  assumes "unat (n :: u32) < 2 ^ 20" "k < 2 ^ 20"
  shows "(of_nat k * 0x1000 :: u32) < n * 4 * 0x400 \<longleftrightarrow> k < unat n"
proof -
  have "unat (of_nat k * 0x1000 :: u32) = k * 4096" "unat (n * 4 * 0x400) = unat n * 4096"
    using assms by (simp_all add: unat_word_ariths unat_of_nat_u32)
  then show ?thesis by (simp add: word_less_nat_alt)
qed

lemma bm_ok_index: "bm_ok s \<Longrightarrow> k < unat (nframes s) \<Longrightarrow> k div 32 < length (frames s)"
  by (auto simp: bm_ok_def intro: le_less_trans [OF div_le_mono])

lemma set_frame_eq:
  assumes "bm_ok s" "k < 2 ^ 20"
  shows "set_frame (of_nat k * 0x1000) s =
    Some (if k < unat (nframes s) then s\<lparr>frames := bm_set (frames s) k\<rparr> else s)"
  using assms bm_ok_index [OF assms(1), of k] frame_guard [of "nframes s" k] frame_addr_parts [of k]
  by (simp add: set_frame_def bm_ok_def bm_set_def Let_def)

lemma clear_frame_eq:
  assumes "k < 2 ^ 20" "k div 32 < length (frames s)"
  shows "clear_frame (of_nat k * 0x1000) s = Some (s\<lparr>frames := bm_clear (frames s) k\<rparr>)"
  using assms frame_addr_parts [of k]
  by (simp add: clear_frame_def bm_clear_def Let_def)

lemma test_frame_eq:
  assumes "k < 2 ^ 20" "k div 32 < length (frames s)"
  shows "\<exists>t. test_frame (of_nat k * 0x1000) s = Some t \<and> (t = 0 \<longleftrightarrow> \<not> bm (frames s) k)"
  using assms frame_addr_parts [of k]
  by (simp add: test_frame_def bm_def Let_def and_pow2_0)

lemma bm_ok_frames [simp]: "length ws = length (frames s) \<Longrightarrow> bm_ok (s\<lparr>frames := ws\<rparr>) = bm_ok s"
  by (simp add: bm_ok_def)

section \<open>The lowest free frame\<close>

definition lowest_free :: "u32 list \<Rightarrow> nat \<Rightarrow> nat \<Rightarrow> bool" where
  "lowest_free ws n k \<longleftrightarrow> k < n \<and> \<not> bm ws k \<and> (\<forall>j<k. bm ws j)"

lemma lowest_free_unique: "lowest_free ws n k \<Longrightarrow> lowest_free ws n k' \<Longrightarrow> k = k'"
  by (metis lowest_free_def nat_neq_iff)

lemma find_clear_bit:
  "find (\<lambda>j. (w :: u32) AND 2 ^ j = 0) [0..<32] = None \<Longrightarrow> \<forall>j<32. bit w j"
  "find (\<lambda>j. (w :: u32) AND 2 ^ j = 0) [0..<32] = Some j \<Longrightarrow>
     j < 32 \<and> \<not> bit w j \<and> (\<forall>i<j. bit w i)"
  by (auto simp: find_None_iff find_Some_iff and_pow2_0)

lemma word_full_iff: "(w :: u32) = 0xFFFFFFFF \<longleftrightarrow> (\<forall>j<32. bit w j)"
proof -
  have "(0xFFFFFFFF :: u32) = - 1" by simp
  then show ?thesis by (simp only:) (auto simp: bit_eq_iff [of w "- 1"])
qed

lemma bm_word: "j < 32 \<Longrightarrow> bm ws (32 * i + j) = bit (ws ! i) j"
  by (simp add: bm_def)

lemma bm_below_Suc:
  assumes "\<forall>j<32 * i. bm ws j" "\<forall>j<m. bit (ws ! i) j" "m \<le> 32"
  shows "\<forall>j<32 * i + m. bm ws j"
proof (intro allI impI)
  fix j assume j: "j < 32 * i + m"
  show "bm ws j"
  proof (cases "j < 32 * i")
    case False
    then have "j = 32 * i + (j - 32 * i)" by simp
    moreover have "j - 32 * i < m" using False j by linarith
    ultimately show ?thesis using assms bm_word [of "j - 32 * i" ws i] by simp
  qed (use assms in blast)
qed

lemma first_frame_loop_spec:
  assumes "i \<le> n" "n \<le> length ws" "\<forall>j<32 * i. bm ws j"
  shows "(\<exists>k. lowest_free ws (32 * n) k \<and> first_frame_loop [i..<n] ws = Some (of_nat k)) \<or>
         (\<forall>k<32 * n. bm ws k) \<and> first_frame_loop [i..<n] ws = Some (- 1)"
  using assms
proof (induction "n - i" arbitrary: i)
  case (Suc d)
  then have i: "i < n" "[i..<n] = i # [Suc i..<n]" by (simp_all add: upt_conv_Cons)
  have next_word: ?case if full: "\<forall>j<32. bit (ws ! i) j"
  proof -
    have "\<forall>j<32 * Suc i. bm ws j" using bm_below_Suc [OF Suc.prems(3) full] by (simp add: add.commute)
    moreover have "find (\<lambda>j. ws ! i AND 2 ^ j = 0) [0..<32] = None"
      using full by (auto simp: find_None_iff and_pow2_0)
    ultimately show ?thesis using Suc.hyps(1) [of "Suc i"] Suc.hyps(2) Suc.prems i
      by (simp add: word_full_iff)
  qed
  show ?case
  proof (cases "find (\<lambda>j. ws ! i AND 2 ^ j = 0) [0..<32]")
    case None
    then show ?thesis using find_clear_bit(1) next_word by blast
  next
    case (Some j)
    note j = find_clear_bit(2) [OF Some]
    then have "lowest_free ws (32 * n) (32 * i + j)"
      using bm_below_Suc [OF Suc.prems(3), of j] i by (auto simp: lowest_free_def bm_word)
    moreover have "ws ! i \<noteq> 0xFFFFFFFF" using j word_full_iff by blast
    ultimately show ?thesis using i Suc.prems Some
      by (intro disjI1 exI [of _ "32 * i + j"]) (simp add: algebra_simps)
  qed
qed simp

definition scanned :: "'a mm_scheme \<Rightarrow> nat" where
  "scanned s = 32 * (unat (nframes s) div 32)"

lemma scanned_le: "scanned s \<le> unat (nframes s)"
  by (simp add: scanned_def)

lemma first_frame_cases:
  assumes "bm_ok s"
  obtains (Free) k where "lowest_free (frames s) (scanned s) k" "first_frame s = Some (of_nat k)"
      "k < unat (nframes s)" "k < 2 ^ 20"
    | (Full) "\<forall>k < scanned s. bm (frames s) k" "first_frame s = Some (- 1)"
proof -
  have n: "unat (INDEX_FROM_BIT (nframes s)) = unat (nframes s) div 32"
    by (simp add: INDEX_FROM_BIT_def unat_div)
  consider k where "lowest_free (frames s) (scanned s) k" "first_frame s = Some (of_nat k)"
    | "\<forall>k < scanned s. bm (frames s) k" "first_frame s = Some (- 1)"
    using first_frame_loop_spec [of 0 "unat (nframes s) div 32" "frames s"] assms
    by (auto simp: bm_ok_def first_frame_def n scanned_def)
  then show ?thesis
  proof cases
    case (1 k)
    then show ?thesis using Free [of k] assms scanned_le [of s] by (force simp: lowest_free_def bm_ok_def)
  next
    case 2 then show ?thesis using Full by blast
  qed
qed


section \<open>Entries and the frames they hold\<close>

definition entry :: "(u32 \<rightharpoonup> page_table_t) \<Rightarrow> page_ref \<Rightarrow> page_t option" where
  "entry T r = do { t \<leftarrow> T (fst r); nth_opt t (snd r) }"

definition set_entry ::
    "page_ref \<Rightarrow> page_t \<Rightarrow> (u32 \<rightharpoonup> page_table_t) \<Rightarrow> (u32 \<rightharpoonup> page_table_t)" where
  "set_entry r p T = T(fst r \<mapsto> (the (T (fst r)))[snd r := p])"

lemma rd_page_entry: "rd_page s r = entry (tbls s) r"
  by (simp add: rd_page_def entry_def)

lemma wr_page_eq:
  "entry (tbls s) r = Some q \<Longrightarrow> wr_page r p s = Some (s\<lparr>tbls := set_entry r p (tbls s)\<rparr>)"
  by (auto simp: wr_page_def entry_def set_entry_def nth_opt_def upd_opt_def
      split: bind_splits if_splits)

lemma entry_set_entry:
  "entry T r = Some q \<Longrightarrow> entry (set_entry r p T) = (entry T)(r \<mapsto> p)"
  by (rule ext, cases r)
     (auto simp: entry_def set_entry_def nth_opt_def nth_list_update split: bind_splits if_splits)

text \<open>The frame an entry holds, \<open>0\<close> when it holds none.\<close>
definition held :: "'a mm_scheme \<Rightarrow> page_ref \<Rightarrow> nat" where
  "held s r = (case entry (tbls s) r of Some p \<Rightarrow> unat (frame p) | None \<Rightarrow> 0)"

lemma held_less: "held s r < 2 ^ 20"
proof -
  have "unat (x :: 20 word) < 2 ^ 20" for x using unsigned_less [of x] by simp
  then show ?thesis by (simp add: held_def split: option.splits)
qed

lemma held_set_entry:
  "entry (tbls (s :: 'a mm_scheme)) r = Some q \<Longrightarrow> tbls (s' :: 'a mm_scheme) = set_entry r p (tbls s) \<Longrightarrow>
   held s' = (held s)(r := unat (frame p))"
  by (auto simp: held_def entry_set_entry)

definition mapped :: "page_t \<Rightarrow> page_t" where
  "mapped p = p\<lparr>present := True, rw := True, user := True\<rparr>"

lemma frame_mapped [simp]: "frame (mapped p) = frame p"
  by (simp add: mapped_def)

lemma unat_frame_20: "k < 2 ^ 20 \<Longrightarrow> unat (of_nat k :: 20 word) = k"
  by (simp add: unat_of_nat)

lemma ucast_frame_20: "(ucast (of_nat k :: u32) :: 20 word) = of_nat k"
  by (rule bit_word_eqI) (simp add: bit_simps)

lemma minus_1_words: "unat (- 1 :: u32) = 4294967295" "(ucast (- 1 :: u32) :: 20 word) = - 1"
proof -
  have "(- 1 :: u32) = 4294967295" by simp
  then show "unat (- 1 :: u32) = 4294967295" by (simp only:) simp
  show "(ucast (- 1 :: u32) :: 20 word) = - 1" by (rule bit_word_eqI) (simp add: bit_simps)
qed

lemma alloc_frame_held:
  assumes "entry (tbls s) r = Some p" "frame p \<noteq> 0"
  shows "alloc_frame r a b s = Some (s\<lparr>tbls := set_entry r (mapped p) (tbls s)\<rparr>)"
  using assms by (simp add: alloc_frame_def rd_page_entry wr_page_eq mapped_def)

lemma alloc_frame_new:
  assumes "bm_ok s" "entry (tbls s) r = Some p" "frame p = 0"
    and "lowest_free (frames s) (scanned s) k"
  shows "alloc_frame r a b s =
    Some (s\<lparr>frames := bm_set (frames s) k,
            tbls := set_entry r (mapped (p\<lparr>frame := of_nat k\<rparr>)) (tbls s)\<rparr>)"
  using assms(1)
proof (cases rule: first_frame_cases)
  case (Free k')
  have [simp]: "k' = k" using lowest_free_unique Free(1) assms(4) by blast
  have "(of_nat k :: u32) \<noteq> - 1"
  proof
    assume "(of_nat k :: u32) = - 1"
    then have "unat (of_nat k :: u32) = unat (- 1 :: u32)" by simp
    then show False using Free(4) by (simp add: unat_of_nat_u32 minus_1_words)
  qed
  then show ?thesis using assms Free set_frame_eq [OF assms(1), of k]
    by (simp add: alloc_frame_def rd_page_entry wr_page_eq mapped_def panic_assert_def ucast_frame_20)
next
  case Full
  then show ?thesis using assms(4) by (auto simp: lowest_free_def)
qed

lemma alloc_frame_full:
  assumes "bm_ok s" "entry (tbls s) r = Some p" "frame p = 0" "\<forall>k < scanned s. bm (frames s) k"
  shows "alloc_frame r a b s =
    Some (s\<lparr>failures := failures s + 1,
            tbls := set_entry r (mapped (p\<lparr>frame := - 1\<rparr>)) (tbls s)\<rparr>)"
  using assms(1)
proof (cases rule: first_frame_cases)
  case (Free k)
  then show ?thesis using assms(4) by (auto simp: lowest_free_def)
next
  case Full
  let ?s = "s\<lparr>failures := failures s + 1\<rparr>"
  have "(- 0x1000 :: u32) = of_nat (2 ^ 20 - 1) * 0x1000" by simp
  then have "set_frame (- 0x1000) ?s = Some ?s"
    using set_frame_eq [of ?s "2 ^ 20 - 1"] assms(1) by (simp only:) (simp add: bm_ok_def)
  then show ?thesis using assms Full
    by (simp add: alloc_frame_def rd_page_entry wr_page_eq mapped_def panic_assert_def minus_1_words)
qed

lemma free_frame_eq:
  assumes "entry (tbls s) r = Some p" "frame p \<noteq> 0" "held s r div 32 < length (frames s)"
  shows "free_frame r s =
    Some (s\<lparr>frames := bm_clear (frames s) (held s r),
            tbls := set_entry r (p\<lparr>frame := 0\<rparr>) (tbls s)\<rparr>)"
proof -
  have "(ucast (frame p) :: u32) = of_nat (held s r)"
    using assms(1) by (simp add: held_def)
  then show ?thesis using assms clear_frame_eq [OF held_less, of s r s]
    by (simp add: free_frame_def rd_page_entry wr_page_eq)
qed

section \<open>Ownership of frames\<close>

text \<open>
  Every frame an entry holds is a frame of the machine and is marked in the bitmap, and no two
  entries hold the same frame.  Frame \<open>0\<close>, whose number in an entry means that it holds none,
  is marked from the start (\<^verbatim>\<open>paging_finalize\<close> does that), so that it is never given out.
\<close>
definition own_ok :: "'a mm_scheme \<Rightarrow> bool" where
  "own_ok s \<longleftrightarrow> bm_ok s \<and> bm (frames s) 0 \<and>
     (\<forall>r. held s r \<noteq> 0 \<longrightarrow> held s r < unat (nframes s) \<and> bm (frames s) (held s r)) \<and>
     (\<forall>r r'. held s r \<noteq> 0 \<longrightarrow> held s r = held s r' \<longrightarrow> r = r')"

text \<open>Entries get and lose frames, as long as there are free ones.\<close>
inductive frame_run :: "'a mm_scheme \<Rightarrow> 'a mm_scheme \<Rightarrow> bool" for s where
  start: "frame_run s s"
| alloc: "frame_run s t \<Longrightarrow> first_frame t \<noteq> Some (- 1) \<Longrightarrow> alloc_frame r a b t = Some u \<Longrightarrow>
    frame_run s u"
| free: "frame_run s t \<Longrightarrow> free_frame r t = Some u \<Longrightarrow> frame_run s u"

lemma own_okD:
  assumes "own_ok s"
  shows "bm_ok s" "bm (frames s) 0"
    "held s r \<noteq> 0 \<Longrightarrow> held s r < unat (nframes s)" "held s r \<noteq> 0 \<Longrightarrow> bm (frames s) (held s r)"
    "held s r \<noteq> 0 \<Longrightarrow> held s r = held s r' \<Longrightarrow> r = r'"
  using assms unfolding own_ok_def by blast+

lemma own_ok_take:
  fixes s u :: "'a mm_scheme"
  assumes s: "own_ok s" and k: "lowest_free (frames s) (scanned s) k"
    and u: "frames u = bm_set (frames s) k" "nframes u = nframes s" "held u = (held s)(r := k)"
  shows "own_ok u"
proof -
  have free: "\<not> bm (frames s) k" "k < unat (nframes s)"
    using k scanned_le [of s] by (auto simp: lowest_free_def)
  then have "k div 32 < length (frames s)" using bm_ok_index own_okD(1) s by blast
  moreover have "held s r' \<noteq> k" if "k \<noteq> 0" for r' using own_okD(4) [OF s] free(1) that by metis
  ultimately show ?thesis
    using s free(2) u unfolding own_ok_def bm_ok_def
    by (simp add: bm_set_iff del: split_paired_All) (metis (full_types))
qed

lemma own_ok_give:
  fixes s u :: "'a mm_scheme"
  assumes s: "own_ok s" and r: "held s r \<noteq> 0"
    and u: "frames u = bm_clear (frames s) (held s r)" "nframes u = nframes s"
      "held u = (held s)(r := 0)"
  shows "own_ok u"
proof -
  have "held s r div 32 < length (frames s)"
    using bm_ok_index own_okD(1,3) s r by blast
  moreover have "held s r' \<noteq> held s r" if "r' \<noteq> r" for r' using own_okD(5) [OF s r] that by metis
  ultimately show ?thesis using s r u unfolding own_ok_def bm_ok_def
    by (simp add: bm_clear_iff del: split_paired_All)
qed

lemma own_ok_same:
  "own_ok (s :: 'a mm_scheme) \<Longrightarrow> frames (u :: 'a mm_scheme) = frames s \<Longrightarrow> nframes u = nframes s \<Longrightarrow> held u = held s \<Longrightarrow> own_ok u"
  by (simp add: own_ok_def bm_ok_def)


lemma own_ok_alloc:
  assumes s: "own_ok s" and e: "entry (tbls s) r = Some p" and ne: "first_frame s \<noteq> Some (- 1)"
  shows "\<exists>u. alloc_frame r a b s = Some u \<and> own_ok u"
proof (cases "frame p = 0")
  case False
  then have [simp]: "held s r = unat (frame p)" using e by (simp add: held_def)
  show ?thesis using alloc_frame_held [OF e False] own_ok_same [OF s]
      held_set_entry [OF e, of _ "mapped p"] by (force simp: fun_upd_idem)
next
  case True
  show ?thesis using own_okD(1) [OF s]
  proof (cases rule: first_frame_cases)
    case (Free k)
    show ?thesis using alloc_frame_new [OF own_okD(1) [OF s] e True Free(1)]
        own_ok_take [OF s Free(1)] held_set_entry [OF e, of _ "mapped (p\<lparr>frame := of_nat k\<rparr>)"]
      by (simp add: unat_frame_20 [OF Free(4)])
  qed (use ne in simp)
qed

lemma first_frame_nonzero:
  assumes "own_ok s"
  shows "first_frame s \<noteq> Some 0"
  using own_okD(1) [OF assms]
proof (cases rule: first_frame_cases)
  case (Free k)
  have "k \<noteq> 0" using Free(1) own_okD(2) [OF assms] by (metis lowest_free_def)
  moreover have "unat (of_nat k :: u32) = k" using Free(4) by (intro unat_of_nat_u32) simp
  ultimately show ?thesis using Free(2) by (metis option.inject unat_0)
qed simp

lemma alloc_frame_nonzero:
  assumes s: "own_ok s" and e: "entry (tbls s) r = Some p" and ne: "first_frame s \<noteq> Some (- 1)"
    and u: "alloc_frame r a b s = Some u"
  shows "held u r \<noteq> 0"
proof (cases "frame p = 0")
  case False
  then show ?thesis using alloc_frame_held [OF e False] u held_set_entry [OF e, of _ "mapped p"]
    by (auto simp: unat_gt_0 mapped_def)
next
  case True
  show ?thesis using own_okD(1) [OF s]
  proof (cases rule: first_frame_cases)
    case (Free k)
    have "k \<noteq> 0" using Free(1) own_okD(2) [OF s] by (metis lowest_free_def)
    then show ?thesis using alloc_frame_new [OF own_okD(1) [OF s] e True Free(1)] u
        held_set_entry [OF e, of _ "mapped (p\<lparr>frame := of_nat k\<rparr>)"]
      by (auto simp: unat_frame_20 [OF Free(4)] mapped_def)
  qed (use ne in simp)
qed

lemma own_ok_free:
  assumes s: "own_ok s" and e: "entry (tbls s) r = Some p"
  shows "\<exists>u. free_frame r s = Some u \<and> own_ok u"
proof (cases "frame p = 0")
  case True
  then show ?thesis using e own_ok_same [OF s, of "panic_assert False s"]
    by (simp add: free_frame_def rd_page_entry panic_assert_def held_def fun_eq_iff del: split_paired_All)
next
  case False
  then have h: "held s r \<noteq> 0" using e by (simp add: held_def unsigned_eq_0_iff)
  then have "held s r div 32 < length (frames s)" using bm_ok_index own_okD(1,3) [OF s] by blast
  then show ?thesis using free_frame_eq [OF e False] own_ok_give [OF s h]
      held_set_entry [OF e, of _ "p\<lparr>frame := 0\<rparr>"] by simp
qed

lemma alloc_free_entry:
  "alloc_frame r a b s = Some u \<Longrightarrow> entry (tbls s) r \<noteq> None"
  "free_frame r s = Some u \<Longrightarrow> entry (tbls s) r \<noteq> None"
  by (auto simp: alloc_frame_def free_frame_def rd_page_entry split: bind_splits)

lemma frame_run_own_ok: "frame_run s t \<Longrightarrow> own_ok s \<Longrightarrow> own_ok t"
proof (induction rule: frame_run.induct)
  case (alloc t r a b u)
  then show ?case using own_ok_alloc alloc_free_entry(1) [OF alloc.hyps(3)]
    by (metis option.exhaust option.inject)
next
  case (free t r u)
  then show ?case using own_ok_free alloc_free_entry(2) [OF free.hyps(2)]
    by (metis option.exhaust option.inject)
qed simp

section \<open>Properties\<close>

text \<open>
  C2.  Frames are never shared.  Whatever sequence of \<^verbatim>\<open>alloc_frame\<close> and \<^verbatim>\<open>free_frame\<close> calls is
  made from a state in which entries own their frames, as long as the allocator does not run
  out: every frame held by an entry is marked in the bitmap and held by no other entry; frame 0
  stays reserved and is never the next frame to be given out; the next \<^verbatim>\<open>alloc_frame\<close> on an existing
  entry returns and leaves it with a frame other than 0, and the next \<^verbatim>\<open>free_frame\<close> returns.
\<close>
theorem frames_never_shared:
  assumes "own_ok s" "frame_run s t"
  shows "(held t r \<noteq> 0 \<longrightarrow> bm (frames t) (held t r) \<and> held t r < unat (nframes t) \<and>
           (\<forall>r'. held t r' = held t r \<longrightarrow> r' = r)) \<and>
         bm (frames t) 0 \<and> first_frame t \<noteq> Some 0 \<and>
         (rd_page t r \<noteq> None \<longrightarrow> first_frame t \<noteq> Some (- 1) \<longrightarrow>
           (\<exists>u. alloc_frame r a b t = Some u \<and> held u r \<noteq> 0)) \<and>
         (rd_page t r \<noteq> None \<longrightarrow> free_frame r t \<noteq> None)"
proof -
  have t: "own_ok t" using frame_run_own_ok assms by blast
  have "held t r \<noteq> 0 \<longrightarrow> bm (frames t) (held t r) \<and> held t r < unat (nframes t) \<and>
           (\<forall>r'. held t r' = held t r \<longrightarrow> r' = r)"
    using own_okD [OF t] by metis
  moreover have "rd_page t r \<noteq> None \<longrightarrow> first_frame t \<noteq> Some (- 1) \<longrightarrow> (\<exists>u. alloc_frame r a b t = Some u \<and> held u r \<noteq> 0)"
    using own_ok_alloc [OF t] alloc_frame_nonzero [OF t] unfolding rd_page_entry by (metis not_None_eq)
  moreover have "rd_page t r \<noteq> None \<longrightarrow> free_frame r t \<noteq> None"
    using own_ok_free [OF t] unfolding rd_page_entry by (metis not_None_eq option.distinct(1))
  ultimately show ?thesis using own_okD(2) [OF t] first_frame_nonzero [OF t] by blast
qed

text \<open>A machine with 64 frames, frame 0 reserved, and one table with two empty entries.\<close>
definition small_mm :: mm where
  "small_mm = \<lparr>placement_pointer = 0x200000, heap_end = 0, kernel_heap_alloc_point = KERNEL_HEAP_INIT,
     frames = [1, 0, 0, 0], nframes = 64, kernel_directory = 0x4000, current_directory = 0x4000,
     dirs = [0x4000 \<mapsto> \<lparr>physical_tables = [0x5007], tables = [0x5000],
                        physical_address = 0x4000, ref_count = 1\<rparr>],
     tbls = [0x5000 \<mapsto> [zero_page, zero_page]], kmem = (\<lambda>_. 0), phys = (\<lambda>_. 0), failures = 0\<rparr>"

lemma small_mm_own_ok: "own_ok small_mm"
proof -
  have "held small_mm r = 0" for r
    by (auto simp: held_def small_mm_def entry_def nth_opt_def nth_Cons' zero_page_def
        split: option.splits if_splits)
  moreover have "bm_ok small_mm" "bm (frames small_mm) 0"
    by (simp_all add: bm_ok_def small_mm_def bm_def)
  ultimately show ?thesis unfolding own_ok_def by simp
qed

lemmas frame_eval = alloc_frame_def small_mm_def rd_page_def wr_page_def first_frame_def
  INDEX_FROM_BIT_def OFFSET_FROM_BIT_def upt_rec zero_page_def set_frame_def panic_assert_def

theorem frames_never_shared_witness:
  "\<exists>t. frame_run small_mm t \<and> held t (0x5000, 0) = 1 \<and> held t (0x5000, 1) = 2 \<and> bm (frames t) 0 \<and> bm (frames t) 1 \<and>
       bm (frames t) 2 \<and> free_frame (0x5000, 0) t \<noteq> None"
proof -
  let ?t = "\<lambda>ws ps. small_mm\<lparr>frames := ws, tbls := [0x5000 \<mapsto> ps]\<rparr>"
  let ?p = "\<lambda>n. zero_page\<lparr>frame := n, present := True, rw := True, user := True\<rparr>"
  have 1: "alloc_frame (0x5000, 0) 1 0 small_mm = Some (?t [3, 0, 0, 0] [?p 1, zero_page])"
    by (simp add: frame_eval)
  have 2: "alloc_frame (0x5000, 1) 1 0 (?t [3, 0, 0, 0] [?p 1, zero_page])
             = Some (?t [7, 0, 0, 0] [?p 1, ?p 2])"
    by (simp add: frame_eval)
  define t where "t = ?t [7, 0, 0, 0] [?p 1, ?p 2]"
  have run: "frame_run small_mm t" unfolding t_def
    by (rule frame_run.alloc [OF frame_run.alloc [OF frame_run.start _ 1] _ 2])
       (simp_all add: frame_eval)
  have t: "held t (0x5000, 0) = 1" "held t (0x5000, 1) = 2" "rd_page t (0x5000, 0) \<noteq> None"
    by (simp_all add: held_def entry_def rd_page_def t_def)
  note own = frames_never_shared [OF small_mm_own_ok run]
  have "bm (frames t) (held t (0x5000, 0))"
    by (rule own [THEN conjunct1, THEN mp, THEN conjunct1]) (simp only: t; simp)
  moreover have "bm (frames t) (held t (0x5000, 1))"
    by (rule own [THEN conjunct1, THEN mp, THEN conjunct1]) (simp only: t; simp)
  moreover have "free_frame (0x5000, 0) t \<noteq> None" "bm (frames t) 0"
    using own [of "(0x5000, 0)"] t(3) by simp_all
  ultimately show ?thesis using run t by (intro exI [of _ t]) (simp only: simp_thms)
qed

text \<open>
  C35.  What \<^verbatim>\<open>alloc_frame\<close> does to an entry, on every branch.  An entry that has a frame keeps it
  and becomes present, writable and user-accessible, whatever the two flags of the call say.
  One that has none gets the free frame with the lowest number among those that the scan
  covers, the whole words of the bitmap, and only that bit is set.  When these are all taken
  the failed assertion is counted and the entry is made present with frame number
  \<^verbatim>\<open>0xFFFFF\<close>, for which the bitmap has no bit: the next such entry gets the same.
\<close>
theorem alloc_frame_outcome:
  assumes "bm_ok s" "rd_page s r = Some p"
  shows "\<exists>p' u. alloc_frame r a b s = Some u \<and> rd_page u r = Some p' \<and> (\<forall>r'. r' \<noteq> r \<longrightarrow> rd_page u r' = rd_page s r') \<and>
     present p' \<and> rw p' \<and> user p' \<and>
     (if frame p \<noteq> 0 then frame p' = frame p \<and> frames u = frames s
      else if \<exists>k < scanned s. \<not> bm (frames s) k
      then let k = (LEAST k. \<not> bm (frames s) k)
           in unat (frame p') = k \<and> (\<forall>j. bm (frames u) j \<longleftrightarrow> j = k \<or> bm (frames s) j) \<and>
              failures u = failures s
      else frame p' = 0xFFFFF \<and> frames u = frames s \<and> failures u = failures s + 1)"
proof -
  have e: "entry (tbls s) r = Some p" using assms(2) by (simp add: rd_page_entry)
  note upd = entry_set_entry [OF e]
  show ?thesis
  proof (cases "frame p = 0")
    case False
    then show ?thesis using alloc_frame_held [OF e False]
      by (simp add: rd_page_entry upd mapped_def)
  next
    case new: True
    show ?thesis using assms(1)
    proof (cases rule: first_frame_cases)
      case (Free k)
      then have k: "(LEAST k. \<not> bm (frames s) k) = k" "\<exists>k < scanned s. \<not> bm (frames s) k"
        unfolding lowest_free_def by (metis (no_types, lifting) Least_equality not_less, blast)
      show ?thesis using alloc_frame_new [OF assms(1) e new Free(1)] new k Free
          bm_ok_index [OF assms(1) Free(3)]
        by (simp add: rd_page_entry upd mapped_def unat_frame_20 bm_set_iff)
    next
      case Full
      then show ?thesis using alloc_frame_full [OF assms(1) e new Full(1)] new
        by (auto simp: rd_page_entry upd mapped_def)
    qed
  qed
qed

theorem alloc_frame_outcome_witness:
  "\<exists>p' u. alloc_frame (0x5000, 1) 0 0 small_mm = Some u \<and> rd_page u (0x5000, 1) = Some p' \<and> present p'"
  using alloc_frame_outcome [of small_mm "(0x5000, 1)" zero_page 0 0] small_mm_own_ok
  by (fastforce simp: own_ok_def rd_page_def small_mm_def)


section \<open>Loops over addresses\<close>

lemma unat_step:
  assumes "unat (i :: u32) + n * unat step < 2 ^ 32" "j \<le> n"
  shows "unat (i + of_nat j * step) = unat i + j * unat step"
proof -
  have le: "j * unat step \<le> n * unat step" using assms(2) by simp
  then have "j * unat step < 2 ^ 32" using assms(1) by linarith
  then have "unat (of_nat j * step :: u32) = j * unat step"
    by (simp add: unat_word_ariths unsigned_of_nat take_bit_nat_def mod_mult_left_eq)
  moreover have "unat i + j * unat step < 2 ^ 32" using assms(1) le by linarith
  ultimately show ?thesis by (simp add: unat_word_ariths(1))
qed

lemma for_below_run:
  assumes bound: "unat i + n * unat step < 2 ^ 32" "step \<noteq> 0"
    and limit: "\<And>j s. j \<le> n \<Longrightarrow> I j s \<Longrightarrow> limit s = i + of_nat n * step"
    and body: "\<And>j s. j < n \<Longrightarrow> I j s \<Longrightarrow> \<exists>s'. body (i + of_nat j * step) s = Some s' \<and> I (Suc j) s'"
    and j: "I j s" "j \<le> n"
  shows "\<exists>s'. for_below limit step body (i + of_nat j * step) s = Some s' \<and> I n s'"
  using j
proof (induction "n - j" arbitrary: j s)
  case 0
  then show ?case using limit [of n s] by (simp add: for_below.simps)
next
  case (Suc d)
  then have jn: "j < n" by simp
  obtain s' where s': "body (i + of_nat j * step) s = Some s'" "I (Suc j) s'"
    using body [OF jn Suc.prems(1)] by blast
  have "0 < unat step" using bound(2) by (simp add: unat_gt_0)
  then have "i + of_nat j * step < limit s"
    using limit [of j s] Suc.prems jn unat_step [OF bound(1), of j] unat_step [OF bound(1), of n]
    by (simp add: word_less_nat_alt)
  moreover have "i + of_nat (Suc j) * step = i + of_nat j * step + step" by (simp add: algebra_simps)
  ultimately show ?case
    using Suc.hyps(1) [of "Suc j" s'] Suc.hyps(2) s' jn
    by (subst for_below.simps) (simp add: add.assoc del: of_nat_Suc)
qed

section \<open>Taking free frames one by one\<close>

definition free_frames :: "'a mm_scheme \<Rightarrow> nat" where
  "free_frames s = card {k. k < scanned s \<and> \<not> bm (frames s) k}"

lemma free_frames_set:
  assumes "lowest_free (frames s) (scanned s) k" "k div 32 < length (frames s)"
  shows "free_frames (s\<lparr>frames := bm_set (frames s) k, tbls := T\<rparr>) = free_frames s - 1"
proof -
  have "{j. j < scanned s \<and> \<not> bm (bm_set (frames s) k) j} = {j. j < scanned s \<and> \<not> bm (frames s) j} - {k}"
    using bm_set_iff [OF assms(2)] by auto
  moreover have "k \<in> {j. j < scanned s \<and> \<not> bm (frames s) j}"
    using assms(1) by (simp add: lowest_free_def)
  ultimately show ?thesis by (simp add: free_frames_def scanned_def card_Diff_singleton)
qed

lemma free_frames_pos: "0 < free_frames s \<longleftrightarrow> (\<exists>k < scanned s. \<not> bm (frames s) k)"
proof -
  have "finite {k. k < scanned s \<and> \<not> bm (frames s) k}" by simp
  then show ?thesis by (auto simp: free_frames_def card_gt_0_iff)
qed

text \<open>What a caller of \<^verbatim>\<open>alloc_frame\<close> relies on, when a free frame is left.\<close>
lemma alloc_frame_ok:
  assumes s: "own_ok s" and r: "r \<in> dom (entry (tbls s))" and n: "0 < free_frames s"
  obtains u where "alloc_frame r a b s = Some u" "u = s\<lparr>frames := frames u, tbls := tbls u\<rparr>"
    "own_ok u" "dom (entry (tbls u)) = dom (entry (tbls s))" "free_frames s \<le> Suc (free_frames u)"
    "held u r \<noteq> 0" "\<And>r'. r' \<noteq> r \<Longrightarrow> entry (tbls u) r' = entry (tbls s) r'"
    "\<exists>p. entry (tbls u) r = Some p \<and> present p \<and> rw p \<and> user p"
    "\<And>p. entry (tbls s) r = Some p \<Longrightarrow> frame p = 0 \<Longrightarrow>
       (\<exists>k. \<not> bm (frames s) k \<and> entry (tbls u) r = Some (mapped (p\<lparr>frame := of_nat k\<rparr>)) \<and> k < 2 ^ 20)"
proof -
  obtain p where e: "entry (tbls s) r = Some p" using r by blast
  obtain k where k: "first_frame s = Some (of_nat k)" "lowest_free (frames s) (scanned s) k"
    "k < unat (nframes s)" "k < 2 ^ 20"
    using n first_frame_cases [OF own_okD(1) [OF s]] unfolding free_frames_pos by metis
  have ix: "k div 32 < length (frames s)" using bm_ok_index own_okD(1) [OF s] k(3) by blast
  have nz: "k \<noteq> 0" using k(2) own_okD(2) [OF s] by (metis lowest_free_def)
  show ?thesis
  proof (cases "frame p = 0")
    case True
    let ?p = "mapped (p\<lparr>frame := of_nat k\<rparr>)"
    let ?u = "s\<lparr>frames := bm_set (frames s) k, tbls := set_entry r ?p (tbls s)\<rparr>"
    have h: "held ?u = (held s)(r := k)"
      using held_set_entry [OF e, of ?u ?p] unat_frame_20 [OF k(4)] by simp
    show ?thesis
      by (rule that [OF alloc_frame_new [OF own_okD(1) [OF s] e True k(2)]
                        _ own_ok_take [OF s k(2) _ _ h]])
         (use True nz ix k e h in \<open>auto simp: entry_set_entry mapped_def free_frames_set lowest_free_def
            simp del: split_paired_All split_paired_Ex\<close>)
  next
    case False
    let ?u = "s\<lparr>tbls := set_entry r (mapped p) (tbls s)\<rparr>"
    have h: "held ?u = held s"
      using held_set_entry [OF e, of ?u "mapped p"] e by (simp add: fun_upd_idem held_def)
    have nz: "held s r \<noteq> 0" using e False by (simp add: held_def unsigned_eq_0_iff)
    show ?thesis
      by (rule that [OF alloc_frame_held [OF e False] _ own_ok_same [OF s _ _ h]])
         (use False nz e h in \<open>auto simp: entry_set_entry mapped_def free_frames_def scanned_def
            simp del: split_paired_All split_paired_Ex\<close>)
  qed
qed

section \<open>The heap grows by fresh zeroed pages\<close>

lemma fold_zero_words:
  "fold (\<lambda>i m. st32 (d + 4 * i) 0 m) [0..<k] m = (\<lambda>a. if d \<le> a \<and> a < d + 4 * k then 0 else m a)"
  by (induction k) (auto simp: st32_def fun_eq_iff)

lemma fold_zero_bytes:
  "fold (\<lambda>i m. m(d + i := 0)) [0..<k] m = (\<lambda>a. if d \<le> a \<and> a < d + k then 0 else m a)"
  by (induction k) (auto simp: fun_eq_iff)

definition zeroed :: "addr \<Rightarrow> nat \<Rightarrow> mem \<Rightarrow> mem" where
  "zeroed d n m = (\<lambda>a. if d \<le> a \<and> a < d + n then 0 else m a)"

lemma memset_zero:
  assumes "0 \<le> n" "n < 2 ^ 31"
  shows "memset d 0 n m = zeroed d (nat n) m"
proof -
  have "to_u32 (n sdiv 4) = nat n div 4" "to_u32 (n smod 4) = nat n mod 4"
    using sdiv_smod_4 assms by auto
  moreover have "memset_val32 0 = 0" by (simp add: memset_val32_def)
  moreover have "nat n = 4 * (nat n div 4) + nat n mod 4" by simp
  ultimately show ?thesis
    by (simp add: memset_def zeroed_def fold_zero_words fold_zero_bytes fun_eq_iff Let_def) linarith
qed

text \<open>The tables of the kernel directory have an entry for the page of \<open>a\<close>.\<close>
definition heap_entry :: "'a mm_scheme \<Rightarrow> u32 \<Rightarrow> bool" where
  "heap_entry s a \<longleftrightarrow> (\<exists>r. get_page_lookup a (kernel_directory s) s = Some (Some r) \<and>
     r \<in> dom (entry (tbls s)))"

text \<open>Entry and frame of the page of \<open>a\<close> in the kernel directory.\<close>
definition backed :: "'a mm_scheme \<Rightarrow> u32 \<Rightarrow> bool" where
  "backed s a \<longleftrightarrow> (\<exists>r p. get_page_lookup a (kernel_directory s) s = Some (Some r) \<and>
     rd_page s r = Some p \<and> present p \<and> frame p \<noteq> 0)"

text \<open>
  The heap can grow by \<open>n\<close> pages: it ends on a page boundary and stays below its limit, the
  kernel directory has entries for the pages, and there are enough frames.
\<close>
definition can_grow :: "nat \<Rightarrow> 'a mm_scheme \<Rightarrow> bool" where
  "can_grow n s \<longleftrightarrow> own_ok s \<and> heap_end s mod 0x1000 = 0 \<and>
     unat (heap_end s) + n * 0x1000 < unat KERNEL_HEAP_END \<and> n \<le> free_frames s \<and>
     (\<forall>j<n. heap_entry s (heap_end s + of_nat j * 0x1000))"

lemma get_page_lookup_cong:
  "dirs u = dirs s \<Longrightarrow> get_page_lookup a d u = get_page_lookup a d s"
  by (simp add: get_page_lookup_def)

text \<open>The state after \<open>j\<close> of \<open>n\<close> pages have been given frames.\<close>
definition growing :: "nat \<Rightarrow> 'a mm_scheme \<Rightarrow> nat \<Rightarrow> 'a mm_scheme \<Rightarrow> bool" where
  "growing n s j t \<longleftrightarrow> t = s\<lparr>frames := frames t, tbls := tbls t\<rparr> \<and> own_ok t \<and>
     dom (entry (tbls t)) = dom (entry (tbls s)) \<and> n - j \<le> free_frames t \<and>
     (\<forall>i<j. backed t (heap_end s + of_nat i * 0x1000))"

lemma growing_fields:
  assumes "growing n s j t"
  shows "heap_end t = heap_end s" "dirs t = dirs s" "kernel_directory t = kernel_directory s"
    "kmem t = kmem s" "failures t = failures s" "nframes t = nframes s"
proof -
  have t: "t = s\<lparr>frames := frames t, tbls := tbls t\<rparr>" using assms unfolding growing_def by blast
  show "heap_end t = heap_end s" "dirs t = dirs s" "kernel_directory t = kernel_directory s"
    "kmem t = kmem s" "failures t = failures s" "nframes t = nframes s"
    by (subst t, simp)+
qed

lemma sbrk_page_growing:
  assumes g: "growing n s j t" and j: "j < n" and s: "can_grow n s"
  shows "\<exists>u. sbrk_page (heap_end s + of_nat j * 0x1000) t = Some u \<and> growing n s (Suc j) u"
proof -
  let ?a = "\<lambda>i. heap_end s + of_nat i * (0x1000 :: u32)"
  note f = growing_fields [OF g]
  have t: "own_ok t" "dom (entry (tbls t)) = dom (entry (tbls s))" "0 < free_frames t"
    "t = s\<lparr>frames := frames t, tbls := tbls t\<rparr>"
    using g j unfolding growing_def by auto
  have look: "get_page_lookup a (kernel_directory t) t = get_page_lookup a (kernel_directory s) s" for a
    using get_page_lookup_cong [OF f(2)] f(3) by simp
  obtain r where r: "get_page_lookup (?a j) (kernel_directory s) s = Some (Some r)"
    "r \<in> dom (entry (tbls t))"
    using s j t(2) unfolding can_grow_def heap_entry_def by blast
  obtain u where u: "alloc_frame r 1 0 t = Some u" "u = t\<lparr>frames := frames u, tbls := tbls u\<rparr>"
    "own_ok u" "dom (entry (tbls u)) = dom (entry (tbls t))" "free_frames t \<le> Suc (free_frames u)"
    "held u r \<noteq> 0" "\<And>r'. r' \<noteq> r \<Longrightarrow> entry (tbls u) r' = entry (tbls t) r'"
    "\<exists>p. entry (tbls u) r = Some p \<and> present p \<and> rw p \<and> user p"
    by (rule alloc_frame_ok [OF t(1) r(2) t(3)]) blast
  have fu: "dirs u = dirs t" "kernel_directory u = kernel_directory t" by (subst u(2), simp)+
  have looku: "get_page_lookup a (kernel_directory u) u = get_page_lookup a (kernel_directory s) s" for a
    using get_page_lookup_cong [OF fu(1)] fu(2) look by simp
  have "sbrk_page (?a j) t = Some u"
    using r(1) look u(1) by (simp add: sbrk_page_def panic_assert_def)
  moreover have "u = s\<lparr>frames := frames u, tbls := tbls u\<rparr>"
    by (subst u(2), subst t(4), simp)
  moreover have "backed u (?a i)" if "i < Suc j" for i
  proof (cases "get_page_lookup (?a i) (kernel_directory s) s = Some (Some r)")
    case True
    obtain p where "entry (tbls u) r = Some p" "present p" using u(8) by blast
    then show ?thesis using True u(6) looku unfolding backed_def rd_page_entry
      by (auto simp: held_def unsigned_eq_0_iff)
  next
    case False
    then have "i < j" using that r(1) less_Suc_eq by blast
    then show ?thesis using g False u(7) looku look unfolding growing_def backed_def rd_page_entry
      by (metis option.inject)
  qed
  moreover have "n - Suc j \<le> free_frames u" using g u(5) unfolding growing_def by linarith
  ultimately show ?thesis using u(3,4) t(2) unfolding growing_def by blast
qed

lemma sint_small: "unat (x :: u32) < 2 ^ 31 \<Longrightarrow> sint x = int (unat x)"
proof -
  assume "unat x < 2 ^ 31"
  then have "int (unat x) < int (2 ^ 31)" by (simp only: of_nat_less_iff)
  then have "uint x < 2 ^ 31" by simp
  then show ?thesis using order_trans [OF _ uint_ge_0 [of x], of "- 2147483648"]
    by (simp add: sint_uint signed_take_bit_int_eq_self_iff)
qed

lemma sbrk_ok:
  assumes s: "can_grow n s"
  obtains t where "growing n s 0 t \<or> growing n s n t"
    "kernel_heap_alloc_point s < heap_end s + of_nat n * 0x1000 \<Longrightarrow> growing n s n t"
    "sbrk (of_nat n * 0x1000) s = Some (heap_end s, t\<lparr>heap_end := heap_end s + of_nat n * 0x1000,
       kmem := zeroed (unat (heap_end s)) (n * 0x1000) (kmem s)\<rparr>)"
proof -
  let ?l = "heap_end s + of_nat n * 0x1000"
  have b: "unat (heap_end s) + n * 0x1000 < 0x20000000"
    using s by (simp add: can_grow_def KERNEL_HEAP_END_def)
  then have n: "unat (of_nat n * 0x1000 :: u32) = n * 0x1000" "unat ?l = unat (heap_end s) + n * 0x1000"
    using unat_step [where i = 0 and j = n and n = n and step = "0x1000"] unat_step [where i = "heap_end s" and j = n and n = n and step = "0x1000"] by simp_all
  have si: "sint (of_nat n * 0x1000 :: u32) = int (n * 0x1000)"
    using b n(1) sint_small [of "of_nat n * 0x1000"] by simp
  have asserts: "of_nat n * (0x1000 :: u32) mod 0x1000 = 0" "?l \<le> KERNEL_HEAP_END - 1"
    "heap_end s mod 0x1000 = 0"
    using n b s by (simp_all add: word_le_nat_alt KERNEL_HEAP_END_def can_grow_def unat_mod word_unat_eq_iff)
  have mem: "memset (unat (heap_end s)) 0 (sint (of_nat n * 0x1000 :: u32)) m =
      zeroed (unat (heap_end s)) (n * 0x1000) m" for m
    using memset_zero [of "int (n * 0x1000)"] b si by (simp add: nat_mult_distrib)
  have start: "growing n s 0 s" using s by (simp add: growing_def can_grow_def)
  have "\<exists>t. for_below (\<lambda>s. heap_end s + of_nat n * 0x1000) 0x1000 sbrk_page (heap_end s + of_nat 0 * 0x1000) s
           = Some t \<and> growing n s n t"
    using b sbrk_page_growing [OF _ _ s] growing_fields(1)
    by (intro for_below_run [where n = n and I = "growing n s"]) (simp_all add: start)
  then obtain t where t: "for_below (\<lambda>s. heap_end s + of_nat n * 0x1000) 0x1000 sbrk_page (heap_end s) s = Some t"
    "growing n s n t" by auto
  show ?thesis
  proof (cases "?l > kernel_heap_alloc_point s")
    case True
    show ?thesis using t True asserts
      by (intro that [of t])
         (simp_all add: sbrk_def panic_assert_def mem Let_def growing_fields [OF t(2)])
  next
    case False
    then show ?thesis using start asserts
      by (intro that [of s]) (simp_all add: sbrk_def panic_assert_def mem Let_def)
  qed
qed

text \<open>
  C36.  Growing the kernel heap.  From a state in which the heap can grow by \<open>n\<close> pages, \<^verbatim>\<open>sbrk\<close>
  returns the old end of the heap, moves the end by \<open>n\<close> pages, fails no assertion, clears
  exactly the new bytes, keeps frames unshared and, when the pages are past those mapped at
  boot, leaves each of them present with a frame of its own.
\<close>
theorem sbrk_grows:
  assumes "can_grow n s"
  shows "\<exists>u. sbrk (of_nat n * 0x1000) s = Some (heap_end s, u) \<and>
     heap_end u = heap_end s + of_nat n * 0x1000 \<and> failures u = failures s \<and> own_ok u \<and>
     kmem u = zeroed (unat (heap_end s)) (n * 0x1000) (kmem s) \<and>
     (kernel_heap_alloc_point s < heap_end s + of_nat n * 0x1000 \<longrightarrow>
        (\<forall>j<n. backed u (heap_end s + of_nat j * 0x1000)))"
proof -
  obtain t where t: "growing n s 0 t \<or> growing n s n t"
    "kernel_heap_alloc_point s < heap_end s + of_nat n * 0x1000 \<Longrightarrow> growing n s n t"
    "sbrk (of_nat n * 0x1000) s = Some (heap_end s, t\<lparr>heap_end := heap_end s + of_nat n * 0x1000,
       kmem := zeroed (unat (heap_end s)) (n * 0x1000) (kmem s)\<rparr>)"
    by (rule sbrk_ok [OF assms]) blast
  have "own_ok t" "failures t = failures s" using t(1) growing_fields(5) unfolding growing_def by blast+
  moreover have "held (t\<lparr>heap_end := e, kmem := m\<rparr>) = held t" for e m by (simp add: held_def fun_eq_iff)
  moreover have "backed (t\<lparr>heap_end := e, kmem := m\<rparr>) a = backed t a" for e m a
    by (simp add: backed_def rd_page_def get_page_lookup_def)
  ultimately show ?thesis using t(2,3) own_ok_same [of t] unfolding growing_def by simp
qed

text \<open>The same machine with its heap installed below the third page of the table.\<close>
definition small_heap :: mm where
  "small_heap = small_mm\<lparr>heap_end := 0x1000, kernel_heap_alloc_point := 0x1000\<rparr>"

lemma small_heap_grows: "can_grow 1 small_heap"
proof -
  have "own_ok small_heap"
    by (rule own_ok_same [OF small_mm_own_ok]) (simp_all add: small_heap_def held_def fun_eq_iff)
  moreover have "0 < free_frames small_heap"
    unfolding free_frames_pos by (rule exI [of _ 1]) (simp add: scanned_def small_heap_def small_mm_def bm_def)
  ultimately show ?thesis
    by (simp add: can_grow_def KERNEL_HEAP_END_def heap_entry_def get_page_lookup_def entry_def dom_def)
       (simp add: small_heap_def small_mm_def)
qed

theorem sbrk_grows_witness:
  "\<exists>u. sbrk 0x1000 small_heap = Some (0x1000, u) \<and> heap_end u = 0x2000 \<and> backed u 0x1000"
  using sbrk_grows [OF small_heap_grows] by (auto simp: small_heap_def)

end
