(* ===== verification/Alloc.thy ===== *)
theory Alloc
  imports Frames
begin

text \<open>
  The kernel heap allocator of \<^verbatim>\<open>kernel/src/mem/alloc.c\<close>: bins of small cells, one page each, and
  big blocks kept in a skip list ordered by size.  All the allocator's structures are bytes of
  the kernel memory: a header is an address, its fields are the dwords at their offsets
  (\<^verbatim>\<open>next\<close> 0, \<^verbatim>\<open>head\<close> 4, \<^verbatim>\<open>size\<close> 8, \<^verbatim>\<open>bin_magic\<close> 12 and, for a big bin, \<^verbatim>\<open>prev\<close> 16 and
  \<^verbatim>\<open>forward[i]\<close> 20 + 4 i), so that what a client writes into its blocks and what the allocator
  writes into free cells share one memory.  The static variables are fields of the state; the
  list head \<^verbatim>\<open>klmalloc_big_bins.head\<close> is a header at the address \<open>big_bins\<close> that the linker
  chose.  A null pointer dereference has no result.
\<close>

unbundle bit_operations_syntax

section \<open>State\<close>

record alloc = mm +
  placement_address_new :: u32
  klmalloc_bin_head :: "u32 list"
  big_bins :: u32
  big_level :: nat
  klmalloc_newest_big :: u32
  rand_x :: u32
  rand_y :: u32
  rand_z :: u32
  rand_w :: u32

definition NUM_BINS :: u32 where "NUM_BINS = 11"
definition SMALLEST_BIN_LOG :: u32 where "SMALLEST_BIN_LOG = 2"
definition BIG_BIN :: u32 where "BIG_BIN = NUM_BINS - 1"
definition PAGE_SIZE :: u32 where "PAGE_SIZE = 0x1000"
definition PAGE_MASK :: u32 where "PAGE_MASK = PAGE_SIZE - 1"
definition SKIP_P :: u32 where "SKIP_P = 0x7FFFFFFF"
definition SKIP_MAX_LEVEL :: nat where "SKIP_MAX_LEVEL = 6"
definition BIN_MAGIC :: u32 where "BIN_MAGIC = 0xDEFAD00D"

text \<open>\<^verbatim>\<open>sizeof(klmalloc_bin_header)\<close> and \<^verbatim>\<open>sizeof(klmalloc_big_bin_header)\<close>.\<close>
definition small_hdr :: u32 where "small_hdr = 16"
definition big_hdr :: u32 where "big_hdr = 48"

definition ld :: "u32 \<Rightarrow> nat \<Rightarrow> 'a mm_scheme \<Rightarrow> u32 option" where
  "ld p off s = (if p = 0 then None else Some (ld32 (kmem s) (unat p + off)))"

definition st :: "u32 \<Rightarrow> nat \<Rightarrow> u32 \<Rightarrow> 'a mm_scheme \<Rightarrow> 'a mm_scheme option" where
  "st p off v s = (if p = 0 then None else Some (s\<lparr>kmem := st32 (unat p + off) v (kmem s)\<rparr>))"

definition o_next :: nat where "o_next = 0"
definition o_head :: nat where "o_head = 4"
definition o_size :: nat where "o_size = 8"
definition o_magic :: nat where "o_magic = 12"
definition o_prev :: nat where "o_prev = 16"
definition o_fwd :: "nat \<Rightarrow> nat" where "o_fwd i = 20 + 4 * i"

section \<open>Bins\<close>

definition klmalloc_adjust_bin :: "u32 \<Rightarrow> u32" where
  "klmalloc_adjust_bin bin =
     (if bin \<le> SMALLEST_BIN_LOG then 0
      else let bin = bin - (SMALLEST_BIN_LOG + 1)
           in if bin > BIG_BIN then BIG_BIN else bin)"

text \<open>\<^verbatim>\<open>__builtin_clzl\<close>: the number of leading zero bits.\<close>
definition clzl :: "u32 \<Rightarrow> nat" where
  "clzl w = length (takeWhile (\<lambda>i. \<not> bit w i) (rev [0..<32]))"

definition klmalloc_bin_size :: "u32 \<Rightarrow> u32" where
  "klmalloc_bin_size sz =
     (let bin = 4 * 8 - of_nat (clzl sz);
          bin = bin + (if sz AND (sz - 1) \<noteq> 0 then 1 else 0)
      in klmalloc_adjust_bin bin)"

definition klmalloc_list_decouple :: "nat \<Rightarrow> u32 \<Rightarrow> alloc \<Rightarrow> alloc option" where
  "klmalloc_list_decouple b node s =
     do { n \<leftarrow> ld node o_next s;
          bs \<leftarrow> upd_opt (klmalloc_bin_head s) b n;
          st node o_next 0 (s\<lparr>klmalloc_bin_head := bs\<rparr>) }"

definition klmalloc_list_insert :: "nat \<Rightarrow> u32 \<Rightarrow> alloc \<Rightarrow> alloc option" where
  "klmalloc_list_insert b node s =
     do { first \<leftarrow> nth_opt (klmalloc_bin_head s) b;
          s \<leftarrow> st node o_next first s;
          bs \<leftarrow> upd_opt (klmalloc_bin_head s) b node;
          Some (s\<lparr>klmalloc_bin_head := bs\<rparr>) }"

definition klmalloc_list_head :: "nat \<Rightarrow> alloc \<Rightarrow> u32 option" where
  "klmalloc_list_head b s = nth_opt (klmalloc_bin_head s) b"

section \<open>Skip list\<close>

definition klmalloc_skip_rand :: "alloc \<Rightarrow> u32 \<times> alloc" where
  "klmalloc_skip_rand s =
     (let t = rand_x s XOR push_bit 11 (rand_x s);
          w = rand_w s XOR drop_bit 19 (rand_w s) XOR t XOR drop_bit 8 t
      in (w, s\<lparr>rand_x := rand_y s, rand_y := rand_z s, rand_z := rand_w s, rand_w := w\<rparr>))"

text \<open>\<open>k\<close> counts the levels that are left, \<open>SKIP_MAX_LEVEL - level\<close>.\<close>
fun random_level_loop :: "nat \<Rightarrow> nat \<Rightarrow> alloc \<Rightarrow> nat \<times> alloc" where
  "random_level_loop k level s =
     (case klmalloc_skip_rand s of (r, s) \<Rightarrow>
        if r < SKIP_P
        then (case k of 0 \<Rightarrow> (level, s) | Suc k \<Rightarrow> random_level_loop k (level + 1) s)
        else (level, s))"

declare random_level_loop.simps [simp del]

definition klmalloc_random_level :: "alloc \<Rightarrow> nat \<times> alloc" where
  "klmalloc_random_level s = random_level_loop SKIP_MAX_LEVEL 0 s"

definition big_sized :: "u32 \<Rightarrow> bool" where
  "big_sized sz \<longleftrightarrow> (sz + big_hdr) mod PAGE_SIZE = 0"

text \<open>The inner loop of the searches: along level \<open>i\<close> while the next header is smaller.\<close>
partial_function (option) skip_walk :: "u32 \<Rightarrow> nat \<Rightarrow> u32 \<Rightarrow> alloc \<Rightarrow> (u32 \<times> alloc) option" where
  "skip_walk search i node s =
     do { f \<leftarrow> ld node (o_fwd i) s;
          if f = 0 then Some (node, s)
          else do { sz \<leftarrow> ld f o_size s;
                    if sz < search then skip_walk search i f (panic_assert (big_sized sz) s)
                    else Some (node, s) } }"

text \<open>The outer loop from level \<open>i\<close> down to \<open>0\<close>; \<open>update\<close> records where each level stopped.\<close>
fun skip_down :: "u32 \<Rightarrow> nat \<Rightarrow> u32 \<Rightarrow> u32 list \<Rightarrow> alloc \<Rightarrow> (u32 \<times> u32 list \<times> alloc) option" where
  "skip_down search i node update s =
     do { (node, s) \<leftarrow> skip_walk search i node s;
          update \<leftarrow> upd_opt update i node;
          (case i of 0 \<Rightarrow> Some (node, update, s)
           | Suc i \<Rightarrow> skip_down search i node update s) }"

declare skip_down.simps [simp del]

definition no_update :: "u32 list" where
  "no_update = replicate (SKIP_MAX_LEVEL + 1) 0"

definition klmalloc_skip_list_findbest :: "u32 \<Rightarrow> alloc \<Rightarrow> (u32 \<times> alloc) option" where
  "klmalloc_skip_list_findbest search_size s =
     do { (node, _, s) \<leftarrow> skip_down search_size (big_level s) (big_bins s) no_update s;
          node \<leftarrow> ld node (o_fwd 0) s;
          if node \<noteq> 0
          then do { let s = panic_assert (node mod PAGE_SIZE = 0) s;
                    sz \<leftarrow> ld node o_size s;
                    Some (node, panic_assert (big_sized sz) s) }
          else Some (node, s) }"

definition block_asserts :: "u32 \<Rightarrow> alloc \<Rightarrow> alloc option" where
  "block_asserts value s =
     do { let s = panic_assert (value \<noteq> 0) s;
          hd \<leftarrow> ld value o_head s;
          let s = panic_assert (hd \<noteq> 0) s;
          let s = panic_assert (hd > value) s;
          sz \<leftarrow> ld value o_size s;
          Some (if sz > NUM_BINS then panic_assert (hd < value + sz) s
                else panic_assert (hd < value + PAGE_SIZE) s) }"

text \<open>Pointing the predecessors of levels \<open>i\<close> to \<open>level\<close> to the new header.\<close>
fun skip_link :: "u32 \<Rightarrow> u32 list \<Rightarrow> nat list \<Rightarrow> alloc \<Rightarrow> alloc option" where
  "skip_link node update [] s = Some s"
| "skip_link node update (i # is) s =
     do { u \<leftarrow> nth_opt update i;
          f \<leftarrow> ld u (o_fwd i) s;
          s \<leftarrow> st node (o_fwd i) f s;
          s \<leftarrow> (if f \<noteq> 0 then do { sz \<leftarrow> ld f o_size s; Some (panic_assert (big_sized sz) s) }
                else Some s);
          s \<leftarrow> st u (o_fwd i) node s;
          skip_link node update is s }"

definition klmalloc_skip_list_insert :: "u32 \<Rightarrow> alloc \<Rightarrow> alloc option" where
  "klmalloc_skip_list_insert value s =
     do { s \<leftarrow> block_asserts value s;
          let s = panic_assert (value mod PAGE_SIZE = 0) s;
          sz \<leftarrow> ld value o_size s;
          let s = panic_assert (big_sized sz) s;
          let s = panic_assert (sz \<noteq> 0) s;
          (node, update, s) \<leftarrow> skip_down sz (big_level s) (big_bins s) no_update s;
          node \<leftarrow> ld node (o_fwd 0) s;
          if node \<noteq> value
          then do { let (level, s) = klmalloc_random_level s;
                    let (update, s) =
                      (if level > big_level s
                       then (fold (\<lambda>i u. u[i := big_bins s]) [big_level s + 1..<level + 1] update,
                             s\<lparr>big_level := level\<rparr>)
                       else (update, s));
                    skip_link value update [0..<level + 1] s }
          else Some s }"

text \<open>Walking on along level \<open>0\<close> to the header itself.\<close>
partial_function (option) skip_find :: "u32 \<Rightarrow> u32 \<Rightarrow> alloc \<Rightarrow> unit option" where
  "skip_find value node s =
     (if node \<noteq> value then do { f \<leftarrow> ld node (o_fwd 0) s; skip_find value f s } else Some ())"

fun skip_unlink :: "u32 \<Rightarrow> u32 list \<Rightarrow> nat list \<Rightarrow> alloc \<Rightarrow> alloc option" where
  "skip_unlink node update [] s = Some s"
| "skip_unlink node update (i # is) s =
     do { u \<leftarrow> nth_opt update i;
          f \<leftarrow> ld u (o_fwd i) s;
          if f \<noteq> node then Some s
          else do { f \<leftarrow> ld node (o_fwd i) s;
                    s \<leftarrow> st u (o_fwd i) f s;
                    s \<leftarrow> (if f \<noteq> 0
                         then do { let s = panic_assert (f mod PAGE_SIZE = 0) s;
                                   sz \<leftarrow> ld f o_size s;
                                   Some (panic_assert (big_sized sz) s) }
                         else Some s);
                    skip_unlink node update is s } }"

text \<open>Dropping empty levels: the level falls while its list is empty.\<close>
fun skip_lower :: "nat \<Rightarrow> alloc \<Rightarrow> alloc option" where
  "skip_lower 0 s = Some (s\<lparr>big_level := 0\<rparr>)"
| "skip_lower (Suc l) s =
     do { f \<leftarrow> ld (big_bins s) (o_fwd (Suc l)) s;
          if f = 0 then skip_lower l s else Some (s\<lparr>big_level := Suc l\<rparr>) }"

text \<open>
  After the walk the source tests once more whether the header was found, but the walk ends
  only there.
\<close>
definition klmalloc_skip_list_delete :: "u32 \<Rightarrow> alloc \<Rightarrow> alloc option" where
  "klmalloc_skip_list_delete value s =
     do { s \<leftarrow> block_asserts value s;
          sz \<leftarrow> ld value o_size s;
          (node, update, s) \<leftarrow> skip_down sz (big_level s) (big_bins s) no_update s;
          node \<leftarrow> ld node (o_fwd 0) s;
          skip_find value node s;
          s \<leftarrow> skip_unlink value update [0..<big_level s + 1] s;
          skip_lower (big_level s) s }"

section \<open>Stacks of free cells\<close>

definition klmalloc_stack_pop :: "u32 \<Rightarrow> alloc \<Rightarrow> (u32 \<times> alloc) option" where
  "klmalloc_stack_pop header s =
     do { let s = panic_assert (header \<noteq> 0) s;
          hd \<leftarrow> ld header o_head s;
          let s = panic_assert (hd \<noteq> 0) s;
          let s = panic_assert (hd > header) s;
          sz \<leftarrow> ld header o_size s;
          let s = (if sz > NUM_BINS then panic_assert (hd < header + sz) s
                   else panic_assert (hd > header + small_hdr - 1)
                          (panic_assert (hd < header + PAGE_SIZE) s));
          n \<leftarrow> ld hd 0 s;
          s \<leftarrow> st header o_head n s;
          Some (hd, s) }"

definition klmalloc_stack_push :: "u32 \<Rightarrow> u32 \<Rightarrow> alloc \<Rightarrow> alloc option" where
  "klmalloc_stack_push header ptr s =
     do { let s = panic_assert (ptr \<noteq> 0) s;
          let s = panic_assert (ptr > header) s;
          sz \<leftarrow> ld header o_size s;
          let s = (if sz > NUM_BINS then panic_assert (ptr < header + sz) s
                   else panic_assert (ptr < header + PAGE_SIZE) s);
          hd \<leftarrow> ld header o_head s;
          s \<leftarrow> st ptr 0 hd s;
          st header o_head ptr s }"

definition klmalloc_stack_empty :: "u32 \<Rightarrow> alloc \<Rightarrow> bool option" where
  "klmalloc_stack_empty header s = do { hd \<leftarrow> ld header o_head s; Some (hd = 0) }"

section \<open>malloc\<close>

text \<open>Threading the cells of a new bin: cell \<open>i\<close> points to cell \<open>i + 1\<close>.\<close>
definition thread_cells :: "u32 \<Rightarrow> nat \<Rightarrow> nat \<Rightarrow> alloc \<Rightarrow> alloc option" where
  "thread_cells base bucket available s =
     do { s \<leftarrow> fold (\<lambda>i acc. do { s \<leftarrow> acc;
                    st base (4 * push_bit bucket i) (base + 4 * of_nat (push_bit bucket (i + 1))) s })
                [0..<available] (Some s);
          st base (4 * push_bit bucket available) 0 s }"

definition new_bin :: "nat \<Rightarrow> alloc \<Rightarrow> (u32 \<times> alloc) option" where
  "new_bin bucket s =
     do { (bin_header, s) \<leftarrow> sbrk PAGE_SIZE s;
          s \<leftarrow> st bin_header o_magic BIN_MAGIC s;
          let s = panic_assert (bin_header mod PAGE_SIZE = 0) s;
          s \<leftarrow> st bin_header o_head (bin_header + small_hdr) s;
          s \<leftarrow> klmalloc_list_insert bucket bin_header s;
          let adj = unat SMALLEST_BIN_LOG + bucket;
          let available = unat (drop_bit adj (PAGE_SIZE - small_hdr) - 1);
          base \<leftarrow> ld bin_header o_head s;
          s \<leftarrow> thread_cells base bucket available s;
          s \<leftarrow> st bin_header o_size (of_nat bucket) s;
          Some (bin_header, s) }"

definition new_big :: "u32 \<Rightarrow> alloc \<Rightarrow> (u32 \<times> alloc) option" where
  "new_big sz s =
     do { let pages = (sz + big_hdr) div PAGE_SIZE + 1;
          (bin_header, s) \<leftarrow> sbrk (PAGE_SIZE * pages) s;
          s \<leftarrow> st bin_header o_magic BIN_MAGIC s;
          let s = panic_assert (bin_header mod PAGE_SIZE = 0) s;
          s \<leftarrow> st bin_header o_size (pages * PAGE_SIZE - big_hdr) s;
          let s = panic_assert (big_sized (pages * PAGE_SIZE - big_hdr)) s;
          s \<leftarrow> st bin_header o_prev (klmalloc_newest_big s) s;
          s \<leftarrow> (if klmalloc_newest_big s \<noteq> 0 then st (klmalloc_newest_big s) o_next bin_header s
                else Some s);
          let s = s\<lparr>klmalloc_newest_big := bin_header\<rparr>;
          s \<leftarrow> st bin_header o_next 0 s;
          s \<leftarrow> st bin_header o_head 0 s;
          Some (bin_header + big_hdr, s) }"

definition klmalloc :: "u32 \<Rightarrow> alloc \<Rightarrow> (u32 \<times> alloc) option" where
  "klmalloc sz s =
     (if sz = 0 then Some (0, s)
      else let bucket_id = klmalloc_bin_size sz in
        if bucket_id < BIG_BIN
        then do { bin_header \<leftarrow> klmalloc_list_head (unat bucket_id) s;
                  (bin_header, s) \<leftarrow> (if bin_header = 0 then new_bin (unat bucket_id) s
                                      else Some (bin_header, s));
                  (item, s) \<leftarrow> klmalloc_stack_pop bin_header s;
                  e \<leftarrow> klmalloc_stack_empty bin_header s;
                  s \<leftarrow> (if e then klmalloc_list_decouple (unat bucket_id) bin_header s else Some s);
                  Some (item, s) }
        else do { (bin_header, s) \<leftarrow> klmalloc_skip_list_findbest sz s;
                  if bin_header \<noteq> 0
                  then do { bsz \<leftarrow> ld bin_header o_size s;
                            let s = panic_assert (bsz \<ge> sz) s;
                            s \<leftarrow> klmalloc_skip_list_delete bin_header s;
                            klmalloc_stack_pop bin_header s }
                  else new_big sz s })"

section \<open>free, valloc, realloc, calloc\<close>

definition free_big :: "u32 \<Rightarrow> alloc \<Rightarrow> alloc option" where
  "free_big header s =
     do { s \<leftarrow> klmalloc_stack_push header (header + big_hdr) s;
          hd \<leftarrow> ld header o_head s;
          let s = panic_assert (hd \<noteq> 0) s;
          klmalloc_skip_list_insert header s }"

definition free_small :: "nat \<Rightarrow> u32 \<Rightarrow> u32 \<Rightarrow> alloc \<Rightarrow> alloc option" where
  "free_small bucket header ptr s =
     do { e \<leftarrow> klmalloc_stack_empty header s;
          s \<leftarrow> (if e then klmalloc_list_insert bucket header s else Some s);
          klmalloc_stack_push header ptr s }"

definition klfree :: "u32 \<Rightarrow> alloc \<Rightarrow> alloc option" where
  "klfree ptr s =
     (if ptr = 0 then Some s
      else do { let ptr = (if ptr mod PAGE_SIZE = 0 then ptr - 1 else ptr);
                let header = ptr AND NOT PAGE_MASK;
                let s = panic_assert (header mod PAGE_SIZE = 0) s;
                magic \<leftarrow> ld header o_magic s;
                if magic \<noteq> BIN_MAGIC then Some s
                else do { bucket_id \<leftarrow> ld header o_size s;
                          if bucket_id > NUM_BINS
                          then do { hd \<leftarrow> ld header o_head s;
                                    let s = panic_assert (hd = 0) s;
                                    let s = panic_assert (big_sized bucket_id) s;
                                    free_big header s }
                          else free_small (unat bucket_id) header ptr s } })"

definition klvalloc :: "u32 \<Rightarrow> alloc \<Rightarrow> (u32 \<times> alloc) option" where
  "klvalloc sz s =
     do { let true_size = sz + PAGE_SIZE - big_hdr;
          (result, s) \<leftarrow> klmalloc true_size s;
          let out = result + (PAGE_SIZE - big_hdr);
          Some (out, panic_assert (out mod PAGE_SIZE = 0) s) }"

definition valloc :: "u32 \<Rightarrow> alloc \<Rightarrow> (u32 \<times> alloc) option" where "valloc = klvalloc"
definition malloc :: "u32 \<Rightarrow> alloc \<Rightarrow> (u32 \<times> alloc) option" where "malloc = valloc"
definition malloc_u :: "u32 \<Rightarrow> alloc \<Rightarrow> (u32 \<times> alloc) option" where "malloc_u = valloc"
definition malloc_a :: "u32 \<Rightarrow> alloc \<Rightarrow> (u32 \<times> alloc) option" where "malloc_a = valloc"

definition free :: "u32 \<Rightarrow> alloc \<Rightarrow> alloc option" where
  "free ptr s = (if ptr > placement_address_new s then klfree ptr s else Some s)"

definition klrealloc :: "u32 \<Rightarrow> u32 \<Rightarrow> alloc \<Rightarrow> (u32 \<times> alloc) option" where
  "klrealloc ptr sz s =
     (if ptr = 0 then klmalloc sz s
      else if sz = 0 then do { s \<leftarrow> free ptr s; Some (0, s) }
      else do { let header_old = ptr AND NOT PAGE_MASK;
                old_size \<leftarrow> ld header_old o_size s;
                let old_size = (if old_size < BIG_BIN
                                then push_bit (unat (SMALLEST_BIN_LOG + old_size)) 1 else old_size);
                if old_size \<ge> sz then Some (ptr, s)
                else do { (newptr, s) \<leftarrow> klmalloc sz s;
                          if newptr \<noteq> 0
                          then do { let s = s\<lparr>kmem := memcpy (unat newptr) (unat ptr) (sint old_size) (kmem s)\<rparr>;
                                    s \<leftarrow> klfree ptr s;
                                    Some (newptr, s) }
                          else Some (0, s) } })"

definition realloc :: "u32 \<Rightarrow> u32 \<Rightarrow> alloc \<Rightarrow> (u32 \<times> alloc) option" where "realloc = klrealloc"

definition klcalloc :: "u32 \<Rightarrow> u32 \<Rightarrow> alloc \<Rightarrow> (u32 \<times> alloc) option" where
  "klcalloc nmemb sz s =
     do { (ptr, s) \<leftarrow> klmalloc (nmemb * sz) s;
          Some (ptr, if ptr \<noteq> 0 then s\<lparr>kmem := memset (unat ptr) 0 (sint (nmemb * sz)) (kmem s)\<rparr> else s) }"

definition calloc :: "u32 \<Rightarrow> u32 \<Rightarrow> alloc \<Rightarrow> (u32 \<times> alloc) option" where "calloc = klcalloc"


section \<open>The bin of a size\<close>

lemma bit_unat_div: "bit (w :: u32) i \<longleftrightarrow> odd (unat w div 2 ^ i)"
proof -
  have "bit (unat w) i \<longleftrightarrow> bit w i" by (simp add: bit_unsigned_iff)
  then show ?thesis by (simp add: bit_iff_odd)
qed

lemma clzl_top:
  assumes "w \<noteq> 0"
  obtains n where "clzl w = 31 - n" "n < 32" "2 ^ n \<le> unat w" "unat w < 2 ^ Suc n"
proof -
  have "1 \<le> unat w" using assms by (simp add: Suc_le_eq unat_gt_0)
  then obtain n where n: "2 ^ n \<le> unat w" "unat w < 2 ^ Suc n"
    using ex_power_ivl1 [of 2 "unat w"] by auto
  have "unat w < 2 ^ 32" using unsigned_less [of w] by simp
  then have "n < 32" using n(1) by (meson le_less_trans nat_power_less_imp_less zero_less_numeral)
  have top: "bit w n" "\<And>i. n < i \<Longrightarrow> \<not> bit w i"
  proof -
    have "unat w div 2 ^ n = 1" using n by (simp add: div_nat_eqI)
    then show "bit w n" by (simp add: bit_unat_div)
    fix i assume "n < i"
    then have "(2 :: nat) ^ Suc n \<le> 2 ^ i" by (intro power_increasing) auto
    then show "\<not> bit w i" using n(2) by (simp add: bit_unat_div)
  qed
  have "[0..<32] = [0..<n] @ n # [Suc n..<32]"
    using \<open>n < 32\<close> upt_add_eq_append [of 0 n "32 - n"] by (simp add: upt_conv_Cons)
  then have "clzl w = length [Suc n..<32]"
    using top by (simp add: clzl_def takeWhile_append)
  then show ?thesis using that n \<open>n < 32\<close> by simp
qed

lemma pow2_test:
  assumes "2 ^ n \<le> unat (w :: u32)" "unat w < 2 ^ Suc n"
  shows "w AND (w - 1) = 0 \<longleftrightarrow> unat w = 2 ^ n"
proof
  assume eq: "unat w = 2 ^ n"
  have "(of_nat (unat w) :: u32) = 2 ^ n" using eq by simp
  then have "w = 2 ^ n" by simp
  then show "w AND (w - 1) = 0"
    by (intro bit_word_eqI) (auto simp: bit_and_iff bit_exp_iff bit_mask_iff simp flip: mask_eq_exp_minus_1)
next
  assume 0: "w AND (w - 1) = 0"
  show "unat w = 2 ^ n"
  proof (rule ccontr)
    assume "unat w \<noteq> 2 ^ n"
    then have "unat (w - 1) = unat w - 1" "2 ^ n \<le> unat w - 1"
      using assms(1) by (auto simp: unat_sub_if' word_le_nat_alt)
    moreover have "(unat w - 1) div 2 ^ n = 1" "unat w div 2 ^ n = 1"
      using assms calculation(2) by (auto intro!: div_nat_eqI)
    ultimately have "bit (w - 1) n" "bit w n" by (simp_all add: bit_unat_div)
    then have "bit (w AND (w - 1)) n" by (simp add: bit_and_iff)
    then show False using 0 by simp
  qed
qed

lemma adjust_bin:
  "b \<le> 40 \<Longrightarrow> unat (klmalloc_adjust_bin (of_nat b)) = (if b \<le> 2 then 0 else min 10 (b - 3))"
  by (simp add: klmalloc_adjust_bin_def SMALLEST_BIN_LOG_def BIG_BIN_def NUM_BINS_def word_le_nat_alt
      word_less_nat_alt unat_of_nat_u32 unat_sub Let_def)

lemma bin_size_eq:
  assumes "2 ^ n \<le> unat sz" "unat sz < 2 ^ Suc n" "clzl sz = 31 - n" "n < 32"
  shows "unat (klmalloc_bin_size sz) =
    (let b = n + (if unat sz = 2 ^ n then 1 else 2) in if b \<le> 2 then 0 else min 10 (b - 3))"
proof -
  have "(31 - of_nat (clzl sz) :: u32) = of_nat n"
    using assms(3,4) by (simp add: of_nat_diff)
  then have "(4 * 8 - of_nat (clzl sz) :: u32) = of_nat n + 1"
    "(4 * 8 - of_nat (clzl sz) + 1 :: u32) = of_nat n + 2"
    by (simp_all add: algebra_simps)
  then have "klmalloc_bin_size sz = klmalloc_adjust_bin (of_nat (n + (if unat sz = 2 ^ n then 1 else 2)))"
    using pow2_test [OF assms(1,2)] unfolding klmalloc_bin_size_def Let_def
    by (cases "unat sz = 2 ^ n") (simp_all only: if_True if_False simp_thms add_0_right, simp_all add: add.commute)
  then show ?thesis using adjust_bin [of "n + (if unat sz = 2 ^ n then 1 else 2)"] assms(4)
    by (simp add: Let_def)
qed

lemma bin_size_bounds:
  assumes "sz \<noteq> 0"
  shows "let b = unat (klmalloc_bin_size sz)
         in b \<le> unat BIG_BIN \<and> (b < unat BIG_BIN \<longleftrightarrow> unat sz \<le> 2048) \<and>
            (b < unat BIG_BIN \<longrightarrow> unat sz \<le> 4 * 2 ^ b \<and> (0 < b \<longrightarrow> 4 * 2 ^ (b - 1) < unat sz))"
proof -
  obtain n where n: "clzl sz = 31 - n" "n < 32" "2 ^ n \<le> unat sz" "unat sz < 2 ^ Suc n"
    using clzl_top [OF assms] by blast
  have big: "unat BIG_BIN = 10" by (simp add: BIG_BIN_def NUM_BINS_def)
  show ?thesis
  proof (cases "n \<le> 11")
    case True
    then have "n \<in> {0,1,2,3,4,5,6,7,8,9,10,11}" unfolding insert_iff empty_iff by presburger
    then show ?thesis using bin_size_eq [OF n(3,4,1,2)] n(3,4) big by (auto simp: Let_def)
  next
    case False
    then have "(2 :: nat) ^ 12 \<le> 2 ^ n" by (intro power_increasing) auto
    then show ?thesis using bin_size_eq [OF n(3,4,1,2)] n(3) big False by (simp add: Let_def)
  qed
qed

text \<open>
  C37.  The bin of a request.  Requests of up to 2048 bytes go to one of the ten small bins, whose
  cells of \<open>4 * 2 ^ b\<close> bytes hold the request, and no smaller bin would do; larger requests go
  to the big bin.
\<close>
theorem bin_size_fits:
  assumes "sz \<noteq> 0"
  shows "let b = unat (klmalloc_bin_size sz)
         in b \<le> unat BIG_BIN \<and> (b < unat BIG_BIN \<longleftrightarrow> unat sz \<le> 2048) \<and>
            (b < unat BIG_BIN \<longrightarrow> unat sz \<le> 4 * 2 ^ b \<and> (0 < b \<longrightarrow> 4 * 2 ^ (b - 1) < unat sz))"
  using bin_size_bounds [OF assms] .

theorem bin_size_fits_witness: "unat (klmalloc_bin_size 100) \<le> 10 \<and> (100 :: nat) \<le> 4 * 2 ^ unat (klmalloc_bin_size 100)"
  using bin_size_fits [of 100] by (simp add: BIG_BIN_def NUM_BINS_def Let_def)

end
