(* ===== verification/Paging.thy ===== *)
theory Paging
  imports Alloc
begin

text \<open>
  The second half of \<^verbatim>\<open>kernel/src/mem/mem.c\<close>: the placement allocator that serves until the heap
  is installed and hands over to it afterwards, making page tables on demand, cloning tables
  and directories, and the boot sequence \<^verbatim>\<open>paging_install\<close>, \<^verbatim>\<open>paging_finalize\<close>; with
  \<^verbatim>\<open>copy_page_physical\<close> of \<^verbatim>\<open>asm/task.S\<close>.

  A pointer argument \<^verbatim>\<open>uintptr_t *phys\<close> is a flag that says whether it is given, and what the
  callee stores through it is part of the result, \<open>None\<close> where nothing is stored.  The page
  fault handler only prints the fault and spins, and is not modelled; installing it in the
  interrupt table has no effect on this state.
\<close>

unbundle bit_operations_syntax

section \<open>The placement allocator\<close>

definition kmalloc_startat :: "u32 \<Rightarrow> alloc \<Rightarrow> alloc" where
  "kmalloc_startat address s = s\<lparr>placement_pointer := address\<rparr>"

text \<open>Giving a large aligned block a run of consecutive frames, uncached.\<close>
definition contiguous_page :: "u32 \<Rightarrow> u32 \<Rightarrow> u32 \<Rightarrow> alloc \<Rightarrow> alloc option" where
  "contiguous_page address index i s =
     do { s \<leftarrow> set_frame ((index + i) * 0x1000) s;
          r \<leftarrow> get_page_lookup (address + i * 0x1000) (kernel_directory s) s;
          page \<leftarrow> r;
          p \<leftarrow> rd_page s page;
          wr_page page (p\<lparr>frame := ucast (index + i), writethrough := True, cachedisable := True\<rparr>) s }"

definition release_page :: "u32 \<Rightarrow> alloc \<Rightarrow> alloc option" where
  "release_page i s = do { a \<leftarrow> map_to_physical i s; clear_frame a s }"

definition kmalloc_heap :: "int \<Rightarrow> int \<Rightarrow> bool \<Rightarrow> alloc \<Rightarrow> (u32 \<times> u32 option \<times> alloc) option" where
  "kmalloc_heap sz align want s =
     do { (address, s) \<leftarrow> (if align \<noteq> 0 then valloc (of_int sz) s else malloc (of_int sz) s);
          if \<not> want then Some (address, None, s)
          else if align \<noteq> 0 \<and> sz \<ge> 0x3000
          then do { s \<leftarrow> for_below (\<lambda>_. address + of_int sz) 0x1000 release_page address s;
                    index \<leftarrow> first_n_frames ((sz + 0xFFF) div 0x1000) s;
                    if index = 0xFFFFFFFF then Some (0, None, s)
                    else do { s \<leftarrow> for_below (\<lambda>_. of_int ((sz + 0xFFF) div 0x1000)) 1
                                    (contiguous_page address index) 0 s;
                              a \<leftarrow> map_to_physical address s;
                              Some (address, Some a, s) } }
          else do { a \<leftarrow> map_to_physical address s; Some (address, Some a, s) } }"

definition kmalloc_real :: "int \<Rightarrow> int \<Rightarrow> bool \<Rightarrow> alloc \<Rightarrow> (u32 \<times> u32 option \<times> alloc) option" where
  "kmalloc_real sz align want s =
     (if heap_end s \<noteq> 0 then kmalloc_heap sz align want s
      else let pp = placement_pointer s;
               pp = (if align \<noteq> 0 \<and> pp AND 0xFFFFF000 \<noteq> 0 then (pp AND 0xFFFFF000) + 0x1000 else pp)
           in Some (pp, if want then Some pp else None, s\<lparr>placement_pointer := pp + of_int sz\<rparr>))"

definition kmalloc :: "int \<Rightarrow> alloc \<Rightarrow> (u32 \<times> alloc) option" where
  "kmalloc sz s = do { (a, _, s) \<leftarrow> kmalloc_real sz 0 False s; Some (a, s) }"

definition kvmalloc :: "int \<Rightarrow> alloc \<Rightarrow> (u32 \<times> alloc) option" where
  "kvmalloc sz s = do { (a, _, s) \<leftarrow> kmalloc_real sz 1 False s; Some (a, s) }"

definition kmalloc_p :: "int \<Rightarrow> alloc \<Rightarrow> (u32 \<times> u32 option \<times> alloc) option" where
  "kmalloc_p sz s = kmalloc_real sz 0 True s"

definition kvmalloc_p :: "int \<Rightarrow> alloc \<Rightarrow> (u32 \<times> u32 option \<times> alloc) option" where
  "kvmalloc_p sz s = kmalloc_real sz 1 True s"

section \<open>Tables and directories\<close>

definition sizeof_page_table :: int where "sizeof_page_table = 4096"
definition sizeof_page_directory :: int where "sizeof_page_directory = 8200"

definition zero_table :: page_table_t where
  "zero_table = replicate 1024 zero_page"

definition zero_directory :: page_directory_t where
  "zero_directory = \<lparr>physical_tables = replicate 1024 0, tables = replicate 1024 0,
                     physical_address = 0, ref_count = 0\<rparr>"

definition get_page :: "u32 \<Rightarrow> int \<Rightarrow> u32 \<Rightarrow> alloc \<Rightarrow> (page_ref option \<times> alloc) option" where
  "get_page address mk dir s =
     do { r \<leftarrow> get_page_lookup address dir s;
          (case r of
             Some page \<Rightarrow> Some (Some page, s)
           | None \<Rightarrow>
               if mk \<noteq> 0
               then do { let address = address div 0x1000;
                         let table_index = unat (address div 1024);
                         (t, temp, s) \<leftarrow> kvmalloc_p sizeof_page_table s;
                         temp \<leftarrow> temp;
                         d \<leftarrow> dirs s dir;
                         ts \<leftarrow> upd_opt (tables d) table_index t;
                         ps \<leftarrow> upd_opt (physical_tables d) table_index (temp OR 0x7);
                         if t = 0 then None
                         else Some (Some (t, unat (address mod 1024)),
                                    s\<lparr>dirs := (dirs s)(dir \<mapsto> d\<lparr>tables := ts, physical_tables := ps\<rparr>),
                                      tbls := (tbls s)(t \<mapsto> zero_table)\<rparr>) }
               else Some (None, s)) }"

text \<open>\<^verbatim>\<open>asm/task.S\<close>: 1024 dwords, one at a time, with paging off.\<close>
definition copy_dword :: "u32 \<Rightarrow> u32 \<Rightarrow> nat \<Rightarrow> (u32 \<Rightarrow> u32) \<Rightarrow> (u32 \<Rightarrow> u32)" where
  "copy_dword src dst k m = m(dst + 4 * of_nat k := m (src + 4 * of_nat k))"

definition copy_page_physical :: "u32 \<Rightarrow> u32 \<Rightarrow> 'a mm_scheme \<Rightarrow> 'a mm_scheme" where
  "copy_page_physical src dst s =
     s\<lparr>phys := fold (copy_dword src dst) [0..<1024] (phys s)\<rparr>"

definition clone_page :: "u32 \<Rightarrow> u32 \<Rightarrow> nat \<Rightarrow> 'a mm_scheme \<Rightarrow> 'a mm_scheme option" where
  "clone_page src table i s =
     do { p \<leftarrow> rd_page s (src, i);
          if frame p = 0 then Some s
          else do { s \<leftarrow> alloc_frame (table, i) 0 0 s;
                    q \<leftarrow> rd_page s (table, i);
                    let q = (if present p then q\<lparr>present := True\<rparr> else q);
                    let q = (if rw p then q\<lparr>rw := True\<rparr> else q);
                    let q = (if user p then q\<lparr>user := True\<rparr> else q);
                    let q = (if writethrough p then q\<lparr>writethrough := True\<rparr> else q);
                    let q = (if cachedisable p then q\<lparr>cachedisable := True\<rparr> else q);
                    s \<leftarrow> wr_page (table, i) q s;
                    Some (copy_page_physical (ucast (frame p) * 0x1000) (ucast (frame q) * 0x1000) s) } }"

fun clone_pages :: "u32 \<Rightarrow> u32 \<Rightarrow> nat list \<Rightarrow> 'a mm_scheme \<Rightarrow> 'a mm_scheme option" where
  "clone_pages src table [] s = Some s"
| "clone_pages src table (i # is) s =
     do { s \<leftarrow> clone_page src table i s; clone_pages src table is s }"

definition clone_table :: "u32 \<Rightarrow> alloc \<Rightarrow> (u32 \<times> u32 option \<times> alloc) option" where
  "clone_table src s =
     do { (table, physAddr, s) \<leftarrow> kvmalloc_p sizeof_page_table s;
          s \<leftarrow> clone_pages src table [0..<1024] (s\<lparr>tbls := (tbls s)(table \<mapsto> zero_table)\<rparr>);
          Some (table, physAddr, s) }"

definition SHM_START :: u32 where "SHM_START = 0xB0000000"

definition set_table :: "u32 \<Rightarrow> nat \<Rightarrow> u32 \<Rightarrow> u32 \<Rightarrow> alloc \<Rightarrow> alloc option" where
  "set_table dir i t p s =
     do { d \<leftarrow> dirs s dir;
          ts \<leftarrow> upd_opt (tables d) i t;
          ps \<leftarrow> upd_opt (physical_tables d) i p;
          Some (s\<lparr>dirs := (dirs s)(dir \<mapsto> d\<lparr>tables := ts, physical_tables := ps\<rparr>)\<rparr>) }"

definition clone_entry :: "u32 \<Rightarrow> u32 \<Rightarrow> nat \<Rightarrow> alloc \<Rightarrow> alloc option" where
  "clone_entry src dir i s =
     do { d \<leftarrow> dirs s src;
          k \<leftarrow> dirs s (kernel_directory s);
          t \<leftarrow> nth_opt (tables d) i;
          kt \<leftarrow> nth_opt (tables k) i;
          if t = 0 \<or> t = 0xFFFFFFFF then Some s
          else if kt = t
          then do { p \<leftarrow> nth_opt (physical_tables d) i; set_table dir i t p s }
          else if of_nat i * 0x1000 * 1024 < SHM_START
          then do { (t', phys', s) \<leftarrow> clone_table t s;
                    p \<leftarrow> phys';
                    set_table dir i t' (p OR 0x07) s }
          else Some s }"

fun clone_entries :: "u32 \<Rightarrow> u32 \<Rightarrow> nat list \<Rightarrow> alloc \<Rightarrow> alloc option" where
  "clone_entries src dir [] s = Some s"
| "clone_entries src dir (i # is) s =
     do { s \<leftarrow> clone_entry src dir i s; clone_entries src dir is s }"

definition clone_directory :: "u32 \<Rightarrow> alloc \<Rightarrow> (u32 \<times> alloc) option" where
  "clone_directory src s =
     do { (dir, phys', s) \<leftarrow> kvmalloc_p sizeof_page_directory s;
          p \<leftarrow> phys';
          let s = s\<lparr>dirs := (dirs s)(dir \<mapsto> zero_directory\<lparr>ref_count := 1, physical_address := p\<rparr>)\<rparr>;
          s \<leftarrow> clone_entries src dir [0..<1024] s;
          Some (dir, s) }"

section \<open>Boot\<close>

definition paging_install :: "u32 \<Rightarrow> alloc \<Rightarrow> alloc option" where
  "paging_install memsize s =
     do { let s = s\<lparr>nframes := memsize div 4\<rparr>;
          let bytes = nframes s * 8 div 0x20;
          (_, s) \<leftarrow> kmalloc (uint bytes) s;
          let s = s\<lparr>frames := replicate (unat bytes div 4) 0\<rparr>;
          (kd, phys', s) \<leftarrow> kvmalloc_p sizeof_page_directory s;
          Some (s\<lparr>kernel_directory := kd, dirs := (dirs s)(kd \<mapsto> zero_directory)\<rparr>) }"

definition identity_page :: "int \<Rightarrow> int \<Rightarrow> int \<Rightarrow> u32 \<Rightarrow> alloc \<Rightarrow> alloc option" where
  "identity_page mk is_kernel is_writeable i s =
     do { (r, s) \<leftarrow> get_page i mk (kernel_directory s) s;
          page \<leftarrow> r;
          dma_frame page is_kernel is_writeable i s }"

definition heap_page :: "u32 \<Rightarrow> alloc \<Rightarrow> alloc option" where
  "heap_page i s =
     do { (r, s) \<leftarrow> get_page i 1 (kernel_directory s) s; page \<leftarrow> r; alloc_frame page 1 0 s }"

definition make_page :: "u32 \<Rightarrow> alloc \<Rightarrow> alloc option" where
  "make_page i s = do { (r, s) \<leftarrow> get_page i 1 (kernel_directory s) s; Some s }"

definition paging_finalize :: "alloc \<Rightarrow> alloc option" where
  "paging_finalize s =
     do { (r, s) \<leftarrow> get_page 0 1 (kernel_directory s) s;
          page \<leftarrow> r;
          p \<leftarrow> rd_page s page;
          s \<leftarrow> wr_page page (p\<lparr>present := False\<rparr>) s;
          s \<leftarrow> set_frame 0 s;
          s \<leftarrow> for_below (\<lambda>_. 0x80000) 0x1000 (identity_page 1 1 0) 0x1000 s;
          s \<leftarrow> for_below (\<lambda>_. 0x100000) 0x1000 (identity_page 1 1 0) 0x80000 s;
          s \<leftarrow> for_below (\<lambda>s. placement_pointer s + 0x3000) 0x1000 (identity_page 1 1 0) 0x100000 s;
          s \<leftarrow> for_below (\<lambda>_. 0xc0000) 0x1000 (identity_page 0 0 1) 0xb8000 s;
          d \<leftarrow> dirs s (kernel_directory s);
          let s = s\<lparr>dirs := (dirs s)(kernel_directory s \<mapsto> d\<lparr>physical_address := kernel_directory s\<rparr>)\<rparr>;
          let (tmp_heap_start, s) =
            (if KERNEL_HEAP_INIT \<le> placement_pointer s + 0x3000
             then (placement_pointer s + 0x100000,
                   s\<lparr>kernel_heap_alloc_point := placement_pointer s + 0x100000\<rparr>)
             else (KERNEL_HEAP_INIT, s));
          s \<leftarrow> for_below (\<lambda>_. tmp_heap_start) 0x1000 heap_page (placement_pointer s + 0x3000) s;
          s \<leftarrow> for_below (\<lambda>_. KERNEL_HEAP_END) 0x1000 make_page tmp_heap_start s;
          (d, s) \<leftarrow> clone_directory (kernel_directory s) s;
          let s = s\<lparr>current_directory := d\<rparr>;
          Some (switch_page_directory (kernel_directory s) s) }"

section \<open>Copies of physical pages\<close>

text \<open>Dword \<open>k\<close> of frame \<open>f\<close>.\<close>
definition page_word :: "(u32 \<Rightarrow> u32) \<Rightarrow> nat \<Rightarrow> nat \<Rightarrow> u32" where
  "page_word m f k = m (of_nat f * 0x1000 + 4 * of_nat k)"

lemma page_word_addr:
  assumes "f < 2 ^ 20" "k < 1024"
  shows "unat (of_nat f * 0x1000 + 4 * of_nat k :: u32) = f * 4096 + 4 * k"
  using assms by (simp add: unat_word_ariths unat_of_nat_u32)

lemma page_word_inj:
  assumes "f < 2 ^ 20" "k < 1024" "f' < 2 ^ 20" "k' < 1024"
  shows "(of_nat f * 0x1000 + 4 * of_nat k :: u32) = of_nat f' * 0x1000 + 4 * of_nat k' \<longleftrightarrow> f = f' \<and> k = k'"
proof -
  have "(f * 4096 + 4 * k) div 4096 = f" "(f' * 4096 + 4 * k') div 4096 = f'"
    using assms(2,4) by (simp_all add: div_nat_eqI)
  then have "f * 4096 + 4 * k = f' * 4096 + 4 * k' \<longleftrightarrow> f = f' \<and> k = k'"
    by (metis add_left_imp_eq mult_left_cancel zero_neq_numeral)
  then show ?thesis
    using page_word_addr [OF assms(1,2)] page_word_addr [OF assms(3,4)] by (simp add: word_unat_eq_iff)
qed

lemma page_word_upd:
  assumes "f < 2 ^ 20" "k < 1024" "f' < 2 ^ 20" "k' < 1024"
  shows "page_word (m(of_nat f' * 0x1000 + 4 * of_nat k' := v)) f k =
    (if f = f' \<and> k = k' then v else page_word m f k)"
  using page_word_inj [OF assms] by (simp add: page_word_def)

lemma page_word_copy:
  assumes "fs < 2 ^ 20" "fd < 2 ^ 20" "f < 2 ^ 20" "k < 1024" "n < 1024"
  shows "page_word (copy_dword (of_nat fs * 0x1000) (of_nat fd * 0x1000) n m) f k =
    (if f = fd \<and> k = n then page_word m fs n else page_word m f k)"
  using page_word_upd [OF assms(3,4,2,5)] by (simp add: copy_dword_def page_word_def)

lemma copy_words:
  assumes "n \<le> 1024" "fs < 2 ^ 20" "fd < 2 ^ 20" "fs \<noteq> fd" "f < 2 ^ 20" "k < 1024"
  shows "page_word (fold (copy_dword (of_nat fs * 0x1000) (of_nat fd * 0x1000)) [0..<n] m) f k =
    (if f = fd \<and> k < n then page_word m fs k else page_word m f k)"
  using assms
  by (induction n arbitrary: f k) (auto simp: page_word_copy less_Suc_eq)

lemma copy_page_physical_word:
  assumes "fs < 2 ^ 20" "fd < 2 ^ 20" "fs \<noteq> fd" "f < 2 ^ 20" "k < 1024"
  shows "page_word (phys (copy_page_physical (of_nat fs * 0x1000) (of_nat fd * 0x1000) s)) f k =
    (if f = fd then page_word (phys s) fs k else page_word (phys s) f k)"
  using copy_words [of 1024 fs fd f k "phys s"] assms by (simp add: copy_page_physical_def)

section \<open>Cloning a table\<close>

text \<open>Entry \<open>i\<close> of the clone \<open>table\<close> of the entries \<open>ps\<close>.\<close>
definition cloned :: "'a mm_scheme \<Rightarrow> page_table_t \<Rightarrow> u32 \<Rightarrow> 'a mm_scheme \<Rightarrow> nat \<Rightarrow> bool" where
  "cloned s ps table u i \<longleftrightarrow> (\<exists>q. rd_page u (table, i) = Some q \<and>
     (if frame (ps ! i) = 0 then q = zero_page
      else frame q \<noteq> 0 \<and> \<not> bm (frames s) (unat (frame q)) \<and> present q \<and> rw q \<and> user q \<and>
           writethrough q = writethrough (ps ! i) \<and> cachedisable q = cachedisable (ps ! i) \<and>
           (\<forall>k<1024. page_word (phys u) (unat (frame q)) k =
                     page_word (phys s) (unat (frame (ps ! i))) k)))"

definition cloning :: "'a mm_scheme \<Rightarrow> page_table_t \<Rightarrow> u32 \<Rightarrow> nat set \<Rightarrow> 'a mm_scheme \<Rightarrow> bool" where
  "cloning s ps table done u \<longleftrightarrow> own_ok u \<and>
     (\<forall>r. fst r \<noteq> table \<longrightarrow> entry (tbls u) r = entry (tbls s) r) \<and>
     (\<forall>f. bm (frames s) f \<longrightarrow> bm (frames u) f) \<and>
     (\<forall>f k. f < 2 ^ 20 \<longrightarrow> k < 1024 \<longrightarrow> bm (frames s) f \<longrightarrow> page_word (phys u) f k = page_word (phys s) f k) \<and>
     (\<forall>i\<in>done. cloned s ps table u i) \<and>
     (\<forall>i<1024. i \<notin> done \<longrightarrow> entry (tbls u) (table, i) = Some zero_page)"

definition to_clone :: "page_table_t \<Rightarrow> nat list \<Rightarrow> nat" where
  "to_clone ps is = length (filter (\<lambda>i. frame (ps ! i) \<noteq> 0) is)"

lemma unat_20: "unat (x :: 20 word) < 2 ^ 20"
  using unsigned_less [of x] by simp

lemma clone_page_empty:
  assumes "cloning s ps table done u" "i < 1024" "i \<notin> done" "src \<noteq> table"
    and "entry (tbls s) (src, i) = Some (ps ! i)" "frame (ps ! i) = 0"
  shows "clone_page src table i u = Some u \<and> cloning s ps table (insert i done) u"
proof -
  have "entry (tbls u) (table, i) = Some zero_page" "entry (tbls u) (src, i) = Some (ps ! i)"
    using assms(1-5) unfolding cloning_def by (blast, metis fst_conv)
  then have "clone_page src table i u = Some u" "cloned s ps table u i"
    using assms(6) by (simp_all add: clone_page_def cloned_def rd_page_entry)
  then show ?thesis using assms(1) unfolding cloning_def by blast
qed

lemma ucast_20_of_nat: "k < 2 ^ 20 \<Longrightarrow> (ucast (of_nat k :: 20 word) :: u32) = of_nat k"
  using unat_frame_20 [of k] by (metis of_nat_unat)

lemma clone_page_full:
  assumes c: "cloning s ps table done u" and i: "i < 1024" "i \<notin> done" and st: "src \<noteq> table"
    and src: "entry (tbls s) (src, i) = Some (ps ! i)" "frame (ps ! i) \<noteq> 0"
    and own: "own_ok s" and n: "0 < free_frames u"
  shows "\<exists>v. clone_page src table i u = Some v \<and> cloning s ps table (insert i done) v \<and>
             free_frames u \<le> Suc (free_frames v)"
proof -
  let ?r = "(table, i)" and ?p = "ps ! i"
  have u: "own_ok u" "\<And>r. fst r \<noteq> table \<Longrightarrow> entry (tbls u) r = entry (tbls s) r"
    "\<And>f. bm (frames s) f \<Longrightarrow> bm (frames u) f"
    "\<And>f k. f < 2 ^ 20 \<Longrightarrow> k < 1024 \<Longrightarrow> bm (frames s) f \<Longrightarrow> page_word (phys u) f k = page_word (phys s) f k"
    "\<And>i. i \<in> done \<Longrightarrow> cloned s ps table u i"
    "\<And>i. i < 1024 \<Longrightarrow> i \<notin> done \<Longrightarrow> entry (tbls u) (table, i) = Some zero_page"
    using c unfolding cloning_def by blast+
  have e: "entry (tbls u) ?r = Some zero_page" "entry (tbls u) (src, i) = Some ?p"
    using u(6) i u(2) [of "(src, i)"] st src(1) by auto
  have fs: "bm (frames s) (unat (frame ?p))"
    using own_okD(4) [OF own, of "(src, i)"] src by (simp add: held_def unsigned_eq_0_iff)
  obtain k where k: "lowest_free (frames u) (scanned u) k" "k < unat (nframes u)" "k < 2 ^ 20"
    using n first_frame_cases [OF own_okD(1) [OF u(1)]] unfolding free_frames_pos by metis
  have ix: "k div 32 < length (frames u)" using bm_ok_index own_okD(1) [OF u(1)] k(2) by blast
  have nb: "\<not> bm (frames u) k" "k \<noteq> 0" using k(1) own_okD(2) [OF u(1)] by (metis lowest_free_def)+
  let ?q = "\<lambda>w c. (mapped (zero_page\<lparr>frame := of_nat k\<rparr>))\<lparr>writethrough := w, cachedisable := c\<rparr>"
  let ?T = "set_entry ?r (?q False False) (tbls u)"
  let ?T' = "set_entry ?r (?q (writethrough ?p) (cachedisable ?p)) ?T"
  define v where "v = copy_page_physical (of_nat (unat (frame ?p)) * 0x1000) (of_nat k * 0x1000)
    (u\<lparr>frames := bm_set (frames u) k, tbls := ?T'\<rparr>)"
  have T: "entry ?T = (entry (tbls u))(?r \<mapsto> ?q False False)" by (rule entry_set_entry [OF e(1)])
  have T': "entry ?T' = (entry (tbls u))(?r \<mapsto> ?q (writethrough ?p) (cachedisable ?p))"
    using entry_set_entry [of ?T ?r] T by simp
  have fields: "tbls v = ?T'" "frames v = bm_set (frames u) k" "nframes v = nframes u"
    by (simp_all add: v_def copy_page_physical_def)
  define w where "w = u\<lparr>frames := bm_set (frames u) k, tbls := ?T\<rparr>"
  have w: "alloc_frame ?r 0 0 u = Some w" "tbls w = ?T" "entry (tbls w) ?r = Some (?q False False)"
    using alloc_frame_new [OF own_okD(1) [OF u(1)] e(1) _ k(1), of 0 0] T
    by (simp_all add: w_def mapped_def zero_page_def)
  have res: "clone_page src table i u = Some v"
    using e(2) src(2) w(1) wr_page_eq [OF w(3)] w(3)
    by (cases "writethrough ?p"; cases "cachedisable ?p")
       (simp_all add: clone_page_def rd_page_entry w(2) v_def w_def mapped_def zero_page_def
          ucast_20_of_nat [OF k(3)] Let_def)
  have ov: "own_ok v"
  proof (rule own_ok_take [OF u(1) k(1) fields(2,3)])
    show "held v = (held u)(?r := k)"
      using T' by (auto simp: held_def fields fun_eq_iff unat_frame_20 [OF k(3)] mapped_def)
  qed
  have ff: "free_frames u \<le> Suc (free_frames v)"
    using free_frames_set [OF k(1) ix, of ?T'] fields(2,3) by (simp add: free_frames_def scanned_def)
  have ne: "unat (frame ?p) \<noteq> k" using fs u(3) nb(1) by metis
  have pw: "page_word (phys v) f j = (if f = k then page_word (phys u) (unat (frame ?p)) j
      else page_word (phys u) f j)" if "f < 2 ^ 20" "j < 1024" for f j
    unfolding v_def copy_page_physical_word [OF unat_20 k(3) ne that] by simp
  have old: "cloned s ps table v j" if jd: "j \<in> done" for j
  proof -
    obtain q where q: "entry (tbls u) (table, j) = Some q" and ok: "if frame (ps ! j) = 0 then q = zero_page
        else frame q \<noteq> 0 \<and> \<not> bm (frames s) (unat (frame q)) \<and> present q \<and> rw q \<and> user q \<and>
           writethrough q = writethrough (ps ! j) \<and> cachedisable q = cachedisable (ps ! j) \<and>
           (\<forall>k<1024. page_word (phys u) (unat (frame q)) k = page_word (phys s) (unat (frame (ps ! j))) k)"
      using u(5) [OF jd] unfolding cloned_def rd_page_entry by blast
    have "entry (tbls v) (table, j) = Some q" using q T' fields(1) i(2) jd by auto
    moreover have "unat (frame q) \<noteq> k" if "frame q \<noteq> 0"
      using own_okD(4) [OF u(1), of "(table, j)"] q that nb(1) by (auto simp: held_def unsigned_eq_0_iff)
    ultimately show ?thesis using ok pw [OF unat_20] unfolding cloned_def rd_page_entry by auto
  qed
  have new: "cloned s ps table v i"
    using T' fields(1) src(2) nb u(3) pw [OF k(3)] u(4) [OF unat_20 _ fs]
    unfolding cloned_def rd_page_entry by (auto simp: mapped_def unat_frame_20 [OF k(3)] word_unat_eq_iff)
  have "cloning s ps table (insert i done) v"
    unfolding cloning_def
  proof (intro conjI ballI allI impI)
    show "own_ok v" by (rule ov)
    show "entry (tbls v) r = entry (tbls s) r" if "fst r \<noteq> table" for r
      using u(2) [OF that] that T' fields(1) by auto
    show bv: "bm (frames v) f" if "bm (frames s) f" for f using u(3) [OF that] fields(2) bm_set_iff [OF ix] by simp
    show "page_word (phys v) f j = page_word (phys s) f j" if "f < 2 ^ 20" "j < 1024" "bm (frames s) f" for f j
      using pw [OF that(1,2)] u(4) [OF that] u(3) [OF that(3)] nb(1) by auto
    show "cloned s ps table v j" if "j \<in> insert i done" for j using old new that by blast
    show "entry (tbls v) (table, j) = Some zero_page" if "j < 1024" "j \<notin> insert i done" for j
      using u(6) that T' fields(1) by auto
  qed
  then show ?thesis using res ff by blast
qed

lemma clone_pages_ok:
  assumes "cloning s ps table done u" "distinct is" "set is \<inter> done = {}" "\<forall>i\<in>set is. i < 1024"
    and "src \<noteq> table" "\<forall>i<1024. entry (tbls s) (src, i) = Some (ps ! i)" "own_ok s"
    and "to_clone ps is \<le> free_frames u"
  shows "\<exists>v. clone_pages src table is u = Some v \<and> cloning s ps table (done \<union> set is) v"
  using assms
proof (induction "is" arbitrary: u "done")
  case (Cons i "is")
  have i: "i < 1024" "i \<notin> done" "entry (tbls s) (src, i) = Some (ps ! i)"
    using Cons.prems(3,4,6) by auto
  obtain w where w: "clone_page src table i u = Some w" "cloning s ps table (insert i done) w"
    "to_clone ps is \<le> free_frames w"
  proof (cases "frame (ps ! i) = 0")
    case True
    then show ?thesis using that clone_page_empty [OF Cons.prems(1) i(1,2) Cons.prems(5) i(3) True]
        Cons.prems(8) by (simp add: to_clone_def)
  next
    case False
    then have "0 < free_frames u" using Cons.prems(8) by (simp add: to_clone_def)
    then show ?thesis using that Cons.prems(8) False
        clone_page_full [OF Cons.prems(1) i(1,2) Cons.prems(5) i(3) False Cons.prems(7)]
      by (fastforce simp: to_clone_def)
  qed
  have "\<exists>v. clone_pages src table is w = Some v \<and> cloning s ps table (insert i done \<union> set is) v"
    by (rule Cons.IH [OF w(2)]) (use Cons.prems w(3) in auto)
  then show ?case using w(1) by simp
qed simp

text \<open>
  C7.  Cloning a table gives the child its own copy.  With enough free frames the loop of
  \<^verbatim>\<open>clone_table\<close> returns; an entry of the new table is empty exactly where the source's is, and
  otherwise has a frame that was free before, so that no page is shared, with the contents of
  the source's page; the source table and every page in use before are unchanged, and the
  frames are still owned.
\<close>
theorem clone_table_copies:
  assumes "own_ok s" "src \<noteq> table" "tbls s src = Some ps" "length ps = 1024"
    and "tbls s table = Some zero_table" "to_clone ps [0..<1024] \<le> free_frames s"
  shows "\<exists>u. clone_pages src table [0..<1024] s = Some u \<and> own_ok u \<and>
     (\<forall>i<1024. cloned s ps table u i \<and> rd_page u (src, i) = Some (ps ! i)) \<and>
     (\<forall>f<2 ^ 20. \<forall>k<1024. bm (frames s) f \<longrightarrow> page_word (phys u) f k = page_word (phys s) f k)"
proof -
  have src: "\<forall>i<1024. entry (tbls s) (src, i) = Some (ps ! i)"
    and tab: "\<forall>i<1024. entry (tbls s) (table, i) = Some zero_page"
    using assms(3-5) by (simp_all add: entry_def zero_table_def)
  have "cloning s ps table {} s" using assms(1) tab unfolding cloning_def by blast
  then obtain u where u: "clone_pages src table [0..<1024] s = Some u" "cloning s ps table {0..<1024} u"
    using clone_pages_ok [of s ps table "{}" s "[0..<1024]" src] assms src by auto
  then show ?thesis using assms(2) src unfolding cloning_def rd_page_entry
    by (intro exI [of _ u]) simp
qed


text \<open>A table with one page, in frame 1, and an empty table to clone it into.\<close>
definition one_page :: page_table_t where
  "one_page = zero_page\<lparr>frame := 1, present := True\<rparr> # replicate 1023 zero_page"

definition clone_mm :: mm where
  "clone_mm = small_mm\<lparr>frames := [3, 0, 0, 0], phys := (\<lambda>a. a + 5),
                       tbls := [0x5000 \<mapsto> one_page, 0x6000 \<mapsto> zero_table]\<rparr>"

lemma one_page_nth: "i < 1024 \<Longrightarrow> frame (one_page ! i) = (if i = 0 then 1 else 0)"
  by (simp add: one_page_def nth_Cons' zero_page_def)

lemma clone_mm_held: "held clone_mm r = (if r = (0x5000, 0) then 1 else 0)"
proof -
  obtain t i where r: "r = (t, i)" by (cases r)
  have "length one_page = 1024" by (simp add: one_page_def)
  then show ?thesis
    by (auto simp: r held_def clone_mm_def entry_def nth_opt_def one_page_nth zero_table_def zero_page_def
        split: if_splits)
qed

lemma clone_mm_own_ok: "own_ok clone_mm"
  unfolding own_ok_def clone_mm_held
  by (simp add: bm_ok_def bm_def clone_mm_def small_mm_def bit_iff_odd)

lemma one_page_to_clone: "n < 1024 \<Longrightarrow> to_clone one_page [0..<Suc n] = 1"
proof (induction n)
  case (Suc n)
  have "[0..<Suc (Suc n)] = [0..<Suc n] @ [Suc n]" by (subst upt_Suc) simp
  then show ?case using Suc one_page_nth [of "Suc n"] by (simp add: to_clone_def del: upt_Suc)
qed (simp add: to_clone_def one_page_nth)

lemma clone_mm_to_clone: "to_clone one_page [0..<1024] \<le> free_frames clone_mm"
proof -
  have n: "(1024 :: nat) = Suc 1023" by simp
  have "to_clone one_page [0..<1024] = 1" unfolding n by (rule one_page_to_clone) simp
  moreover have "0 < free_frames clone_mm"
    unfolding free_frames_pos by (rule exI [of _ 2]) (simp add: scanned_def clone_mm_def small_mm_def bm_def bit_iff_odd)
  ultimately show ?thesis by linarith
qed

theorem clone_table_copies_witness:
  "\<exists>u. clone_pages 0x5000 0x6000 [0..<1024] clone_mm = Some u \<and> cloned clone_mm one_page 0x6000 u 0"
proof -
  have "\<exists>u. clone_pages 0x5000 0x6000 [0..<1024] clone_mm = Some u \<and> own_ok u \<and>
     (\<forall>i<1024. cloned clone_mm one_page 0x6000 u i \<and> rd_page u (0x5000, i) = Some (one_page ! i)) \<and>
     (\<forall>f<2 ^ 20. \<forall>k<1024. bm (frames clone_mm) f \<longrightarrow> page_word (phys u) f k = page_word (phys clone_mm) f k)"
    by (rule clone_table_copies [OF clone_mm_own_ok _ _ _ _ clone_mm_to_clone])
       (simp_all add: clone_mm_def one_page_def)
  then show ?thesis by (meson zero_less_numeral)
qed

end
