(* ===== verification/VfsPath.thy ===== *)
theory VfsPath
  imports Kutils
begin

text \<open>
  The path handling of \<^verbatim>\<open>kernel/src/fs/vfs.c\<close>: canonical paths, the pieces a path is chopped into,
  the last component, the directory of a symbolic link.  A path is the sequence of its bytes
  without the terminator.  The loops with \<^verbatim>\<open>strtok_r\<close> appear by the tokens it yields one after the
  other (theory \<open>KStrings\<close> shows this for one call), and the list that \<^verbatim>\<open>canonicalize_path\<close> uses as
  a stack by its values, last pushed last.
\<close>

section \<open>Names\<close>

type_synonym path = "u8 list"

definition PATH_SEPARATOR :: u8 where "PATH_SEPARATOR = 47"
definition PATH_UP :: path where "PATH_UP = [46, 46]"
definition PATH_DOT :: path where "PATH_DOT = [46]"

abbreviation is_sep :: "u8 \<Rightarrow> bool" where "is_sep c \<equiv> c = PATH_SEPARATOR"

section \<open>Canonical paths\<close>

text \<open>The tokens of a path: the maximal runs of bytes that are not separators.\<close>
function path_tokens :: "path \<Rightarrow> path list" where
  "path_tokens p =
     (let rest = dropWhile is_sep p
      in if rest = [] then []
         else takeWhile (\<lambda>c. \<not> is_sep c) rest #
              path_tokens (drop 1 (dropWhile (\<lambda>c. \<not> is_sep c) rest)))"
  by pat_completeness auto
termination
proof (relation "measure length", goal_cases)
  case (2 p rest)
  then have "0 < length rest" "length rest \<le> length p" by (auto simp: length_dropWhile_le)
  moreover have "length (dropWhile (\<lambda>c. \<not> is_sep c) rest) \<le> length rest"
    by (rule length_dropWhile_le)
  ultimately show ?case unfolding in_measure length_drop by linarith
qed simp

declare path_tokens.simps [simp del]

text \<open>One round of the second loop: \<^verbatim>\<open>..\<close> pops the stack if it can, \<^verbatim>\<open>.\<close> does nothing.\<close>
definition path_push :: "path \<Rightarrow> path list \<Rightarrow> path list" where
  "path_push pch out =
     (if str_cmp pch PATH_UP = 0 then butlast out
      else if str_cmp pch PATH_DOT = 0 then out
      else out @ [pch])"

definition path_join :: "path list \<Rightarrow> path" where
  "path_join out = concat (map (\<lambda>s. PATH_SEPARATOR # s) out)"

definition canonicalize_path :: "path \<Rightarrow> path \<Rightarrow> path" where
  "canonicalize_path cwd input =
     (let out = (if input \<noteq> [] \<and> hd input \<noteq> PATH_SEPARATOR then path_tokens cwd else []);
          out = fold path_push (path_tokens input) out;
          sz = (\<Sum>s\<leftarrow>out. length s + 1)
      in if sz = 0 then [PATH_SEPARATOR] else path_join out)"

section \<open>Chopped paths\<close>

text \<open>
  The pieces of a path whose separators have been overwritten by terminators.  The two loops
  over the pieces stop at different ends: \<open>pieces_before\<close> stops at the end of the path, so that
  it has no empty piece behind a trailing separator, \<open>pieces\<close> one byte later.
\<close>
fun pieces :: "path \<Rightarrow> path list" where
  "pieces [] = [[]]"
| "pieces (c # p) =
     (if is_sep c then [] # pieces p
      else case pieces p of [] \<Rightarrow> [[c]] | q # qs \<Rightarrow> (c # q) # qs)"

definition pieces_before :: "path \<Rightarrow> path list" where
  "pieces_before p = (let qs = pieces p in if last qs = [] then butlast qs else qs)"

text \<open>The path up to its separator number \<open>d\<close>, counted from \<open>0\<close>.\<close>
fun path_prefix :: "nat \<Rightarrow> path \<Rightarrow> path" where
  "path_prefix d [] = []"
| "path_prefix d (c # p) =
     (if is_sep c then (case d of 0 \<Rightarrow> [] | Suc d \<Rightarrow> c # path_prefix d p) else c # path_prefix d p)"

section \<open>The last component\<close>

text \<open>
  The scan backwards from the last byte stops behind the last separator, the first byte of the
  path not looked at.
\<close>
definition scan_back :: "path \<Rightarrow> path" where
  "scan_back p =
     (case find (\<lambda>i. is_sep (p ! i)) (rev [1..<length p]) of
        Some i \<Rightarrow> drop (i + 1) p
      | None \<Rightarrow> p)"

definition last_component :: "path \<Rightarrow> path" where
  "last_component p = dropWhile is_sep (scan_back p)"

definition parent_path :: "path \<Rightarrow> path" where
  "parent_path p = p @ PATH_SEPARATOR # PATH_UP"

section \<open>Facts on tokens and canonical paths\<close>

text \<open>A component: not empty, without separators or terminators, neither \<^verbatim>\<open>.\<close> nor \<^verbatim>\<open>..\<close>.\<close>
definition component :: "path \<Rightarrow> bool" where
  "component s \<longleftrightarrow> s \<noteq> [] \<and> PATH_SEPARATOR \<notin> set s \<and> 0 \<notin> set s \<and> s \<noteq> PATH_UP \<and> s \<noteq> PATH_DOT"

text \<open>What a canonical path is: the root, or components each behind a separator.\<close>
definition canonical :: "path \<Rightarrow> bool" where
  "canonical p \<longleftrightarrow> p = [PATH_SEPARATOR] \<or> (\<exists>cs. cs \<noteq> [] \<and> (\<forall>s \<in> set cs. component s) \<and> p = path_join cs)"

lemma path_tokens_Nil [simp]: "path_tokens [] = []"
  by (simp add: path_tokens.simps)

lemma path_tokens_sep [simp]: "path_tokens (PATH_SEPARATOR # p) = path_tokens p"
  by (subst (1 2) path_tokens.simps) simp

lemma path_tokens_piece:
  assumes "s \<noteq> []" "PATH_SEPARATOR \<notin> set s"
  shows "path_tokens (s @ PATH_SEPARATOR # p) = s # path_tokens p" "path_tokens s = [s]"
proof -
  have s: "dropWhile is_sep (s @ q) = s @ q" "takeWhile (\<lambda>c. \<not> is_sep c) s = s"
    "\<forall>c \<in> set s. \<not> is_sep c" for q
    using assms by (auto simp: dropWhile_append3 takeWhile_eq_all_conv neq_Nil_conv)
  then show "path_tokens (s @ PATH_SEPARATOR # p) = s # path_tokens p"
    using assms by (subst path_tokens.simps) (auto simp: Let_def takeWhile_append2 dropWhile_append2)
  have e: "dropWhile (\<lambda>c. \<not> is_sep c) s = []" using s(3) by (simp add: dropWhile_eq_Nil_conv)
  have "dropWhile is_sep s = s" using s(1) [of "[]"] by simp
  then show "path_tokens s = [s]"
    by (subst path_tokens.simps) (simp only: Let_def e s(2), simp add: assms)
qed

lemma path_tokens_join:
  assumes "\<forall>s \<in> set cs. s \<noteq> [] \<and> PATH_SEPARATOR \<notin> set s"
  shows "path_tokens (path_join cs) = cs"
  using assms
proof (induction cs)
  case (Cons s cs)
  then show ?case
  proof (cases cs)
    case Nil
    then show ?thesis using Cons.prems path_tokens_piece(2) by (simp add: path_join_def)
  next
    case (Cons t ts)
    then have "path_join cs = PATH_SEPARATOR # (t @ path_join ts)" by (simp add: path_join_def)
    then show ?thesis using Cons.IH Cons.prems path_tokens_piece(1) [of s "t @ path_join ts"] 
      by (simp add: path_join_def)
  qed
qed (simp add: path_join_def)

lemma set_path_tokens:
  "s \<in> set (path_tokens p) \<Longrightarrow> s \<noteq> [] \<and> PATH_SEPARATOR \<notin> set s \<and> set s \<subseteq> set p"
proof (induction p rule: path_tokens.induct)
  case (1 p)
  define rest where "rest = dropWhile is_sep p"
  have sub: "set rest \<subseteq> set p" by (auto simp: rest_def dest: set_dropWhileD)
  from 1(2) have s: "rest \<noteq> []" "s = takeWhile (\<lambda>c. \<not> is_sep c) rest \<or>
      s \<in> set (path_tokens (drop 1 (dropWhile (\<lambda>c. \<not> is_sep c) rest)))"
    by (auto simp: path_tokens.simps [of p] Let_def rest_def split: if_splits)
  have hd: "\<not> is_sep (hd rest)" using s(1) hd_dropWhile [of is_sep p] by (auto simp: rest_def)
  from s(2) show ?case
  proof
    assume *: "s = takeWhile (\<lambda>c. \<not> is_sep c) rest"
    then have "s \<noteq> []" using s(1) hd by (cases rest) auto
    then show ?thesis using * sub by (auto dest: set_takeWhileD)
  next
    assume *: "s \<in> set (path_tokens (drop 1 (dropWhile (\<lambda>c. \<not> is_sep c) rest)))"
    have "set (drop 1 (dropWhile (\<lambda>c. \<not> is_sep c) rest)) \<subseteq> set rest"
      by (auto dest: in_set_dropD set_dropWhileD)
    then show ?thesis using 1(1) [OF refl] s(1) * sub by (fastforce simp: rest_def)
  qed
qed

lemma component_push:
  "component s \<Longrightarrow> path_push s out = out @ [s]"
  by (simp add: path_push_def component_def str_cmp_0 PATH_UP_def PATH_DOT_def)

lemma path_push_components:
  assumes "\<forall>s \<in> set out. component s" "pch \<noteq> []" "PATH_SEPARATOR \<notin> set pch" "0 \<notin> set pch"
  shows "\<forall>s \<in> set (path_push pch out). component s"
proof -
  have "str_cmp pch PATH_UP = 0 \<longleftrightarrow> pch = PATH_UP" "str_cmp pch PATH_DOT = 0 \<longleftrightarrow> pch = PATH_DOT"
    using assms(4) by (simp_all add: str_cmp_0 PATH_UP_def PATH_DOT_def)
  then show ?thesis using assms
    by (auto simp: path_push_def component_def dest: in_set_butlastD)
qed

lemma fold_push_components:
  assumes "\<forall>s \<in> set ts. s \<noteq> [] \<and> PATH_SEPARATOR \<notin> set s \<and> 0 \<notin> set s" "\<forall>s \<in> set out. component s"
  shows "\<forall>s \<in> set (fold path_push ts out). component s"
  using assms
proof (induction ts arbitrary: out)
  case (Cons t ts)
  then have "\<forall>s \<in> set (path_push t out). component s" by (intro path_push_components) auto
  then show ?case using Cons by simp
qed simp

lemma fold_push_id: "\<forall>s \<in> set cs. component s \<Longrightarrow> fold path_push cs out = out @ cs"
  by (induction cs arbitrary: out) (simp_all add: component_push)

lemma canonicalize_join:
  "canonicalize_path cwd input =
     (let out = fold path_push (path_tokens input)
                  (if input \<noteq> [] \<and> hd input \<noteq> PATH_SEPARATOR then path_tokens cwd else [])
      in if out = [] then [PATH_SEPARATOR] else path_join out)"
  by (auto simp: canonicalize_path_def Let_def sum_list_eq_0_iff)

lemma path_tokens_canonical:
  assumes "canonical p"
  shows "\<forall>s \<in> set (path_tokens p). component s"
proof -
  consider "p = [PATH_SEPARATOR]" | cs where "\<forall>s \<in> set cs. component s" "p = path_join cs"
    using assms unfolding canonical_def by blast
  then show ?thesis
    by cases (simp_all add: path_tokens_join component_def)
qed

lemma canonical_fixed: "canonical p \<Longrightarrow> canonicalize_path cwd p = p"
proof -
  assume "canonical p"
  then consider "p = [PATH_SEPARATOR]" | cs where "cs \<noteq> []" "\<forall>s \<in> set cs. component s" "p = path_join cs"
    unfolding canonical_def by blast
  then show ?thesis
  proof cases
    case (2 cs)
    have "path_tokens p = cs" using 2 by (simp add: path_tokens_join component_def)
    moreover have "hd p = PATH_SEPARATOR" using 2 by (cases cs) (simp_all add: path_join_def)
    ultimately show ?thesis using 2 fold_push_id [of cs "[]"] by (simp add: canonicalize_join)
  qed (simp add: canonicalize_join)
qed

section \<open>Properties\<close>

text \<open>
  C13.  \<^verbatim>\<open>canonicalize_path\<close> gives a canonical path: from a canonical working directory, or for an
  absolute path whatever the working directory, the result is the root or a sequence of
  non-empty components, each behind one separator, with no \<^verbatim>\<open>.\<close> and no \<^verbatim>\<open>..\<close> left; and a
  canonical path is given back unchanged, from any directory.
\<close>
theorem canonicalize_path_canonical:
  assumes "canonical cwd \<or> input \<noteq> [] \<and> hd input = PATH_SEPARATOR" "0 \<notin> set input"
  shows "canonical (canonicalize_path cwd input) \<and>
         canonicalize_path cwd' (canonicalize_path cwd input) = canonicalize_path cwd input"
proof -
  define out where "out = fold path_push (path_tokens input)
                  (if input \<noteq> [] \<and> hd input \<noteq> PATH_SEPARATOR then path_tokens cwd else [])"
  have "\<forall>s \<in> set (path_tokens input). s \<noteq> [] \<and> PATH_SEPARATOR \<notin> set s \<and> 0 \<notin> set s"
    using set_path_tokens assms(2) by blast
  then have "\<forall>s \<in> set out. component s"
    unfolding out_def using assms(1) path_tokens_canonical by (intro fold_push_components) auto
  moreover have "canonicalize_path cwd input = (if out = [] then [PATH_SEPARATOR] else path_join out)"
    by (simp add: canonicalize_join out_def Let_def)
  ultimately have "canonical (canonicalize_path cwd input)" unfolding canonical_def by auto
  then show ?thesis using canonical_fixed by blast
qed

theorem canonicalize_path_canonical_witness:
  "canonicalize_path [47, 97] [46, 46, 47, 98, 47, 46] = [47, 98] \<and> canonical [47, 98]"
proof -
  have tok: "path_tokens [46, 46, 47, 98, 47, 46] = [[46, 46], [98], [46]]" "path_tokens [47, 97] = [[97]]"
    by (simp_all add: path_tokens.simps PATH_SEPARATOR_def)
  have eq: "canonicalize_path [47, 97] [46, 46, 47, 98, 47, 46] = [47, 98]"
    by (simp add: canonicalize_join tok path_push_def path_join_def PATH_SEPARATOR_def PATH_UP_def PATH_DOT_def Let_def)
  have "canonical [47, 97]"
    unfolding canonical_def
    by (rule disjI2, rule exI [of _ "[[97]]"])
       (simp add: component_def path_join_def PATH_SEPARATOR_def PATH_UP_def PATH_DOT_def)
  then show ?thesis
    using canonicalize_path_canonical [of "[47, 97]" "[46, 46, 47, 98, 47, 46]"] eq by simp
qed

section \<open>The pieces of a canonical path\<close>

lemma pieces_piece:
  assumes "PATH_SEPARATOR \<notin> set s"
  shows "pieces (s @ PATH_SEPARATOR # p) = s # pieces p" "pieces s = [s]"
  using assms by (induction s) auto

lemma pieces_join:
  assumes "cs \<noteq> []" "\<forall>s \<in> set cs. component s"
  shows "pieces (drop 1 (path_join cs)) = cs" "pieces_before (drop 1 (path_join cs)) = cs"
proof -
  show eq: "pieces (drop 1 (path_join cs)) = cs"
    using assms
  proof (induction cs)
    case (Cons s cs)
    show ?case
    proof (cases cs)
      case Nil
      then show ?thesis using Cons.prems pieces_piece(2) by (simp add: path_join_def component_def)
    next
      case (Cons t ts)
      then have "drop 1 (path_join (s # cs)) = s @ PATH_SEPARATOR # drop 1 (path_join cs)"
        by (simp add: path_join_def)
      then show ?thesis using Cons.IH Cons.prems pieces_piece(1) \<open>cs = t # ts\<close> by (simp add: component_def)
    qed
  qed simp
  have "last cs \<noteq> []" using assms by (metis component_def last_in_set)
  then show "pieces_before (drop 1 (path_join cs)) = cs" unfolding pieces_before_def eq Let_def by simp
qed

lemma path_prefix_join:
  assumes "\<forall>s \<in> set cs. PATH_SEPARATOR \<notin> set s"
  shows "path_prefix d (path_join cs) = path_join (take d cs)"
proof -
  have app: "PATH_SEPARATOR \<notin> set s \<Longrightarrow> path_prefix d (s @ q) = s @ path_prefix d q" for s d q
    by (induction s) auto
  show ?thesis using assms
    by (induction cs arbitrary: d) (auto simp: path_join_def app split: nat.split)
qed

end
