(* ===== verification/Vfs.thy ===== *)
theory Vfs
  imports VfsPath CTree Hashmap
begin

text \<open>
  The virtual file system of \<^verbatim>\<open>kernel/src/fs/vfs.c\<close>: the dispatch of file operations through the
  function pointers of a node, reference counts, the tree of mount points over \<^verbatim>\<open>tree.c\<close>, the
  registry of file system types over \<^verbatim>\<open>hashmap.c\<close>, opening a path across mount points and symbolic
  links, and the operations that create or remove names.

  A function pointer is a number, \<open>0\<close> the null pointer; what the driver's code behind it does to
  the driver's own state is the record \<open>fs_ops\<close>, an argument of the operations that call it.  A
  driver returns a new node of its own from \<^verbatim>\<open>finddir\<close>, and \<^verbatim>\<open>kopen_recur\<close> works on copies of
  nodes, so these appear by value; the nodes that are mounted are in a store, because mounting
  marks them.  New objects get the next unused address.  Messages are not modelled, and neither
  is that a path passed to the first call ever made is chopped in place.
\<close>

unbundle bit_operations_syntax

section \<open>Nodes\<close>

record fs_node_t =
  fname :: path
  device :: addr
  fmask :: u32
  uid :: u32
  gid :: u32
  flags :: u32
  inode :: u32
  length' :: u32
  impl :: u32
  open_flags :: u32
  atime :: u32
  mtime :: u32
  ctime :: u32
  read_p :: addr
  write_p :: addr
  open_p :: addr
  close_p :: addr
  readdir_p :: addr
  finddir_p :: addr
  create_p :: addr
  mkdir_p :: addr
  ioctl_p :: addr
  get_size_p :: addr
  chmod_p :: addr
  unlink_p :: addr
  symlink_p :: addr
  readlink_p :: addr
  ptr :: addr
  offset :: u32
  refcount :: u32
  nlink :: u32
  selectcheck_p :: addr
  selectwait_p :: addr
  chown_p :: addr

record dirent =
  d_ino :: u16
  d_name :: "u8 list"

record vfs_entry =
  ename :: path
  efile :: addr
  edevice :: "path option"
  efs_type :: "path option"

text \<open>What the code behind the function pointers does, given the pointer.\<close>
record 'd fs_ops =
  c_read :: "addr \<Rightarrow> fs_node_t \<Rightarrow> u32 \<Rightarrow> u32 \<Rightarrow> 'd \<Rightarrow> (u32 \<times> u8 list) \<times> 'd"
  c_write :: "addr \<Rightarrow> fs_node_t \<Rightarrow> u32 \<Rightarrow> u32 \<Rightarrow> u8 list \<Rightarrow> 'd \<Rightarrow> u32 \<times> 'd"
  c_open :: "addr \<Rightarrow> fs_node_t \<Rightarrow> u32 \<Rightarrow> 'd \<Rightarrow> fs_node_t \<times> 'd"
  c_close :: "addr \<Rightarrow> fs_node_t \<Rightarrow> 'd \<Rightarrow> 'd"
  c_readdir :: "addr \<Rightarrow> fs_node_t \<Rightarrow> u32 \<Rightarrow> 'd \<Rightarrow> dirent option \<times> 'd"
  c_finddir :: "addr \<Rightarrow> fs_node_t \<Rightarrow> path \<Rightarrow> 'd \<Rightarrow> fs_node_t option \<times> 'd"
  c_create :: "addr \<Rightarrow> fs_node_t \<Rightarrow> path \<Rightarrow> u16 \<Rightarrow> 'd \<Rightarrow> 'd"
  c_mkdir :: "addr \<Rightarrow> fs_node_t \<Rightarrow> path \<Rightarrow> u16 \<Rightarrow> 'd \<Rightarrow> 'd"
  c_ioctl :: "addr \<Rightarrow> fs_node_t \<Rightarrow> int \<Rightarrow> addr \<Rightarrow> 'd \<Rightarrow> int \<times> 'd"
  c_chmod :: "addr \<Rightarrow> fs_node_t \<Rightarrow> int \<Rightarrow> 'd \<Rightarrow> int \<times> 'd"
  c_chown :: "addr \<Rightarrow> fs_node_t \<Rightarrow> int \<Rightarrow> int \<Rightarrow> 'd \<Rightarrow> int \<times> 'd"
  c_unlink :: "addr \<Rightarrow> fs_node_t \<Rightarrow> path \<Rightarrow> 'd \<Rightarrow> 'd"
  c_symlink :: "addr \<Rightarrow> fs_node_t \<Rightarrow> path \<Rightarrow> path \<Rightarrow> 'd \<Rightarrow> 'd"
  c_readlink :: "addr \<Rightarrow> fs_node_t \<Rightarrow> u32 \<Rightarrow> 'd \<Rightarrow> (int \<times> u8 list) \<times> 'd"
  c_selectcheck :: "addr \<Rightarrow> fs_node_t \<Rightarrow> 'd \<Rightarrow> int \<times> 'd"
  c_selectwait :: "addr \<Rightarrow> fs_node_t \<Rightarrow> addr \<Rightarrow> 'd \<Rightarrow> int \<times> 'd"
  c_mount :: "addr \<Rightarrow> path \<Rightarrow> path \<Rightarrow> 'd \<Rightarrow> fs_node_t option \<times> 'd"

definition FS_DIRECTORY :: u32 where "FS_DIRECTORY = 0x02"
definition FS_SYMLINK :: u32 where "FS_SYMLINK = 0x20"
definition O_NOFOLLOW :: u32 where "O_NOFOLLOW = 0x1000"
definition O_PATH :: u32 where "O_PATH = 0x2000"
definition EACCES :: int where "EACCES = 13"
definition EEXIST :: int where "EEXIST = 17"
definition ENODEV :: int where "ENODEV = 1"
definition EINVAL :: int where "EINVAL = 22"

definition zero_node :: fs_node_t where
  "zero_node = \<lparr>fname = [], device = 0, fmask = 0, uid = 0, gid = 0, flags = 0, inode = 0, length' = 0,
     impl = 0, open_flags = 0, atime = 0, mtime = 0, ctime = 0, read_p = 0, write_p = 0, open_p = 0,
     close_p = 0, readdir_p = 0, finddir_p = 0, create_p = 0, mkdir_p = 0, ioctl_p = 0, get_size_p = 0,
     chmod_p = 0, unlink_p = 0, symlink_p = 0, readlink_p = 0, ptr = 0, offset = 0, refcount = 0,
     nlink = 0, selectcheck_p = 0, selectwait_p = 0, chown_p = 0\<rparr>"

section \<open>Permissions\<close>

text \<open>The permission bits of the group are not looked at.\<close>
definition has_permission :: "int \<Rightarrow> fs_node_t option \<Rightarrow> u32 \<Rightarrow> u32" where
  "has_permission user node permission_bit =
     (case node of
        None \<Rightarrow> 0
      | Some n \<Rightarrow>
          if user = 0 then 1
          else let permissions = fmask n;
                   user_perm = drop_bit 6 permissions AND 7;
                   other_perm = permissions AND 7
               in if (of_int user :: u32) = uid n then permission_bit AND user_perm
                  else permission_bit AND other_perm)"

section \<open>Dispatch\<close>

definition selectcheck_fs :: "'d fs_ops \<Rightarrow> fs_node_t option \<Rightarrow> 'd \<Rightarrow> int \<times> 'd" where
  "selectcheck_fs c node d =
     (case node of None \<Rightarrow> (- 1, d)
      | Some n \<Rightarrow> if selectcheck_p n \<noteq> 0 then c_selectcheck c (selectcheck_p n) n d else (- 1, d))"

definition selectwait_fs :: "'d fs_ops \<Rightarrow> fs_node_t option \<Rightarrow> addr \<Rightarrow> 'd \<Rightarrow> int \<times> 'd" where
  "selectwait_fs c node process d =
     (case node of None \<Rightarrow> (- 1, d)
      | Some n \<Rightarrow> if selectwait_p n \<noteq> 0 then c_selectwait c (selectwait_p n) n process d else (- 1, d))"

definition read_fs :: "'d fs_ops \<Rightarrow> fs_node_t option \<Rightarrow> u32 \<Rightarrow> u32 \<Rightarrow> 'd \<Rightarrow> (u32 \<times> u8 list) \<times> 'd" where
  "read_fs c node off sz d =
     (case node of None \<Rightarrow> ((- 1, []), d)
      | Some n \<Rightarrow> if read_p n \<noteq> 0 then c_read c (read_p n) n off sz d else ((- 1, []), d))"

definition write_fs :: "'d fs_ops \<Rightarrow> fs_node_t option \<Rightarrow> u32 \<Rightarrow> u32 \<Rightarrow> u8 list \<Rightarrow> 'd \<Rightarrow> u32 \<times> 'd" where
  "write_fs c node off sz buffer d =
     (case node of None \<Rightarrow> (- 1, d)
      | Some n \<Rightarrow> if write_p n \<noteq> 0 then c_write c (write_p n) n off sz buffer d else (- 1, d))"

definition vfs_lock :: "fs_node_t \<Rightarrow> fs_node_t" where
  "vfs_lock n = n\<lparr>refcount := - 1\<rparr>"

text \<open>The count is a signed 32-bit integer.\<close>
definition take_ref :: "fs_node_t \<Rightarrow> fs_node_t" where
  "take_ref n = (if sint (refcount n) \<ge> 0 then n\<lparr>refcount := refcount n + 1\<rparr> else n)"

definition open_fs :: "'d fs_ops \<Rightarrow> fs_node_t option \<Rightarrow> u32 \<Rightarrow> 'd \<Rightarrow> fs_node_t option \<times> 'd" where
  "open_fs c node fl d =
     (case node of None \<Rightarrow> (None, d)
      | Some n \<Rightarrow>
          let n = take_ref n
          in if open_p n \<noteq> 0 then (case c_open c (open_p n) n fl d of (n, d) \<Rightarrow> (Some n, d))
             else (Some n, d))"

text \<open>The result is the node, \<open>None\<close> once it has been freed.\<close>
definition close_fs :: "'d fs_ops \<Rightarrow> fs_node_t option \<Rightarrow> 'd \<Rightarrow> fs_node_t option \<times> 'd" where
  "close_fs c node d =
     (case node of None \<Rightarrow> (None, d)
      | Some n \<Rightarrow>
          if refcount n = - 1 then (Some n, d)
          else let n = n\<lparr>refcount := refcount n - 1\<rparr>
               in if refcount n = 0
                  then (None, if close_p n \<noteq> 0 then c_close c (close_p n) n d else d)
                  else (Some n, d))"

definition clone_fs :: "fs_node_t option \<Rightarrow> fs_node_t option" where
  "clone_fs source = map_option take_ref source"

text \<open>These two do not test for the null pointer: \<open>None\<close> is the fault.\<close>
definition chmod_fs :: "'d fs_ops \<Rightarrow> fs_node_t option \<Rightarrow> int \<Rightarrow> 'd \<Rightarrow> (int \<times> 'd) option" where
  "chmod_fs c node mode d =
     do { n \<leftarrow> node; Some (if chmod_p n \<noteq> 0 then c_chmod c (chmod_p n) n mode d else (0, d)) }"

definition chown_fs :: "'d fs_ops \<Rightarrow> fs_node_t option \<Rightarrow> int \<Rightarrow> int \<Rightarrow> 'd \<Rightarrow> (int \<times> 'd) option" where
  "chown_fs c node u g d =
     do { n \<leftarrow> node; Some (if chown_p n \<noteq> 0 then c_chown c (chown_p n) n u g d else (0, d)) }"

definition readdir_fs :: "'d fs_ops \<Rightarrow> fs_node_t option \<Rightarrow> u32 \<Rightarrow> 'd \<Rightarrow> dirent option \<times> 'd" where
  "readdir_fs c node index d =
     (case node of None \<Rightarrow> (None, d)
      | Some n \<Rightarrow> if flags n AND FS_DIRECTORY \<noteq> 0 \<and> readdir_p n \<noteq> 0
                  then c_readdir c (readdir_p n) n index d else (None, d))"

definition finddir_fs :: "'d fs_ops \<Rightarrow> fs_node_t option \<Rightarrow> path \<Rightarrow> 'd \<Rightarrow> fs_node_t option \<times> 'd" where
  "finddir_fs c node nm d =
     (case node of None \<Rightarrow> (None, d)
      | Some n \<Rightarrow> if flags n AND FS_DIRECTORY \<noteq> 0 \<and> finddir_p n \<noteq> 0
                  then c_finddir c (finddir_p n) n nm d else (None, d))"

definition ioctl_fs :: "'d fs_ops \<Rightarrow> fs_node_t option \<Rightarrow> int \<Rightarrow> addr \<Rightarrow> 'd \<Rightarrow> int \<times> 'd" where
  "ioctl_fs c node request argp d =
     (case node of None \<Rightarrow> (- 1, d)
      | Some n \<Rightarrow> if ioctl_p n \<noteq> 0 then c_ioctl c (ioctl_p n) n request argp d else (- 1, d))"

definition readlink_fs :: "'d fs_ops \<Rightarrow> fs_node_t option \<Rightarrow> u32 \<Rightarrow> 'd \<Rightarrow> (int \<times> u8 list) \<times> 'd" where
  "readlink_fs c node sz d =
     (case node of None \<Rightarrow> ((- 1, []), d)
      | Some n \<Rightarrow> if readlink_p n \<noteq> 0 then c_readlink c (readlink_p n) n sz d else ((- 1, []), d))"

section \<open>State\<close>

record vfs =
  fs_tree :: "tree_t option"
  th :: theap
  ents :: "addr \<rightharpoonup> vfs_entry"
  nodes :: "addr \<rightharpoonup> fs_node_t"
  fs_root :: addr
  fs_types :: "path hashmap_t option"
  first :: int
  next_addr :: addr

definition MAX_SYMLINK_DEPTH :: nat where "MAX_SYMLINK_DEPTH = 8"
definition MAX_SYMLINK_SIZE :: u32 where "MAX_SYMLINK_SIZE = 4096"

text \<open>The string \<^verbatim>\<open>[root]\<close>.\<close>
definition root_name :: path where "root_name = [91, 114, 111, 111, 116, 93]"

definition vfs_install :: "vfs \<Rightarrow> vfs" where
  "vfs_install s =
     (let e = next_addr s;
          (tree, h) = tree_set_root (e + 1) e tree_create (th s)
      in s\<lparr>fs_tree := Some tree, th := h,
           ents := (ents s)(e \<mapsto> \<lparr>ename = root_name, efile = 0, edevice = None, efs_type = None\<rparr>),
           fs_types := Some (hashmap_create 5), next_addr := e + 2\<rparr>)"

definition vfs_register :: "path \<Rightarrow> addr \<Rightarrow> vfs \<Rightarrow> (int \<times> vfs) option" where
  "vfs_register nm callback s =
     do { ts \<leftarrow> fs_types s;
          old \<leftarrow> hashmap_get ts nm;
          if old \<noteq> 0 then Some (1, s)
          else do { (_, ts) \<leftarrow> hashmap_set ts nm callback; Some (0, s\<lparr>fs_types := Some ts\<rparr>) } }"

section \<open>Mount points\<close>

text \<open>The search among the children of a node, the inner \<open>None\<close> when none has the name.\<close>
fun find_child :: "vfs \<Rightarrow> path \<Rightarrow> addr list \<Rightarrow> addr option option" where
  "find_child s nm [] = Some None"
| "find_child s nm (child # cs) =
     do { t \<leftarrow> tnode (th s) child;
          e \<leftarrow> ents s (tvalue t);
          if str_cmp (ename e) nm = 0 then Some (Some child) else find_child s nm cs }"

definition new_entry :: "path \<Rightarrow> addr \<Rightarrow> vfs \<Rightarrow> (addr \<times> vfs) option" where
  "new_entry nm node s =
     do { tree \<leftarrow> fs_tree s;
          let e = next_addr s;
          (tree, h) \<leftarrow> tree_node_insert_child (e + 1) tree node e (th s);
          Some (e + 1, s\<lparr>fs_tree := Some tree, th := h,
             ents := (ents s)(e \<mapsto> \<lparr>ename = nm, efile = 0, edevice = None, efs_type = None\<rparr>),
             next_addr := e + 2\<rparr>) }"

fun mount_walk :: "path list \<Rightarrow> addr \<Rightarrow> vfs \<Rightarrow> (addr \<times> vfs) option" where
  "mount_walk [] node s = Some (node, s)"
| "mount_walk (q # qs) node s =
     do { t \<leftarrow> tnode (th s) node;
          r \<leftarrow> find_child s q (tchildren t);
          (case r of
             Some child \<Rightarrow> mount_walk qs child s
           | None \<Rightarrow> do { (child, s) \<leftarrow> new_entry q node s; mount_walk qs child s }) }"

definition set_file :: "addr \<Rightarrow> addr \<Rightarrow> vfs \<Rightarrow> vfs option" where
  "set_file node f s =
     do { t \<leftarrow> tnode (th s) node;
          e \<leftarrow> ents s (tvalue t);
          Some (s\<lparr>ents := (ents s)(tvalue t \<mapsto> e\<lparr>efile := f\<rparr>)\<rparr>) }"

text \<open>The result is the tree node, \<open>0\<close> when the path is not absolute or there is no tree.\<close>
definition vfs_mount :: "path \<Rightarrow> addr \<Rightarrow> vfs \<Rightarrow> (addr \<times> vfs) option" where
  "vfs_mount p local_root s =
     (case fs_tree s of
        None \<Rightarrow> Some (0, s)
      | Some tree \<Rightarrow>
          if p = [] \<or> hd p \<noteq> PATH_SEPARATOR then Some (0, s)
          else do { n \<leftarrow> nodes s local_root;
                    let s = s\<lparr>nodes := (nodes s)(local_root \<mapsto> n\<lparr>refcount := - 1\<rparr>)\<rparr>;
                    if drop 1 p = [] \<or> is_sep (hd (drop 1 p))
                    then do { s \<leftarrow> set_file (troot tree) local_root s;
                              Some (troot tree, s\<lparr>fs_root := local_root\<rparr>) }
                    else do { (node, s) \<leftarrow> mount_walk (pieces_before (drop 1 p)) (troot tree) s;
                              s \<leftarrow> set_file node local_root s;
                              Some (node, s) } })"

text \<open>
  The walk down the mount tree along the pieces of a path: the last node with a file system
  mounted, the pieces behind it and how many pieces lead to it; \<open>k\<close> counts the pieces.
\<close>
fun mount_search :: "vfs \<Rightarrow> path list \<Rightarrow> addr \<Rightarrow> nat \<Rightarrow> addr \<times> path list \<times> nat \<Rightarrow>
    (addr \<times> path list \<times> nat) option" where
  "mount_search s [] node k best = Some best"
| "mount_search s (q # qs) node k best =
     do { t \<leftarrow> tnode (th s) node;
          r \<leftarrow> find_child s q (tchildren t);
          (case r of
             None \<Rightarrow> Some best
           | Some child \<Rightarrow>
               do { t \<leftarrow> tnode (th s) child;
                    e \<leftarrow> ents s (tvalue t);
                    mount_search s qs child (k + 1) (if efile e \<noteq> 0 then (efile e, qs, k) else best) }) }"

text \<open>A copy of the node found, with the pieces that are left and the depth reached.\<close>
definition get_mount_point :: "path list \<Rightarrow> vfs \<Rightarrow> (fs_node_t option \<times> path list \<times> nat) option" where
  "get_mount_point qs s =
     do { tree \<leftarrow> fs_tree s;
          (lst, rem, depth) \<leftarrow> mount_search s qs (troot tree) 1 (fs_root s, qs, 0);
          if lst \<noteq> 0 then do { n \<leftarrow> nodes s lst; Some (Some n, rem, depth) }
          else Some (None, rem, depth) }"

text \<open>The strings \<^verbatim>\<open>ext2\<close> and \<^verbatim>\<open>/dev/hda\<close>.\<close>
definition ext2_name :: path where "ext2_name = [101, 120, 116, 50]"
definition hda_name :: path where "hda_name = [47, 100, 101, 118, 47, 104, 100, 97]"

text \<open>The argument of the call is not passed on: the callback always gets \<^verbatim>\<open>ext2\<close>.\<close>
definition vfs_mount_type ::
    "'d fs_ops \<Rightarrow> path \<Rightarrow> path \<Rightarrow> path \<Rightarrow> vfs \<Rightarrow> 'd \<Rightarrow> (int \<times> vfs \<times> 'd) option" where
  "vfs_mount_type c type arg mountpoint s d =
     do { ts \<leftarrow> fs_types s;
          t \<leftarrow> hashmap_get ts type;
          if t = 0 then Some (- ENODEV, s, d)
          else let (n, d) = c_mount c t ext2_name mountpoint d
               in case n of
                    None \<Rightarrow> Some (- EINVAL, s, d)
                  | Some n \<Rightarrow>
                      do { let a = next_addr s;
                           (node, s) \<leftarrow> vfs_mount mountpoint a
                                          (s\<lparr>nodes := (nodes s)(a \<mapsto> n), next_addr := a + 1\<rparr>);
                           s \<leftarrow> (if node \<noteq> 0
                                 then do { t \<leftarrow> tnode (th s) node;
                                           if tvalue t \<noteq> 0
                                           then do { e \<leftarrow> ents s (tvalue t);
                                                     Some (s\<lparr>ents := (ents s)(tvalue t \<mapsto>
                                                       e\<lparr>efs_type := Some ext2_name, edevice := Some hda_name\<rparr>)\<rparr>) }
                                           else Some s }
                                 else Some s);
                           Some (0, s, d) } }"

section \<open>Directories that only hold mount points\<close>

text \<open>\<^verbatim>\<open>strcpy\<close> does not store the terminator: the name is the bytes that are written.\<close>
definition readdir_mapper :: "vfs \<Rightarrow> fs_node_t \<Rightarrow> u32 \<Rightarrow> dirent option option" where
  "readdir_mapper s node index =
     (if device node = 0 then Some None
      else if index = 0 then Some (Some \<lparr>d_ino = 0, d_name = PATH_DOT\<rparr>)
      else if index = 1 then Some (Some \<lparr>d_ino = 1, d_name = PATH_UP\<rparr>)
      else do { t \<leftarrow> tnode (th s) (device node);
                let i = unat (index - 2);
                if i < length (tchildren t)
                then do { tc \<leftarrow> tnode (th s) (tchildren t ! i);
                          e \<leftarrow> ents s (tvalue tc);
                          Some (Some \<lparr>d_ino = of_nat i, d_name = take 256 (ename e @ [0])\<rparr>) }
                else Some None })"

text \<open>\<open>rm\<close> is the address of the code of \<^verbatim>\<open>readdir_mapper\<close>.\<close>
definition vfs_mapper :: "addr \<Rightarrow> fs_node_t" where
  "vfs_mapper rm = zero_node\<lparr>fmask := 438, flags := FS_DIRECTORY, readdir_p := rm\<rparr>"

definition map_vfs_directory :: "addr \<Rightarrow> path \<Rightarrow> vfs \<Rightarrow> vfs option" where
  "map_vfs_directory rm p s =
     do { let f = next_addr s;
          (e, s) \<leftarrow> vfs_mount p f (s\<lparr>nodes := (nodes s)(f \<mapsto> vfs_mapper rm), next_addr := f + 1\<rparr>);
          n \<leftarrow> nodes s f;
          if str_cmp p [PATH_SEPARATOR] = 0
          then do { tree \<leftarrow> fs_tree s; Some (s\<lparr>nodes := (nodes s)(f \<mapsto> n\<lparr>device := troot tree\<rparr>)\<rparr>) }
          else Some (s\<lparr>nodes := (nodes s)(f \<mapsto> n\<lparr>device := e\<rparr>)\<rparr>) }"


section \<open>Opening a path\<close>

text \<open>Opening the target of a symbolic link: the path, what it is relative to, and the states.\<close>
type_synonym 'd opener = "path \<Rightarrow> path \<Rightarrow> vfs \<Rightarrow> 'd \<Rightarrow> (fs_node_t option \<times> vfs \<times> 'd) option"

text \<open>
  Following a symbolic link found at \<open>depth\<close>.  \<open>again\<close> opens the target and is \<open>None\<close> when the
  limit on nested links has been reached.  A target that does not end inside the buffer is a
  read outside of it.
\<close>
definition follow_link ::
    "'d fs_ops \<Rightarrow> 'd opener option \<Rightarrow> u32 \<Rightarrow> bool \<Rightarrow> path \<Rightarrow> nat \<Rightarrow> fs_node_t \<Rightarrow> vfs \<Rightarrow> 'd \<Rightarrow>
     (fs_node_t option \<times> vfs \<times> 'd) option" where
  "follow_link c again fl is_last p depth n s d =
     (if fl AND O_NOFOLLOW \<noteq> 0 \<and> is_last then Some (None, s, d)
      else case again of
        None \<Rightarrow> Some (None, s, d)
      | Some kopen \<Rightarrow>
          let ((len, buf), d) = readlink_fs c (Some n) MAX_SYMLINK_SIZE d
          in if len < 0 then Some (None, s, d)
             else do { b \<leftarrow> nth_opt buf (nat len);
                       if b \<noteq> 0 then Some (None, s, d)
                       else kopen (takeWhile (\<lambda>b. b \<noteq> 0) buf) (path_prefix depth p) s d })"

definition is_link :: "u32 \<Rightarrow> bool \<Rightarrow> fs_node_t \<Rightarrow> bool" where
  "is_link fl is_last n \<longleftrightarrow> flags n AND FS_SYMLINK \<noteq> 0 \<and>
     \<not> (fl AND O_NOFOLLOW \<noteq> 0 \<and> fl AND O_PATH \<noteq> 0 \<and> is_last)"

text \<open>The search from \<open>node\<close> along the pieces that are left.\<close>
fun kopen_loop ::
    "'d fs_ops \<Rightarrow> 'd opener option \<Rightarrow> u32 \<Rightarrow> path \<Rightarrow> nat \<Rightarrow> path list \<Rightarrow> nat \<Rightarrow> fs_node_t \<Rightarrow> vfs \<Rightarrow> 'd \<Rightarrow>
     (fs_node_t option \<times> vfs \<times> 'd) option" where
  "kopen_loop c again fl p path_depth [] depth node s d =
     (if depth < path_depth then None else Some (None, s, d))"
| "kopen_loop c again fl p path_depth (q # qs) depth node s d =
     (if \<not> depth < path_depth then Some (None, s, d)
      else let is_last = (depth = path_depth - 1);
               (found, d) = finddir_fs c (Some node) q d
           in case found of
                None \<Rightarrow> Some (None, s, d)
              | Some n \<Rightarrow>
                  do { (r, s, d) \<leftarrow> (if is_link fl is_last n
                                     then follow_link c again fl is_last p depth n s d
                                     else Some (Some n, s, d));
                       (case r of
                          None \<Rightarrow> Some (None, s, d)
                        | Some n \<Rightarrow>
                            if is_last then (case open_fs c (Some n) fl d of (n, d) \<Rightarrow> Some (n, s, d))
                            else kopen_loop c again fl p path_depth qs (depth + 1) n s d) })"

text \<open>One call; the path of the first call ever made is taken as it is.\<close>
definition kopen_body ::
    "'d fs_ops \<Rightarrow> 'd opener option \<Rightarrow> u32 \<Rightarrow> 'd opener" where
  "kopen_body c again fl filename relative_to s d =
     do { let p = (if first s = 1 then filename else canonicalize_path relative_to filename);
          let s = s\<lparr>first := 0\<rparr>;
          if length p = 1
          then do { root \<leftarrow> nodes s (fs_root s);
                    let (n, d) = open_fs c (Some root) fl d;
                    Some (n, s, d) }
          else do { let path_depth = length (filter is_sep p);
                    let qs = (if p = [] then [] else pieces (drop 1 p));
                    (node, rem, depth) \<leftarrow> get_mount_point qs s;
                    (case node of
                       None \<Rightarrow> Some (None, s, d)
                     | Some n \<Rightarrow>
                         if rem = [] \<or> rem = [[]]
                         then (case open_fs c (Some n) fl d of (n, d) \<Rightarrow> Some (n, s, d))
                         else kopen_loop c again fl p path_depth rem depth n s d) } }"

text \<open>\<open>n\<close> is how many more nested links may be followed, \<open>MAX_SYMLINK_DEPTH - symlink_depth\<close>.\<close>
primrec kopen_recur :: "'d fs_ops \<Rightarrow> nat \<Rightarrow> u32 \<Rightarrow> 'd opener" where
  "kopen_recur c 0 fl = kopen_body c None fl"
| "kopen_recur c (Suc n) fl = kopen_body c (Some (kopen_recur c n 0)) fl"

definition kopen2 :: "'d fs_ops \<Rightarrow> path \<Rightarrow> path \<Rightarrow> u32 \<Rightarrow> vfs \<Rightarrow> 'd \<Rightarrow> (fs_node_t option \<times> vfs \<times> 'd) option" where
  "kopen2 c wd filename fl s d = kopen_recur c MAX_SYMLINK_DEPTH fl filename wd s d"

text \<open>\<^verbatim>\<open>kopen\<close> opens the file but has no return statement: only its effects are left.\<close>
definition kopen :: "'d fs_ops \<Rightarrow> path \<Rightarrow> path \<Rightarrow> u32 \<Rightarrow> vfs \<Rightarrow> 'd \<Rightarrow> (vfs \<times> 'd) option" where
  "kopen c wd filename fl s d =
     do { (_, s, d) \<leftarrow> kopen_recur c MAX_SYMLINK_DEPTH fl filename wd s d; Some (s, d) }"

section \<open>Creating and removing names\<close>

definition create_file_fs ::
    "'d fs_ops \<Rightarrow> int \<Rightarrow> path \<Rightarrow> path \<Rightarrow> u16 \<Rightarrow> vfs \<Rightarrow> 'd \<Rightarrow> (int \<times> vfs \<times> 'd) option" where
  "create_file_fs c user wd nm permission s d =
     do { let p = canonicalize_path wd nm;
          let f_path = last_component p;
          (parent, s, d) \<leftarrow> kopen2 c wd (parent_path p) 0 s d;
          case parent of
            None \<Rightarrow> Some (- 1, s, d)
          | Some n \<Rightarrow>
              if has_permission user (Some n) 2 = 0 then Some (- EACCES, s, d)
              else Some (0, s, if create_p n \<noteq> 0 then c_create c (create_p n) n f_path permission d else d) }"

definition unlink_fs ::
    "'d fs_ops \<Rightarrow> path \<Rightarrow> path \<Rightarrow> vfs \<Rightarrow> 'd \<Rightarrow> (int \<times> vfs \<times> 'd) option" where
  "unlink_fs c wd nm s d =
     do { let p = canonicalize_path wd nm;
          let f_path = last_component p;
          (parent, s, d) \<leftarrow> kopen2 c wd (parent_path p) 0 s d;
          case parent of
            None \<Rightarrow> Some (- 1, s, d)
          | Some n \<Rightarrow> Some (0, s, if unlink_p n \<noteq> 0 then c_unlink c (unlink_p n) n f_path d else d) }"

definition mkdir_fs ::
    "'d fs_ops \<Rightarrow> path \<Rightarrow> path \<Rightarrow> u16 \<Rightarrow> vfs \<Rightarrow> 'd \<Rightarrow> (int \<times> vfs \<times> 'd) option" where
  "mkdir_fs c wd nm permission s d =
     do { let p = canonicalize_path wd nm;
          (this, s, d) \<leftarrow> kopen2 c wd p 0 s d;
          let f_path = last_component p;
          (parent, s, d) \<leftarrow> kopen2 c wd (parent_path p) 0 s d;
          case parent of
            None \<Rightarrow> Some (if this \<noteq> None then - EEXIST else - 1, s, d)
          | Some n \<Rightarrow>
              let d = (if mkdir_p n \<noteq> 0 then c_mkdir c (mkdir_p n) n f_path permission d else d);
                  (_, d) = close_fs c (Some n) d
              in Some (if this \<noteq> None then - EEXIST else 0, s, d) }"

text \<open>Unlike the others it does not skip a separator in front of the last component.\<close>
definition symlink_fs ::
    "'d fs_ops \<Rightarrow> path \<Rightarrow> path \<Rightarrow> path \<Rightarrow> vfs \<Rightarrow> 'd \<Rightarrow> (int \<times> vfs \<times> 'd) option" where
  "symlink_fs c wd target nm s d =
     do { let p = canonicalize_path wd nm;
          let f_path = scan_back p;
          (parent, s, d) \<leftarrow> kopen2 c wd (parent_path p) 0 s d;
          case parent of
            None \<Rightarrow> Some (- 1, s, d)
          | Some n \<Rightarrow>
              let d = (if symlink_p n \<noteq> 0 then c_symlink c (symlink_p n) n target f_path d else d);
                  (_, d) = close_fs c (Some n) d
              in Some (0, s, d) }"


section \<open>Well-formed mount trees\<close>

definition entry_of :: "vfs \<Rightarrow> addr \<Rightarrow> vfs_entry option" where
  "entry_of s n = do { t \<leftarrow> tmem (th s) n; ents s (tvalue t) }"

text \<open>\<open>c\<close> is the child of \<open>n\<close> with the name \<open>q\<close>.\<close>
definition child :: "vfs \<Rightarrow> addr \<Rightarrow> path \<Rightarrow> addr \<Rightarrow> bool" where
  "child s n q c \<longleftrightarrow> (\<exists>t e. tmem (th s) n = Some t \<and> c \<in> set (tchildren t) \<and> entry_of s c = Some e \<and> ename e = q)"

definition root_of :: "vfs \<Rightarrow> addr" where
  "root_of s = (case fs_tree s of Some tree \<Rightarrow> troot tree | None \<Rightarrow> 0)"

text \<open>
  Every node of the tree has an entry of its own; the children of a node are nodes, in one list
  only, once, with different names; new addresses are unused; what is mounted exists.
\<close>
definition vfs_wf :: "vfs \<Rightarrow> bool" where
  "vfs_wf s \<longleftrightarrow>
     fs_tree s \<noteq> None \<and> root_of s \<in> dom (tmem (th s)) \<and>
     (\<forall>n t. tmem (th s) n = Some t \<longrightarrow> n \<noteq> 0 \<and> n < next_addr s \<and> tvalue t \<in> dom (ents s) \<and>
        root_of s \<notin> set (tchildren t) \<and> set (tchildren t) \<subseteq> dom (tmem (th s))) \<and>
     (\<forall>n n' t t' c. tmem (th s) n = Some t \<longrightarrow> tmem (th s) n' = Some t' \<longrightarrow>
        c \<in> set (tchildren t) \<longrightarrow> c \<in> set (tchildren t') \<longrightarrow> n = n') \<and>
     (\<forall>n n' t t'. tmem (th s) n = Some t \<longrightarrow> tmem (th s) n' = Some t' \<longrightarrow> tvalue t = tvalue t' \<longrightarrow> n = n') \<and>
     (\<forall>n q c c'. child s n q c \<longrightarrow> child s n q c' \<longrightarrow> c = c') \<and>
     (\<forall>a e. ents s a = Some e \<longrightarrow> a < next_addr s \<and> 0 \<notin> set (ename e) \<and>
        (efile e \<noteq> 0 \<longrightarrow> efile e \<in> dom (nodes s))) \<and>
     (\<forall>a. a \<in> dom (nodes s) \<longrightarrow> a < next_addr s) \<and> 0 < next_addr s \<and>
     (\<forall>e. entry_of s (root_of s) = Some e \<longrightarrow> fs_root s = efile e)"

lemma vfs_wfD:
  assumes "vfs_wf s"
  shows "fs_tree s \<noteq> None" "root_of s \<in> dom (tmem (th s))"
    "tmem (th s) n = Some t \<Longrightarrow> n \<noteq> 0" "tmem (th s) n = Some t \<Longrightarrow> n < next_addr s"
    "tmem (th s) n = Some t \<Longrightarrow> tvalue t \<in> dom (ents s)"
    "tmem (th s) n = Some t \<Longrightarrow> root_of s \<notin> set (tchildren t)"
    "tmem (th s) n = Some t \<Longrightarrow> c \<in> set (tchildren t) \<Longrightarrow> c \<in> dom (tmem (th s))"
    "tmem (th s) n = Some t \<Longrightarrow> tmem (th s) n' = Some t' \<Longrightarrow> c \<in> set (tchildren t) \<Longrightarrow>
       c \<in> set (tchildren t') \<Longrightarrow> n = n'"
    "tmem (th s) n = Some t \<Longrightarrow> tmem (th s) n' = Some t' \<Longrightarrow> tvalue t = tvalue t' \<Longrightarrow> n = n'"
    "child s n q c \<Longrightarrow> child s n q c' \<Longrightarrow> c = c'"
    "ents s a = Some e \<Longrightarrow> a < next_addr s" "ents s a = Some e \<Longrightarrow> 0 \<notin> set (ename e)"
    "ents s a = Some e \<Longrightarrow> efile e \<noteq> 0 \<Longrightarrow> efile e \<in> dom (nodes s)"
    "a \<in> dom (nodes s) \<Longrightarrow> a < next_addr s" "0 < next_addr s"
    "entry_of s (root_of s) = Some e \<Longrightarrow> fs_root s = efile e"
proof -
  note c = assms [unfolded vfs_wf_def]
  note c1 = c [THEN conjunct1]
  note c2 = c [THEN conjunct2, THEN conjunct1]
  note c3 = c [THEN conjunct2, THEN conjunct2, THEN conjunct1]
  note c4 = c [THEN conjunct2, THEN conjunct2, THEN conjunct2, THEN conjunct1]
  note c5 = c [THEN conjunct2, THEN conjunct2, THEN conjunct2, THEN conjunct2, THEN conjunct1]
  note c6 = c [THEN conjunct2, THEN conjunct2, THEN conjunct2, THEN conjunct2, THEN conjunct2, THEN conjunct1]
  note c7 = c [THEN conjunct2, THEN conjunct2, THEN conjunct2, THEN conjunct2, THEN conjunct2, THEN conjunct2, THEN conjunct1]
  note c8 = c [THEN conjunct2, THEN conjunct2, THEN conjunct2, THEN conjunct2, THEN conjunct2, THEN conjunct2, THEN conjunct2, THEN conjunct1]
  note c9 = c [THEN conjunct2, THEN conjunct2, THEN conjunct2, THEN conjunct2, THEN conjunct2, THEN conjunct2, THEN conjunct2, THEN conjunct2, THEN conjunct1]
  note c10 = c [THEN conjunct2, THEN conjunct2, THEN conjunct2, THEN conjunct2, THEN conjunct2, THEN conjunct2, THEN conjunct2, THEN conjunct2, THEN conjunct2]
  show "fs_tree s \<noteq> None" using c1 by blast
  show "root_of s \<in> dom (tmem (th s))" using c2 by blast
  show "tmem (th s) n = Some t \<Longrightarrow> n \<noteq> 0" using c3 by blast
  show "tmem (th s) n = Some t \<Longrightarrow> n < next_addr s" using c3 by blast
  show "tmem (th s) n = Some t \<Longrightarrow> tvalue t \<in> dom (ents s)" using c3 by blast
  show "tmem (th s) n = Some t \<Longrightarrow> root_of s \<notin> set (tchildren t)" using c3 by blast
  show "tmem (th s) n = Some t \<Longrightarrow> c \<in> set (tchildren t) \<Longrightarrow> c \<in> dom (tmem (th s))" using c3 by blast
  show "tmem (th s) n = Some t \<Longrightarrow> tmem (th s) n' = Some t' \<Longrightarrow> c \<in> set (tchildren t) \<Longrightarrow> c \<in> set (tchildren t') \<Longrightarrow> n = n'" using c4 by blast
  show "tmem (th s) n = Some t \<Longrightarrow> tmem (th s) n' = Some t' \<Longrightarrow> tvalue t = tvalue t' \<Longrightarrow> n = n'" using c5 by blast
  show "child s n q c \<Longrightarrow> child s n q c' \<Longrightarrow> c = c'" using c6 by blast
  show "ents s a = Some e \<Longrightarrow> a < next_addr s" using c7 by blast
  show "ents s a = Some e \<Longrightarrow> 0 \<notin> set (ename e)" using c7 by blast
  show "ents s a = Some e \<Longrightarrow> efile e \<noteq> 0 \<Longrightarrow> efile e \<in> dom (nodes s)" using c7 by blast
  show "a \<in> dom (nodes s) \<Longrightarrow> a < next_addr s" using c8 by blast
  show "0 < next_addr s" using c9 by blast
  show "entry_of s (root_of s) = Some e \<Longrightarrow> fs_root s = efile e" using c10 by blast
qed

lemma tnode_wf: "vfs_wf s \<Longrightarrow> tnode (th s) n = tmem (th s) n"
  using vfs_wfD(3) [of s n] by (cases "tmem (th s) n") (auto simp: tnode_def)

lemma entry_of_wf: "vfs_wf s \<Longrightarrow> tmem (th s) n = Some t \<Longrightarrow> \<exists>e. ents s (tvalue t) = Some e \<and> entry_of s n = Some e"
  using vfs_wfD(5) [of s n t] by (auto simp: entry_of_def)

lemma find_child_list:
  assumes "vfs_wf s" "set cs \<subseteq> dom (tmem (th s))" "0 \<notin> set q"
  shows "find_child s q cs =
    Some (find (\<lambda>c. \<exists>e. entry_of s c = Some e \<and> ename e = q) cs)"
  using assms(2)
proof (induction cs)
  case (Cons c cs)
  then obtain t where t: "tmem (th s) c = Some t" by auto
  then obtain e where e: "ents s (tvalue t) = Some e" "entry_of s c = Some e"
    using entry_of_wf [OF assms(1)] by blast
  have "str_cmp (ename e) q = 0 \<longleftrightarrow> ename e = q"
    using str_cmp_0 vfs_wfD(12) [OF assms(1) e(1)] assms(3) by blast
  then show ?case using Cons t e tnode_wf [OF assms(1)] by simp
qed simp

lemma find_child_cases:
  assumes "vfs_wf s" "tmem (th s) n = Some t" "0 \<notin> set q"
  obtains (Found) c where "find_child s q (tchildren t) = Some (Some c)" "child s n q c"
    | (Missing) "find_child s q (tchildren t) = Some None" "\<And>c. \<not> child s n q c"
proof -
  have eq: "find_child s q (tchildren t) = Some (find (\<lambda>c. \<exists>e. entry_of s c = Some e \<and> ename e = q) (tchildren t))"
    using find_child_list [OF assms(1) _ assms(3)] vfs_wfD(7) [OF assms(1,2)] by blast
  show ?thesis
  proof (cases "find (\<lambda>c. \<exists>e. entry_of s c = Some e \<and> ename e = q) (tchildren t)")
    case None
    then show ?thesis using Missing eq assms(2) by (auto simp: find_None_iff child_def)
  next
    case (Some c)
    then show ?thesis using Found [of c] eq assms(2) by (auto simp: find_Some_iff child_def)
  qed
qed

section \<open>The mount table\<close>

text \<open>The node at the end of a sequence of names.\<close>
inductive node_at :: "vfs \<Rightarrow> addr \<Rightarrow> path list \<Rightarrow> addr \<Rightarrow> bool" for s where
  here: "node_at s n [] n"
| down: "child s n q c \<Longrightarrow> node_at s c qs m \<Longrightarrow> node_at s n (q # qs) m"

inductive_cases node_at_NilE: "node_at s n [] m"
inductive_cases node_at_ConsE: "node_at s n (q # qs) m"

inductive_simps node_at_simps: "node_at s n [] m" "node_at s n (q # qs) m"

text \<open>What is mounted under a sequence of names, the abstract mount table.\<close>
definition mounted :: "vfs \<Rightarrow> path list \<Rightarrow> addr \<Rightarrow> bool" where
  "mounted s qs f \<longleftrightarrow> f \<noteq> 0 \<and> (\<exists>n e. node_at s (root_of s) qs n \<and> entry_of s n = Some e \<and> efile e = f)"

lemma node_at_append: "node_at s n (xs @ ys) m \<longleftrightarrow> (\<exists>k. node_at s n xs k \<and> node_at s k ys m)"
  by (induction xs arbitrary: n) (auto simp: node_at_simps)

lemma child_dom: "vfs_wf s \<Longrightarrow> child s n q c \<Longrightarrow> c \<in> dom (tmem (th s)) \<and> n \<in> dom (tmem (th s))"
  using vfs_wfD(7) unfolding child_def by blast

lemma node_at_dom: "node_at s n qs m \<Longrightarrow> vfs_wf s \<Longrightarrow> n \<in> dom (tmem (th s)) \<Longrightarrow> m \<in> dom (tmem (th s))"
  by (induction rule: node_at.induct) (auto dest: child_dom)

lemma node_at_det: "vfs_wf s \<Longrightarrow> node_at s n qs m \<Longrightarrow> node_at s n qs m' \<Longrightarrow> m = m'"
proof (induction qs arbitrary: n)
  case (Cons q qs)
  then show ?case using vfs_wfD(10) [OF Cons.prems(1)] by (metis node_at_ConsE)
qed (metis node_at_NilE)

text \<open>A node has one name only.\<close>
lemma node_at_inj:
  assumes "vfs_wf s"
  shows "node_at s (root_of s) qs m \<Longrightarrow> node_at s (root_of s) qs' m \<Longrightarrow> qs = qs'"
proof (induction qs arbitrary: qs' m rule: rev_induct)
  case Nil
  then have m: "m = root_of s" by (simp add: node_at_simps)
  show ?case
  proof (cases qs' rule: rev_cases)
    case (snoc ys y)
    then obtain k where "child s k y m" using Nil by (auto simp: node_at_append node_at_simps)
    then show ?thesis using vfs_wfD(6) [OF assms] m unfolding child_def by blast
  qed simp
next
  case (snoc q qs)
  note IH = snoc.IH
  obtain k where k: "node_at s (root_of s) qs k" "child s k q m"
    using snoc.prems(1) by (auto simp: node_at_append node_at_simps)
  show ?case
  proof (cases qs' rule: rev_cases)
    case Nil
    then have "m = root_of s" using snoc.prems(2) by (simp add: node_at_simps)
    then show ?thesis using vfs_wfD(6) [OF assms] k(2) unfolding child_def by blast
  next
    case (snoc ys y)
    then obtain k' where k': "node_at s (root_of s) ys k'" "child s k' y m"
      using snoc.prems by (auto simp: node_at_append node_at_simps)
    have "k = k'" "q = y" using k(2) k'(2) vfs_wfD(8) [OF assms] unfolding child_def by (blast, auto)
    then show ?thesis using IH [OF k(1)] k' snoc by blast
  qed
qed


section \<open>Lookup: the longest mounted prefix\<close>

lemma mount_search_spec:
  assumes wf: "vfs_wf s" and "\<forall>q \<in> set qs. 0 \<notin> set q" "node_at s (root_of s) pre n"
    and "best = (f, drop j (pre @ qs), j)" "j \<le> length pre"
    and "f \<noteq> 0 \<longrightarrow> mounted s (take j pre) f" "0 < j \<longrightarrow> f \<noteq> 0"
    and "\<forall>i f'. j < i \<longrightarrow> i \<le> length pre \<longrightarrow> \<not> mounted s (take i pre) f'"
  shows "\<exists>j f. mount_search s qs n (Suc (length pre)) best = Some (f, drop j (pre @ qs), j) \<and>
     j \<le> length (pre @ qs) \<and> (f \<noteq> 0 \<longrightarrow> mounted s (take j (pre @ qs)) f) \<and> (0 < j \<longrightarrow> f \<noteq> 0) \<and>
     (\<forall>i f'. j < i \<longrightarrow> i \<le> length (pre @ qs) \<longrightarrow> \<not> mounted s (take i (pre @ qs)) f')"
  using assms(2-)
proof (induction qs arbitrary: pre n best j f)
  case (Cons q qs)
  obtain t where t: "tmem (th s) n = Some t"
    using node_at_dom [OF Cons.prems(2) wf] vfs_wfD(2) [OF wf] by blast
  have q: "0 \<notin> set q" using Cons.prems(1) by simp
  show ?case using wf t q
  proof (cases rule: find_child_cases)
    case (Found c)
    obtain tc where tc: "tmem (th s) c = Some tc" using child_dom [OF wf Found(2)] by blast
    obtain e where e: "ents s (tvalue tc) = Some e" "entry_of s c = Some e"
      using entry_of_wf [OF wf tc] by blast
    have at: "node_at s (root_of s) (pre @ [q]) c"
      using Cons.prems(2) Found(2) by (auto simp: node_at_append node_at_simps)
    have m: "mounted s (pre @ [q]) f' \<longleftrightarrow> f' \<noteq> 0 \<and> f' = efile e" for f'
      unfolding mounted_def using at e(2) node_at_det [OF wf at] by (metis option.inject)
    let ?best = "if efile e \<noteq> 0 then (efile e, qs, Suc (length pre)) else best"
    have step: "mount_search s (q # qs) n (Suc (length pre)) best =
        mount_search s qs c (Suc (length (pre @ [q]))) ?best"
      using Found(1) t tc e(1) tnode_wf [OF wf] by simp
    have app: "pre @ q # qs = (pre @ [q]) @ qs" by simp
    show ?thesis
    proof (cases "efile e = 0")
      case True
      have none: "\<forall>i f'. j < i \<longrightarrow> i \<le> length (pre @ [q]) \<longrightarrow> \<not> mounted s (take i (pre @ [q])) f'"
        using Cons.prems(7) m True by (auto simp: le_Suc_eq)
      show ?thesis unfolding step app
        by (rule Cons.IH [OF _ at, of _ f j]) (use Cons.prems True none in auto)
    next
      case False
      have "\<exists>j f. mount_search s qs c (Suc (length (pre @ [q]))) ?best = Some (f, drop j ((pre @ [q]) @ qs), j) \<and>
        j \<le> length ((pre @ [q]) @ qs) \<and> (f \<noteq> 0 \<longrightarrow> mounted s (take j ((pre @ [q]) @ qs)) f) \<and> (0 < j \<longrightarrow> f \<noteq> 0) \<and>
        (\<forall>i f'. j < i \<longrightarrow> i \<le> length ((pre @ [q]) @ qs) \<longrightarrow> \<not> mounted s (take i ((pre @ [q]) @ qs)) f')"
        by (rule Cons.IH [OF _ at, of _ "efile e" "Suc (length pre)"]) (use Cons.prems False m in auto)
      then show ?thesis unfolding step app using False by auto
    qed
  next
    case Missing
    have "\<not> mounted s (take i (pre @ q # qs)) f'" if "j < i" "i \<le> length (pre @ q # qs)" for i f'
    proof (cases "i \<le> length pre")
      case True
      then show ?thesis using Cons.prems(7) that by simp
    next
      case False
      then have "i - length pre = Suc (i - Suc (length pre))" by simp
      then have "take i (pre @ q # qs) = pre @ q # take (i - Suc (length pre)) qs"
        using False by simp
      then show ?thesis
        using Missing(2) node_at_det [OF wf Cons.prems(2)]
        unfolding mounted_def by (auto simp: node_at_append node_at_simps)
    qed
    moreover have "mount_search s (q # qs) n (Suc (length pre)) best = Some best"
      by (simp add: tnode_wf [OF wf] t Missing(1))
    ultimately show ?thesis using Cons.prems by (intro exI [of _ j] exI [of _ f]) auto
  qed
qed auto

section \<open>Making entries\<close>

definition empty_entry :: "path \<Rightarrow> vfs_entry" where
  "empty_entry q = \<lparr>ename = q, efile = 0, edevice = None, efs_type = None\<rparr>"

text \<open>The state with the child \<open>next_addr + 1\<close> added below \<open>n\<close>, whose node is \<open>t\<close>.\<close>
definition with_child :: "path \<Rightarrow> addr \<Rightarrow> tree_node_t \<Rightarrow> vfs \<Rightarrow> vfs" where
  "with_child q n t s =
     (let e = next_addr s; c = e + 1; tree = the (fs_tree s)
      in s\<lparr>fs_tree := Some (tree\<lparr>tnodes := tnodes tree + 1\<rparr>),
           th := (th s)\<lparr>tmem := (tmem (th s))(n \<mapsto> t\<lparr>tchildren := tchildren t @ [c]\<rparr>,
                                 c \<mapsto> \<lparr>tvalue = e, tchildren = [], tparent = n\<rparr>)\<rparr>,
           ents := (ents s)(e \<mapsto> empty_entry q), next_addr := e + 2\<rparr>)"

lemma new_entry_eq:
  assumes wf: "vfs_wf s" and t: "tmem (th s) n = Some t"
  shows "new_entry q n s = Some (next_addr s + 1, with_child q n t s)"
proof -
  obtain tree where tree: "fs_tree s = Some tree" using vfs_wfD(1) [OF wf] by blast
  have n: "n \<noteq> 0" "n \<noteq> next_addr s + 1" using vfs_wfD(3,4) [OF wf t] by auto
  show ?thesis
    using tree n t
    by (simp add: new_entry_def with_child_def tree_node_insert_child_def tree_node_create_def empty_entry_def
        tree_node_insert_child_node_def tnode_def tput_def fun_upd_twist Let_def)
qed

lemma with_child_mem:
  assumes wf: "vfs_wf s" and t: "tmem (th s) n = Some t"
  shows "tmem (th (with_child q n t s)) m =
      (if m = next_addr s + 1 then Some \<lparr>tvalue = next_addr s, tchildren = [], tparent = n\<rparr>
       else if m = n then Some (t\<lparr>tchildren := tchildren t @ [next_addr s + 1]\<rparr>) else tmem (th s) m)"
    "ents (with_child q n t s) = (ents s)(next_addr s \<mapsto> empty_entry q)"
    "nodes (with_child q n t s) = nodes s" "fs_root (with_child q n t s) = fs_root s"
    "root_of (with_child q n t s) = root_of s" "next_addr (with_child q n t s) = next_addr s + 2"
    "fs_tree (with_child q n t s) \<noteq> None" "fs_types (with_child q n t s) = fs_types s"
  using vfs_wfD(1) [OF wf] by (auto simp: with_child_def Let_def root_of_def)

lemma tvalue_less: "vfs_wf s \<Longrightarrow> tmem (th s) m = Some x \<Longrightarrow> tvalue x < next_addr s"
  using vfs_wfD(5,11) by (metis domD)

lemma with_child_entry:
  assumes wf: "vfs_wf s" and t: "tmem (th s) n = Some t"
  shows "entry_of (with_child q n t s) m =
    (if m = next_addr s + 1 then Some (empty_entry q) else entry_of s m)"
proof (cases "m = next_addr s + 1")
  case False
  have "tvalue x \<noteq> next_addr s" if "tmem (th s) m = Some x" for x
    using tvalue_less [OF wf that] by simp
  moreover have "tvalue t \<noteq> next_addr s" using tvalue_less [OF wf t] by simp
  ultimately show ?thesis using False t
    by (auto simp: entry_of_def with_child_mem [OF wf t] split: bind_splits)
qed (simp add: entry_of_def with_child_mem [OF wf t])

lemma with_child_child:
  assumes wf: "vfs_wf s" and t: "tmem (th s) n = Some t"
  shows "child (with_child q n t s) m q' c \<longleftrightarrow>
    child s m q' c \<or> m = n \<and> q' = q \<and> c = next_addr s + 1"
proof -
  let ?c = "next_addr s + 1"
  have nc: "n \<noteq> ?c" using vfs_wfD(4) [OF wf t] by simp
  have old: "?c \<notin> set (tchildren x)" if "tmem (th s) k = Some x" for k x
    using vfs_wfD(7) [OF wf that] vfs_wfD(4) [OF wf] by fastforce
  have "tmem (th s) ?c = None"
  proof (rule ccontr)
    assume "tmem (th s) ?c \<noteq> None"
    then obtain x where "tmem (th s) ?c = Some x" by blast
    from vfs_wfD(4) [OF wf this] show False by simp
  qed
  then show ?thesis using old t nc
    by (auto simp: child_def with_child_mem(1) [OF wf t] with_child_entry [OF wf t] empty_entry_def)
qed

lemma vfs_wfI:
  assumes "fs_tree s \<noteq> None" "root_of s \<in> dom (tmem (th s))" "0 < next_addr s"
    and n: "\<And>n t. tmem (th s) n = Some t \<Longrightarrow> n \<noteq> 0 \<and> n < next_addr s \<and> tvalue t \<in> dom (ents s) \<and>
        root_of s \<notin> set (tchildren t) \<and> set (tchildren t) \<subseteq> dom (tmem (th s))"
    and p: "\<And>n n' t t' c. tmem (th s) n = Some t \<Longrightarrow> tmem (th s) n' = Some t' \<Longrightarrow>
        c \<in> set (tchildren t) \<Longrightarrow> c \<in> set (tchildren t') \<Longrightarrow> n = n'"
    and v: "\<And>n n' t t'. tmem (th s) n = Some t \<Longrightarrow> tmem (th s) n' = Some t' \<Longrightarrow> tvalue t = tvalue t' \<Longrightarrow> n = n'"
    and c: "\<And>n q c c'. child s n q c \<Longrightarrow> child s n q c' \<Longrightarrow> c = c'"
    and e: "\<And>a e. ents s a = Some e \<Longrightarrow> a < next_addr s \<and> 0 \<notin> set (ename e) \<and>
        (efile e \<noteq> 0 \<longrightarrow> efile e \<in> dom (nodes s))"
    and d: "\<And>a. a \<in> dom (nodes s) \<Longrightarrow> a < next_addr s"
    and r: "\<And>e. entry_of s (root_of s) = Some e \<Longrightarrow> fs_root s = efile e"
  shows "vfs_wf s"
proof -
  have "\<forall>n t. tmem (th s) n = Some t \<longrightarrow> n \<noteq> 0 \<and> n < next_addr s \<and> tvalue t \<in> dom (ents s) \<and>
        root_of s \<notin> set (tchildren t) \<and> set (tchildren t) \<subseteq> dom (tmem (th s))"
    by (intro allI impI) (rule n)
  moreover have "\<forall>n n' t t' c. tmem (th s) n = Some t \<longrightarrow> tmem (th s) n' = Some t' \<longrightarrow>
        c \<in> set (tchildren t) \<longrightarrow> c \<in> set (tchildren t') \<longrightarrow> n = n'"
    by (intro allI impI) (rule p)
  moreover have "\<forall>n n' t t'. tmem (th s) n = Some t \<longrightarrow> tmem (th s) n' = Some t' \<longrightarrow> tvalue t = tvalue t' \<longrightarrow> n = n'"
    by (intro allI impI) (rule v)
  moreover have "\<forall>n q c c'. child s n q c \<longrightarrow> child s n q c' \<longrightarrow> c = c'"
    by (intro allI impI) (rule c)
  moreover have "\<forall>a e. ents s a = Some e \<longrightarrow> a < next_addr s \<and> 0 \<notin> set (ename e) \<and>
        (efile e \<noteq> 0 \<longrightarrow> efile e \<in> dom (nodes s))"
    by (intro allI impI) (rule e)
  ultimately show ?thesis unfolding vfs_wf_def using assms(1-3) d r by simp
qed

lemma with_child_wf:
  assumes wf: "vfs_wf s" and t: "tmem (th s) n = Some t" and q: "\<And>c. \<not> child s n q c" "0 \<notin> set q"
  shows "vfs_wf (with_child q n t s)"
proof -
  let ?s = "with_child q n t s" and ?c = "next_addr s + 1"
  note mem = with_child_mem [OF wf t] and ch = with_child_child [OF wf t]
  have node: "m = ?c \<and> x = \<lparr>tvalue = next_addr s, tchildren = [], tparent = n\<rparr> \<or>
      (\<exists>y. tmem (th s) m = Some y \<and> tvalue x = tvalue y \<and>
           set (tchildren x) = (if m = n then insert ?c (set (tchildren y)) else set (tchildren y)))"
    if "tmem (th ?s) m = Some x" for m x
    using that t by (auto simp: mem(1) split: if_splits)
  have fresh: "?c \<notin> set (tchildren x)" if "tmem (th s) k = Some x" for k x
    using vfs_wfD(7) [OF wf that] vfs_wfD(4) [OF wf] by fastforce
  have nodes: "m \<noteq> 0 \<and> m < next_addr ?s \<and> tvalue x \<in> dom (ents ?s) \<and>
        root_of ?s \<notin> set (tchildren x) \<and> set (tchildren x) \<subseteq> dom (tmem (th ?s))"
    if "tmem (th ?s) m = Some x" for m x
  proof -
    have r: "root_of s < next_addr s" using vfs_wfD(2,4) [OF wf] by blast
    have dom: "dom (tmem (th ?s)) = insert ?c (dom (tmem (th s)))"
      using t by (auto simp: mem(1) split: if_splits)
    from node [OF that] show ?thesis
    proof
      assume "m = ?c \<and> x = \<lparr>tvalue = next_addr s, tchildren = [], tparent = n\<rparr>"
      then show ?thesis by (simp add: mem)
    next
      assume "\<exists>y. tmem (th s) m = Some y \<and> tvalue x = tvalue y \<and>
           set (tchildren x) = (if m = n then insert ?c (set (tchildren y)) else set (tchildren y))"
      then obtain y where y: "tmem (th s) m = Some y" "tvalue x = tvalue y"
        "set (tchildren x) \<subseteq> insert ?c (set (tchildren y))" by (auto split: if_splits)
      have "set (tchildren y) \<subseteq> dom (tmem (th s))" using vfs_wfD(7) [OF wf y(1)] by blast
      then show ?thesis
        using vfs_wfD(3-6) [OF wf y(1)] y(2,3) r unfolding dom mem by auto
    qed
  qed
  have parents: "m = m'" if "tmem (th ?s) m = Some x" "tmem (th ?s) m' = Some x'"
      "c \<in> set (tchildren x)" "c \<in> set (tchildren x')" for m m' x x' c
    using node [OF that(1)] node [OF that(2)] that(3,4) vfs_wfD(8) [OF wf] fresh
    by (fastforce split: if_splits)
  have vals: "m = m'" if "tmem (th ?s) m = Some x" "tmem (th ?s) m' = Some x'" "tvalue x = tvalue x'" for m m' x x'
    using node [OF that(1)] node [OF that(2)] that(3) vfs_wfD(9) [OF wf] tvalue_less [OF wf]
    by (metis less_irrefl_nat tree_node_t.select_convs(1))
  have names: "c = c'" if "child ?s m p c" "child ?s m p c'" for m p c c'
    using that q(1) vfs_wfD(10) [OF wf] unfolding ch by metis
  show ?thesis
  proof (rule vfs_wfI)
    fix a e assume "ents ?s a = Some e"
    then have "a = next_addr s \<and> empty_entry q = e \<or> ents s a = Some e"
      by (simp add: mem split: if_splits)
    then consider "a = next_addr s" "e = empty_entry q" | "ents s a = Some e" by blast
    then show "a < next_addr ?s \<and> 0 \<notin> set (ename e) \<and> (efile e \<noteq> 0 \<longrightarrow> efile e \<in> dom (nodes ?s))"
    proof cases
      case 1
      then show ?thesis using q(2) by (simp add: mem empty_entry_def)
    next
      case 2
      then show ?thesis using vfs_wfD(11,12,13) [OF wf 2] by (simp add: mem)
    qed
  next
    fix e assume "entry_of ?s (root_of ?s) = Some e"
    moreover have "root_of s < next_addr s" using vfs_wfD(2,4) [OF wf] by blast
    ultimately show "fs_root ?s = efile e"
      using vfs_wfD(16) [OF wf] unfolding mem by (simp add: with_child_entry [OF wf t])
  next
    show "root_of ?s \<in> dom (tmem (th ?s))" using vfs_wfD(2) [OF wf] by (auto simp: mem)
    show "0 < next_addr ?s" by (simp add: mem)
  next
    fix a assume "a \<in> dom (nodes ?s)"
    then have "a < next_addr s" using vfs_wfD(14) [OF wf] by (simp add: mem)
    then show "a < next_addr ?s" by (simp add: mem)
  qed (fact mem(7), (rule nodes; assumption), (rule parents; assumption), (rule vals; assumption), (rule names; assumption))
qed


lemma with_child_node_at:
  assumes wf: "vfs_wf s" and t: "tmem (th s) n = Some t"
  shows "node_at s m qs k \<Longrightarrow> node_at (with_child q n t s) m qs k"
    and "node_at (with_child q n t s) m qs k \<Longrightarrow> m \<in> dom (tmem (th s)) \<Longrightarrow>
         node_at s m qs k \<or> k = next_addr s + 1"
proof -
  show "node_at s m qs k \<Longrightarrow> node_at (with_child q n t s) m qs k"
    by (induction rule: node_at.induct) (auto simp: node_at_simps with_child_child [OF wf t])
  have last: "k = next_addr s + 1" if k: "node_at (with_child q n t s) (next_addr s + 1) qs k" for qs
  proof (cases qs)
    case (Cons p ps)
    then obtain c where "child s (next_addr s + 1) p c \<or> next_addr s + 1 = n"
      using k by (auto simp: node_at_simps with_child_child [OF wf t])
    then have "next_addr s + 1 \<in> dom (tmem (th s))" using child_dom [OF wf] t by blast
    then show ?thesis using vfs_wfD(4) [OF wf] by fastforce
  qed (use k in \<open>simp add: node_at_simps\<close>)
  show "node_at (with_child q n t s) m qs k \<Longrightarrow> m \<in> dom (tmem (th s)) \<Longrightarrow>
         node_at s m qs k \<or> k = next_addr s + 1"
  proof (induction qs arbitrary: m)
    case (Cons p ps)
    then obtain c where c: "child (with_child q n t s) m p c" "node_at (with_child q n t s) c ps k"
      by (auto simp: node_at_simps)
    then consider "child s m p c" | "c = next_addr s + 1" by (auto simp: with_child_child [OF wf t])
    then show ?case
    proof cases
      case 1
      then show ?thesis using Cons.IH [OF c(2)] child_dom [OF wf 1] by (blast intro: node_at.down)
    next
      case 2
      then show ?thesis using last c(2) by blast
    qed
  qed (simp add: node_at_simps)
qed

lemma with_child_mounted:
  assumes wf: "vfs_wf s" and t: "tmem (th s) n = Some t"
  shows "mounted (with_child q n t s) = mounted s"
proof (intro ext iffI)
  fix qs f
  note mem = with_child_mem [OF wf t] and na = with_child_node_at [OF wf t]
  note root = vfs_wfD(2) [OF wf]
  { assume "mounted (with_child q n t s) qs f"
    then obtain m e where m: "f \<noteq> 0" "node_at (with_child q n t s) (root_of s) qs m"
      "entry_of (with_child q n t s) m = Some e" "efile e = f"
      unfolding mounted_def mem by blast
    then have "m \<noteq> next_addr s + 1" by (auto simp: with_child_entry [OF wf t] empty_entry_def)
    then show "mounted s qs f"
      using m na(2) [OF m(2) root] unfolding mounted_def with_child_entry [OF wf t] by auto }
  { assume "mounted s qs f"
    then obtain m e where m: "f \<noteq> 0" "node_at s (root_of s) qs m" "entry_of s m = Some e" "efile e = f"
      unfolding mounted_def by blast
    have "m < next_addr s" using node_at_dom [OF m(2) wf root] vfs_wfD(4) [OF wf] by blast
    then have "entry_of (with_child q n t s) m = Some e" using m(3) by (simp add: with_child_entry [OF wf t])
    then show "mounted (with_child q n t s) qs f"
      using m(1,4) na(1) [OF m(2)] unfolding mounted_def mem by blast }
qed

lemma mount_walk_ok:
  assumes "vfs_wf s" "node_at s (root_of s) pre n" "\<forall>q \<in> set qs. 0 \<notin> set q"
  shows "\<exists>n' s'. mount_walk qs n s = Some (n', s') \<and> vfs_wf s' \<and> root_of s' = root_of s \<and>
     node_at s' (root_of s) (pre @ qs) n' \<and> mounted s' = mounted s \<and> nodes s' = nodes s"
  using assms
proof (induction qs arbitrary: pre n s)
  case (Cons q qs)
  note wf = Cons.prems(1)
  obtain t where t: "tmem (th s) n = Some t"
    using node_at_dom [OF Cons.prems(2) wf] vfs_wfD(2) [OF wf] by blast
  have q: "0 \<notin> set q" "\<forall>q \<in> set qs. 0 \<notin> set q" using Cons.prems(3) by simp_all
  show ?case using wf t q(1)
  proof (cases rule: find_child_cases)
    case (Found c)
    have at: "node_at s (root_of s) (pre @ [q]) c"
      using Cons.prems(2) Found(2) by (auto simp: node_at_append node_at_simps)
    show ?thesis using Cons.IH [OF wf at q(2)] Found(1) t by (simp add: tnode_wf [OF wf])
  next
    case Missing
    let ?s = "with_child q n t s" and ?c = "next_addr s + 1"
    have wf': "vfs_wf ?s" by (rule with_child_wf [OF wf t Missing(2) q(1)])
    have "child ?s n q ?c" by (simp add: with_child_child [OF wf t])
    then have at: "node_at ?s (root_of ?s) (pre @ [q]) ?c"
      using with_child_node_at(1) [OF wf t Cons.prems(2)]
      by (auto simp: node_at_append node_at_simps with_child_mem [OF wf t])
    have step: "mount_walk (q # qs) n s = mount_walk qs ?c ?s"
      using Missing(1) t by (simp add: tnode_wf [OF wf] new_entry_eq [OF wf t])
    show ?thesis using Cons.IH [OF wf' at q(2)] unfolding step
      by (simp add: with_child_mem [OF wf t] with_child_mounted [OF wf t])
  qed
qed (simp add: node_at_simps)


section \<open>Mounting updates the table\<close>

text \<open>The state after \<open>f\<close> has been stored in the entry \<open>e\<close> of node \<open>n\<close>.\<close>
definition with_file :: "addr \<Rightarrow> tree_node_t \<Rightarrow> vfs_entry \<Rightarrow> addr \<Rightarrow> vfs \<Rightarrow> vfs" where
  "with_file n t e f s =
     s\<lparr>ents := (ents s)(tvalue t \<mapsto> e\<lparr>efile := f\<rparr>), fs_root := (if n = root_of s then f else fs_root s)\<rparr>"

lemma with_file_fields [simp]:
  "th (with_file n t e f s) = th s" "nodes (with_file n t e f s) = nodes s"
  "root_of (with_file n t e f s) = root_of s" "next_addr (with_file n t e f s) = next_addr s"
  "fs_tree (with_file n t e f s) = fs_tree s"
  "fs_root (with_file n t e f s) = (if n = root_of s then f else fs_root s)"
  by (simp_all add: with_file_def root_of_def)

lemma with_file_entry:
  assumes wf: "vfs_wf s" and t: "tmem (th s) n = Some t"
  shows "entry_of (with_file n t e f s) m = (if m = n then Some (e\<lparr>efile := f\<rparr>) else entry_of s m)"
proof (cases "m = n")
  case False
  then have "tvalue x \<noteq> tvalue t" if "tmem (th s) m = Some x" for x
    using vfs_wfD(9) [OF wf that t] by blast
  then show ?thesis using False by (auto simp: entry_of_def with_file_def split: bind_splits)
qed (simp add: entry_of_def with_file_def t)

lemma with_file_child:
  assumes wf: "vfs_wf s" and t: "tmem (th s) n = Some t" and e: "ents s (tvalue t) = Some e"
  shows "child (with_file n t e f s) = child s"
proof (intro ext)
  fix m q c
  have "(\<exists>x. entry_of (with_file n t e f s) c = Some x \<and> ename x = q) \<longleftrightarrow>
      (\<exists>x. entry_of s c = Some x \<and> ename x = q)"
    using t e unfolding with_file_entry [OF wf t] by (auto simp: entry_of_def)
  then show "child (with_file n t e f s) m q c = child s m q c"
    unfolding child_def with_file_fields by blast
qed

lemma with_file_node_at:
  assumes "vfs_wf s" "tmem (th s) n = Some t" "ents s (tvalue t) = Some e"
  shows "node_at (with_file n t e f s) m qs k = node_at s m qs k"
  by (induction qs arbitrary: m) (simp_all add: node_at_simps with_file_child [OF assms])

lemma with_file_wf:
  assumes wf: "vfs_wf s" and t: "tmem (th s) n = Some t" and e: "ents s (tvalue t) = Some e"
    and f: "f \<in> dom (nodes s)"
  shows "vfs_wf (with_file n t e f s)"
proof (rule vfs_wfI; (unfold with_file_fields with_file_child [OF wf t e])?)
  have dom: "dom (ents (with_file n t e f s)) = dom (ents s)"
    using e by (auto simp: with_file_def)
  show "m \<noteq> 0 \<and> m < next_addr s \<and> tvalue x \<in> dom (ents (with_file n t e f s)) \<and>
        root_of s \<notin> set (tchildren x) \<and> set (tchildren x) \<subseteq> dom (tmem (th s))"
    if "tmem (th s) m = Some x" for m x
    using vfs_wfD(3-7) [OF wf that] unfolding dom by blast
  show "a < next_addr s \<and> 0 \<notin> set (ename x) \<and> (efile x \<noteq> 0 \<longrightarrow> efile x \<in> dom (nodes s))"
    if a: "ents (with_file n t e f s) a = Some x" for a x
  proof (cases "a = tvalue t")
    case True
    then have "x = e\<lparr>efile := f\<rparr>" using a by (simp add: with_file_def)
    then show ?thesis using f vfs_wfD(11,12) [OF wf e] True by simp
  next
    case False
    then have "ents s a = Some x" using a by (simp add: with_file_def)
    then show ?thesis using vfs_wfD(11-13) [OF wf] by blast
  qed
  show "(if n = root_of s then f else fs_root s) = efile x"
    if "entry_of (with_file n t e f s) (root_of s) = Some x" for x
    using that vfs_wfD(16) [OF wf] by (auto simp: with_file_entry [OF wf t] split: if_splits)
qed (fact vfs_wfD(1) [OF wf], fact vfs_wfD(2) [OF wf], fact vfs_wfD(15) [OF wf],
     (rule vfs_wfD(8) [OF wf]; assumption), (rule vfs_wfD(9) [OF wf]; assumption),
     (rule vfs_wfD(10) [OF wf]; assumption), (rule vfs_wfD(14) [OF wf]; assumption))

lemma with_file_mounted:
  assumes wf: "vfs_wf s" and t: "tmem (th s) n = Some t" and e: "ents s (tvalue t) = Some e"
    and at: "node_at s (root_of s) qs n" and f: "f \<noteq> 0"
  shows "mounted (with_file n t e f s) ps g \<longleftrightarrow> (if ps = qs then g = f else mounted s ps g)"
proof -
  have "node_at s (root_of s) ps m \<Longrightarrow> m = n \<longleftrightarrow> ps = qs" for m
    using node_at_inj [OF wf] node_at_det [OF wf] at by metis
  then show ?thesis
    using at f unfolding mounted_def with_file_fields with_file_node_at [OF wf t e] with_file_entry [OF wf t]
    by (auto split: if_splits)
qed


lemma nodes_upd [simp]:
  "entry_of (s\<lparr>nodes := N\<rparr>) = entry_of s" "child (s\<lparr>nodes := N\<rparr>) = child s" "root_of (s\<lparr>nodes := N\<rparr>) = root_of s"
  by (simp_all add: fun_eq_iff entry_of_def child_def root_of_def)

lemma nodes_upd_mounted: "mounted (s\<lparr>nodes := N\<rparr>) = mounted s"
proof -
  have "node_at (s\<lparr>nodes := N\<rparr>) n qs m = node_at s n qs m" for n qs m
    by (induction qs arbitrary: n) (simp_all add: node_at_simps)
  then show ?thesis by (simp add: mounted_def fun_eq_iff)
qed

lemma nodes_upd_wf: "vfs_wf s \<Longrightarrow> dom N = dom (nodes s) \<Longrightarrow> vfs_wf (s\<lparr>nodes := N\<rparr>)"
  by (simp add: vfs_wf_def)

lemma fs_root_upd [simp]:
  "entry_of (s\<lparr>fs_root := y\<rparr>) = entry_of s" "child (s\<lparr>fs_root := y\<rparr>) = child s"
  "root_of (s\<lparr>fs_root := y\<rparr>) = root_of s"
  by (simp_all add: fun_eq_iff entry_of_def child_def root_of_def)

lemma fs_root_upd_mounted: "mounted (s\<lparr>fs_root := y\<rparr>) = mounted s"
proof -
  have "node_at (s\<lparr>fs_root := y\<rparr>) n qs m = node_at s n qs m" for n qs m
    by (induction qs arbitrary: n) (simp_all add: node_at_simps)
  then show ?thesis by (simp add: mounted_def fun_eq_iff)
qed

lemma set_file_ok:
  assumes wf: "vfs_wf s" and at: "node_at s (root_of s) qs n" and f: "f \<in> dom (nodes s)" "f \<noteq> 0"
  obtains s' where "set_file n f s = Some s'" "nodes s' = nodes s" "fs_root s' = fs_root s"
    "vfs_wf (s'\<lparr>fs_root := (if n = root_of s then f else fs_root s)\<rparr>)"
    "\<And>ps g. mounted s' ps g \<longleftrightarrow> (if ps = qs then g = f else mounted s ps g)"
proof -
  obtain t where t: "tmem (th s) n = Some t"
    using node_at_dom [OF at wf] vfs_wfD(2) [OF wf] by blast
  obtain e where e: "ents s (tvalue t) = Some e" using vfs_wfD(5) [OF wf t] by blast
  let ?s = "s\<lparr>ents := (ents s)(tvalue t \<mapsto> e\<lparr>efile := f\<rparr>)\<rparr>"
  have eq: "?s\<lparr>fs_root := (if n = root_of s then f else fs_root s)\<rparr> = with_file n t e f s"
    by (simp add: with_file_def)
  show ?thesis
  proof (rule that [of ?s])
    show "set_file n f s = Some ?s" using t e by (simp add: set_file_def tnode_wf [OF wf])
    show "vfs_wf (?s\<lparr>fs_root := (if n = root_of s then f else fs_root s)\<rparr>)"
      unfolding eq by (rule with_file_wf [OF wf t e f(1)])
    show "mounted ?s ps g \<longleftrightarrow> (if ps = qs then g = f else mounted s ps g)" for ps g
      using with_file_mounted [OF wf t e at f(2), of ps g] unfolding eq [symmetric] fs_root_upd_mounted .
  qed simp_all
qed

lemma mount_search_zero: "mount_search s qs n k best = Some (0, r) \<Longrightarrow> fst best = 0"
  by (induction qs arbitrary: n k best)
     (fastforce split: bind_splits option.splits if_splits)+

section \<open>Mounting and looking up\<close>

lemma vfs_mount_ok:
  assumes "vfs_wf s" "canonical p" "nodes s f = Some nd" "f \<noteq> 0"
  shows "\<exists>n s'. vfs_mount p f s = Some (n, s') \<and> vfs_wf s' \<and>
     (\<forall>qs g. mounted s' qs g \<longleftrightarrow> (if qs = path_tokens p then g = f else mounted s qs g)) \<and>
     nodes s' = (nodes s)(f \<mapsto> nd\<lparr>refcount := - 1\<rparr>)"
proof -
  let ?s = "s\<lparr>nodes := (nodes s)(f \<mapsto> nd\<lparr>refcount := - 1\<rparr>)\<rparr>"
  obtain tree where tree: "fs_tree s = Some tree" "root_of s = troot tree"
    using vfs_wfD(1) [OF assms(1)] by (auto simp: root_of_def)
  have wf: "vfs_wf ?s" by (rule nodes_upd_wf [OF assms(1)]) (use assms(3) in auto)
  note f = assms(4)
  consider "p = [PATH_SEPARATOR]" | cs where "cs \<noteq> []" "\<forall>c \<in> set cs. component c" "p = path_join cs"
    using assms(2) unfolding canonical_def by blast
  then show ?thesis
  proof cases
    case 1
    have at: "node_at ?s (root_of ?s) [] (root_of ?s)" by (rule node_at.here)
    obtain s' where s': "set_file (root_of ?s) f ?s = Some s'" "nodes s' = nodes ?s"
      "vfs_wf (s'\<lparr>fs_root := f\<rparr>)" "\<And>ps g. mounted s' ps g \<longleftrightarrow> (if ps = [] then g = f else mounted ?s ps g)"
      by (rule set_file_ok [OF wf at _ f]) simp_all
    have "path_tokens p = []" using 1 by simp
    then show ?thesis using s' 1 assms(3) tree
      by (simp add: vfs_mount_def nodes_upd_mounted fs_root_upd_mounted del: fun_upd_apply)
  next
    case (2 cs)
    obtain c cs' where cs: "cs = c # cs'" using 2(1) by (cases cs) auto
    have c: "component c" using 2(2) cs by simp
    have tok: "path_tokens p = cs" using 2 by (simp add: path_tokens_join component_def)
    have hd: "hd p = PATH_SEPARATOR" "p \<noteq> []" "drop 1 p \<noteq> []" "\<not> is_sep (hd (drop 1 p))"
      using c by (auto simp: 2(3) cs path_join_def component_def neq_Nil_conv)
    have pb: "pieces_before (drop 1 p) = cs" unfolding 2(3) by (rule pieces_join(2) [OF 2(1,2)])
    have at0: "node_at ?s (root_of ?s) [] (root_of ?s)" by (rule node_at.here)
    have z: "\<forall>q \<in> set cs. 0 \<notin> set q" using 2(2) by (simp add: component_def)
    obtain n u where u: "mount_walk cs (root_of ?s) ?s = Some (n, u)" "vfs_wf u" "root_of u = root_of ?s"
      "node_at u (root_of ?s) cs n" "mounted u = mounted ?s" "nodes u = nodes ?s"
      using mount_walk_ok [OF wf at0 z, unfolded append_Nil] by blast
    have nr: "n \<noteq> root_of u" using node_at_inj [OF u(2), of cs n "[]"] node_at.here [of u] u(3,4) 2(1) by metis
    have fd: "f \<in> dom (nodes u)" using u(6) by simp
    have at: "node_at u (root_of u) cs n" using u(3,4) by simp
    obtain s' where s': "set_file n f u = Some s'" "nodes s' = nodes u" "fs_root s' = fs_root u"
      "vfs_wf (s'\<lparr>fs_root := fs_root u\<rparr>)"
      "\<And>ps g. mounted s' ps g \<longleftrightarrow> (if ps = cs then g = f else mounted u ps g)"
      by (rule set_file_ok [OF u(2) at fd f]) (use nr in simp_all)
    have "s'\<lparr>fs_root := fs_root u\<rparr> = s'" using s'(3) by simp
    then have "vfs_wf s'" using s'(4) by simp
    moreover
    have "vfs_mount p f s = Some (n, s')"
      using hd assms(3) tree u(1) s'(1) pb by (simp add: vfs_mount_def)
    ultimately show ?thesis using s' u(5,6) tok by (simp add: nodes_upd_mounted del: fun_upd_apply)
  qed
qed

lemma get_mount_point_ok:
  assumes "vfs_wf s" "\<forall>q \<in> set qs. 0 \<notin> set q"
  shows "\<exists>j r. get_mount_point qs s = Some (r, drop j qs, j) \<and> j \<le> length qs \<and>
     (\<forall>i g. j < i \<and> i \<le> length qs \<longrightarrow> \<not> mounted s (take i qs) g) \<and>
     (case r of None \<Rightarrow> j = 0 \<and> (\<forall>g. \<not> mounted s [] g)
      | Some n \<Rightarrow> \<exists>g. mounted s (take j qs) g \<and> nodes s g = Some n)"
proof -
  note wf = assms(1)
  obtain tree where tree: "fs_tree s = Some tree" "root_of s = troot tree"
    using vfs_wfD(1) [OF wf] by (auto simp: root_of_def)
  obtain t where t: "tmem (th s) (root_of s) = Some t" using vfs_wfD(2) [OF wf] by blast
  obtain e where e: "entry_of s (root_of s) = Some e" using entry_of_wf [OF wf t] by blast
  have fr: "fs_root s = efile e" by (rule vfs_wfD(16) [OF wf e])
  have m0: "mounted s [] g \<longleftrightarrow> g \<noteq> 0 \<and> g = fs_root s" for g
    unfolding mounted_def fr using e by (auto simp: node_at_simps)
  have "\<exists>j f. mount_search s qs (root_of s) (Suc (length ([] :: path list))) (fs_root s, qs, 0) = Some (f, drop j ([] @ qs), j) \<and>
     j \<le> length ([] @ qs) \<and> (f \<noteq> 0 \<longrightarrow> mounted s (take j ([] @ qs)) f) \<and> (0 < j \<longrightarrow> f \<noteq> 0) \<and>
     (\<forall>i f'. j < i \<longrightarrow> i \<le> length ([] @ qs) \<longrightarrow> \<not> mounted s (take i ([] @ qs)) f')"
    by (rule mount_search_spec [OF wf assms(2) node_at.here, where f = "fs_root s" and j = 0])
       (simp_all add: m0)
  then obtain j f where j: "mount_search s qs (root_of s) 1 (fs_root s, qs, 0) = Some (f, drop j qs, j)"
    "j \<le> length qs" "f \<noteq> 0 \<longrightarrow> mounted s (take j qs) f" "0 < j \<longrightarrow> f \<noteq> 0"
    "\<forall>i g. j < i \<and> i \<le> length qs \<longrightarrow> \<not> mounted s (take i qs) g" by auto
  show ?thesis
  proof (cases "f = 0")
    case True
    then have "fs_root s = 0" using mount_search_zero j(1) by fastforce
    then show ?thesis using j True tree m0 by (auto simp: get_mount_point_def)
  next
    case False
    then obtain n e where "entry_of s n = Some e" "efile e = f" using j(3) unfolding mounted_def by blast
    then obtain nd where "nodes s f = Some nd"
      using vfs_wfD(13) [OF wf] False by (auto simp: entry_of_def split: bind_splits)
    then show ?thesis using j False tree
      by (intro exI [of _ j] exI [of _ "Some nd"]) (auto simp: get_mount_point_def)
  qed
qed


section \<open>Reachable states\<close>

lemma vfs_install_wf:
  assumes "tmem (th s) = Map.empty" "ents s = Map.empty" "nodes s = Map.empty" "0 < next_addr s" "fs_root s = 0"
  shows "vfs_wf (vfs_install s)" "\<And>qs g. \<not> mounted (vfs_install s) qs g"
proof -
  let ?s = "vfs_install s" and ?e = "next_addr s"
  have f: "tmem (th ?s) = [?e + 1 \<mapsto> \<lparr>tvalue = ?e, tchildren = [], tparent = 0\<rparr>]"
    "ents ?s = [?e \<mapsto> empty_entry root_name]" "nodes ?s = Map.empty" "next_addr ?s = ?e + 2"
    "fs_root ?s = 0" "root_of ?s = ?e + 1" "fs_tree ?s \<noteq> None"
    using assms
    by (simp_all add: vfs_install_def tree_set_root_def tree_create_def tree_node_create_def tput_def
        empty_entry_def Let_def root_of_def)
  have ch: "\<not> child ?s n q c" for n q c by (simp add: child_def f)
  have en: "entry_of ?s m = (if m = ?e + 1 then Some (empty_entry root_name) else None)" for m
    by (simp add: entry_of_def f)
  show "vfs_wf ?s"
    by (rule vfs_wfI) (auto simp: f ch en empty_entry_def root_name_def split: if_splits)
  show "\<not> mounted ?s qs g" for qs g
    by (auto simp: mounted_def en empty_entry_def split: if_splits)
qed

lemma vfs_wf_add_node:
  assumes "vfs_wf s"
  shows "vfs_wf (s\<lparr>nodes := (nodes s)(next_addr s \<mapsto> n), next_addr := next_addr s + 1\<rparr>)" (is "vfs_wf ?s")
proof -
  have e: "entry_of ?s = entry_of s" "child ?s = child s" "root_of ?s = root_of s"
    by (simp_all add: fun_eq_iff entry_of_def child_def root_of_def)
  show ?thesis
  proof (rule vfs_wfI; (unfold e)?)
    show "a < next_addr ?s \<and> 0 \<notin> set (ename x) \<and> (efile x \<noteq> 0 \<longrightarrow> efile x \<in> dom (nodes ?s))"
      if "ents ?s a = Some x" for a x
      using vfs_wfD(11-13) [OF assms] that by (fastforce simp: less_Suc_eq)
    show "m \<noteq> 0 \<and> m < next_addr ?s \<and> tvalue x \<in> dom (ents ?s) \<and>
        root_of s \<notin> set (tchildren x) \<and> set (tchildren x) \<subseteq> dom (tmem (th ?s))"
      if "tmem (th ?s) m = Some x" for m x
      using vfs_wfD(3-7) [OF assms, of m x] that by (auto simp: less_Suc_eq)
    show "a < next_addr ?s" if "a \<in> dom (nodes ?s)" for a
      using vfs_wfD(14) [OF assms] that by (auto simp: less_Suc_eq)
    show "n = n'" if "tmem (th ?s) n = Some t" "tmem (th ?s) n' = Some t'" "c \<in> set (tchildren t)"
      "c \<in> set (tchildren t')" for n n' t t' c
      using vfs_wfD(8) [OF assms] that by simp
    show "n = n'" if "tmem (th ?s) n = Some t" "tmem (th ?s) n' = Some t'" "tvalue t = tvalue t'" for n n' t t'
      using vfs_wfD(9) [OF assms] that by simp
    show "c = c'" if "child s n q c" "child s n q c'" for n q c c' by (rule vfs_wfD(10) [OF assms that])
    show "fs_root ?s = efile x" if "entry_of s (root_of s) = Some x" for x
      using vfs_wfD(16) [OF assms that] by simp
  qed (use vfs_wfD(1,2) [OF assms] in simp_all)
qed

lemma vfs_wf_first: "vfs_wf (s\<lparr>first := k\<rparr>) = vfs_wf s" "vfs_wf (s\<lparr>fs_types := ts\<rparr>) = vfs_wf s"
  by (simp_all add: vfs_wf_def entry_of_def child_def root_of_def)

lemma follow_link_state:
  assumes "\<And>k f r s d x s' d'. again = Some k \<Longrightarrow> k f r s d = Some (x, s', d') \<Longrightarrow> s' = s\<lparr>first := 0\<rparr>"
    and "follow_link c again fl l p depth n s d = Some (r, s', d')" "first s = 0"
  shows "s' = s"
proof -
  have "s\<lparr>first := 0\<rparr> = s" using assms(3) by simp
  then show ?thesis using assms(1,2)
    by (auto simp: follow_link_def Let_def split: if_splits option.splits prod.splits bind_splits)
qed

lemma kopen_loop_state:
  assumes "\<And>k f r s d x s' d'. again = Some k \<Longrightarrow> k f r s d = Some (x, s', d') \<Longrightarrow> s' = s\<lparr>first := 0\<rparr>"
    and "kopen_loop c again fl p pd qs depth node s d = Some (x, s', d')" "first s = 0"
  shows "s' = s"
  using assms(2,3)
proof (induction qs arbitrary: depth node s d)
  case (Cons q qs)
  have follow: "s1 = s" if "follow_link c again fl l p k n s d1 = Some (r, s1, d2)" for l k n d1 r s1 d2
    by (rule follow_link_state [OF assms(1) that Cons.prems(2)])
  show ?case using Cons.prems
    by (auto simp: Let_def split: if_splits option.splits prod.splits bind_splits
        dest: follow Cons.IH)
qed (auto split: if_splits)

lemma kopen_body_state:
  assumes "\<And>k f r s d x s' d'. again = Some k \<Longrightarrow> k f r s d = Some (x, s', d') \<Longrightarrow> s' = s\<lparr>first := 0\<rparr>"
    and "kopen_body c again fl f r s d = Some (x, s', d')"
  shows "s' = s\<lparr>first := 0\<rparr>"
  using assms(2) kopen_loop_state [where again = again and s = "s\<lparr>first := 0\<rparr>", OF assms(1)]
  by (auto simp: kopen_body_def Let_def split: if_splits option.splits prod.splits bind_splits)

lemma kopen_recur_state: "kopen_recur c n fl f r s d = Some (x, s', d') \<Longrightarrow> s' = s\<lparr>first := 0\<rparr>"
proof (induction n arbitrary: fl f r s d x s' d')
  case 0
  show ?case by (rule kopen_body_state [where again = None]) (use 0 in simp_all)
next
  case (Suc n)
  show ?case
    by (rule kopen_body_state [where again = "Some (kopen_recur c n 0)"]) (use Suc in auto)
qed

lemma vfs_wf_same_entry:
  assumes "vfs_wf s" "ents s a = Some e" "ename e' = ename e" "efile e' = efile e"
  shows "vfs_wf (s\<lparr>ents := (ents s)(a \<mapsto> e')\<rparr>)" (is "vfs_wf ?s")
proof -
  have r: "root_of ?s = root_of s" by (simp add: root_of_def)
  have e: "\<exists>y. entry_of s m = Some y \<and> ename y = ename x \<and> efile y = efile x" if "entry_of ?s m = Some x" for m x
    using that assms(2-4) by (auto simp: entry_of_def split: bind_splits if_splits)
  have c: "child ?s n q c \<Longrightarrow> child s n q c" for n q c
    unfolding child_def using e by fastforce
  show ?thesis
  proof (rule vfs_wfI; (unfold r)?)
    show "b < next_addr ?s \<and> 0 \<notin> set (ename x) \<and> (efile x \<noteq> 0 \<longrightarrow> efile x \<in> dom (nodes ?s))"
      if "ents ?s b = Some x" for b x
      using vfs_wfD(11-13) [OF assms(1)] that assms(2-4) by (auto split: if_splits)
    show "m \<noteq> 0 \<and> m < next_addr ?s \<and> tvalue x \<in> dom (ents ?s) \<and>
        root_of s \<notin> set (tchildren x) \<and> set (tchildren x) \<subseteq> dom (tmem (th ?s))"
      if "tmem (th ?s) m = Some x" for m x
      using vfs_wfD(3-7) [OF assms(1), of m x] that assms(2) by auto
    show "b < next_addr ?s" if "b \<in> dom (nodes ?s)" for b
      using vfs_wfD(14) [OF assms(1)] that by auto
    show "n = n'" if "tmem (th ?s) n = Some t" "tmem (th ?s) n' = Some t'" "c \<in> set (tchildren t)"
      "c \<in> set (tchildren t')" for n n' t t' c
      using vfs_wfD(8) [OF assms(1)] that by simp
    show "n = n'" if "tmem (th ?s) n = Some t" "tmem (th ?s) n' = Some t'" "tvalue t = tvalue t'" for n n' t t'
      using vfs_wfD(9) [OF assms(1)] that by simp
    show "x = y" if "child ?s n q x" "child ?s n q y" for n q x y
      by (rule vfs_wfD(10) [OF assms(1) that [THEN c]])
    show "fs_root ?s = efile x" if "entry_of ?s (root_of s) = Some x" for x
      using vfs_wfD(16) [OF assms(1)] e [OF that] by auto
  qed (use vfs_wfD(1,2,15) [OF assms(1)] in simp_all)
qed


text \<open>
  The states the virtual file system can get into: it is installed once; file systems are
  registered, drivers allocate nodes, and file systems and plain directories are mounted at
  canonical paths; files are opened.
\<close>
inductive vfs_reach :: "'d fs_ops \<Rightarrow> vfs \<Rightarrow> bool" for c where
  install: "\<lbrakk>tmem (th s) = Map.empty; ents s = Map.empty; nodes s = Map.empty; 0 < next_addr s; fs_root s = 0\<rbrakk>
    \<Longrightarrow> vfs_reach c (vfs_install s)"
| register: "\<lbrakk>vfs_reach c s; vfs_register nm callback s = Some (r, s')\<rbrakk> \<Longrightarrow> vfs_reach c s'"
| node: "vfs_reach c s \<Longrightarrow> vfs_reach c (s\<lparr>nodes := (nodes s)(next_addr s \<mapsto> n), next_addr := next_addr s + 1\<rparr>)"
| mount: "\<lbrakk>vfs_reach c s; canonical p; f \<noteq> 0; vfs_mount p f s = Some (e, s')\<rbrakk> \<Longrightarrow> vfs_reach c s'"
| mount_type: "\<lbrakk>vfs_reach c s; canonical p; vfs_mount_type c type arg p s d = Some (r, s', d')\<rbrakk> \<Longrightarrow> vfs_reach c s'"
| directory: "\<lbrakk>vfs_reach c s; canonical p; map_vfs_directory rm p s = Some s'\<rbrakk> \<Longrightarrow> vfs_reach c s'"
| kopen: "\<lbrakk>vfs_reach c s; kopen_recur c n fl f r s d = Some (x, s', d')\<rbrakk> \<Longrightarrow> vfs_reach c s'"

lemma vfs_mount_wf:
  assumes "vfs_wf s" "canonical p" "f \<noteq> 0" "vfs_mount p f s = Some (n, s')"
  shows "vfs_wf s'"
proof (cases "nodes s f")
  case None
  then have "s' = s" using assms(4)
    by (auto simp: vfs_mount_def split: bind_splits option.splits if_splits)
  then show ?thesis using assms(1) by simp
next
  case (Some nd)
  from vfs_mount_ok [OF assms(1,2) Some assms(3)] assms(4) show ?thesis by auto
qed

lemma mount_new_node_wf:
  assumes "vfs_wf s" "canonical p"
    "vfs_mount p (next_addr s) (s\<lparr>nodes := (nodes s)(next_addr s \<mapsto> n), next_addr := Suc (next_addr s)\<rparr>) = Some (m, u)"
  shows "vfs_wf u"
  by (rule vfs_mount_wf [OF _ assms(2) _ assms(3)])
     (use vfs_wf_add_node [OF assms(1)] vfs_wfD(15) [OF assms(1)] in simp_all)

lemma vfs_mount_type_wf:
  assumes "vfs_wf s" "canonical p" "vfs_mount_type c type arg p s d = Some (r, s', d')"
  shows "vfs_wf s'"
proof -
  have "vfs_wf u" if "vfs_mount p (next_addr s) (s\<lparr>nodes := (nodes s)(next_addr s \<mapsto> n), next_addr := Suc (next_addr s)\<rparr>) = Some (m, u)" for n m u
    by (rule mount_new_node_wf [OF assms(1,2) that])
  then show ?thesis using assms(1,3)
    by (auto simp: vfs_mount_type_def Let_def split: bind_splits if_splits prod.splits option.splits
        intro!: vfs_wf_same_entry)
qed

lemma map_vfs_directory_wf:
  assumes "vfs_wf s" "canonical p" "map_vfs_directory rm p s = Some s'"
  shows "vfs_wf s'"
proof -
  have "vfs_wf u" if "vfs_mount p (next_addr s) (s\<lparr>nodes := (nodes s)(next_addr s \<mapsto> n), next_addr := Suc (next_addr s)\<rparr>) = Some (m, u)" for n m u
    by (rule mount_new_node_wf [OF assms(1,2) that])
  then show ?thesis using assms(1,3)
    by (auto simp: map_vfs_directory_def Let_def split: bind_splits if_splits intro!: nodes_upd_wf)
qed

lemma vfs_reach_wf: "vfs_reach c s \<Longrightarrow> vfs_wf s"
proof (induction rule: vfs_reach.induct)
  case install
  then show ?case by (rule vfs_install_wf)
next
  case (register s nm callback r s')
  then show ?case by (auto simp: vfs_register_def vfs_wf_first split: bind_splits if_splits)
next
  case node
  then show ?case by (simp only: vfs_wf_add_node)
next
  case mount
  show ?case by (rule vfs_mount_wf [OF mount(5,2,3,4)])
next
  case mount_type
  show ?case by (rule vfs_mount_type_wf [OF mount_type(4,2,3)])
next
  case directory
  show ?case by (rule map_vfs_directory_wf [OF directory(4,2,3)])
next
  case (kopen s n fl f r d x s' d')
  then show ?case using kopen_recur_state [OF kopen(2)] by (simp add: vfs_wf_first)
qed


section \<open>Opening always returns\<close>

lemma canonicalize_path_nonzero:
  assumes "0 \<notin> set cwd" "0 \<notin> set input"
  shows "0 \<notin> set (canonicalize_path cwd input)"
proof -
  have push: "\<forall>q \<in> set (fold path_push ts out). 0 \<notin> set q"
    if "\<forall>q \<in> set ts. 0 \<notin> set q" "\<forall>q \<in> set out. 0 \<notin> set q" for ts out
    using that
  proof (induction ts arbitrary: out)
    case (Cons t ts)
    then have "\<forall>q \<in> set (path_push t out). 0 \<notin> set q" by (auto simp: path_push_def dest: in_set_butlastD)
    then show ?case using Cons by simp
  qed simp
  have "\<forall>q \<in> set (path_tokens p). 0 \<notin> set q" if "0 \<notin> set p" for p
    using set_path_tokens that by blast
  with assms show ?thesis
    by (auto simp: canonicalize_join Let_def path_join_def PATH_SEPARATOR_def dest!: push [rule_format, rotated 2])
qed

lemma pieces_facts:
  "length (pieces p) = Suc (length (filter is_sep p))" "q \<in> set (pieces p) \<Longrightarrow> set q \<subseteq> set p"
proof -
  show "length (pieces p) = Suc (length (filter is_sep p))"
    by (induction p) (auto split: list.splits)
  show "q \<in> set (pieces p) \<Longrightarrow> set q \<subseteq> set p"
    by (induction p arbitrary: q) (fastforce split: list.splits if_splits)+
qed

lemma set_path_prefix: "set (path_prefix k p) \<subseteq> set p"
  by (induction k p rule: path_prefix.induct) (auto split: nat.splits)

text \<open>
  A relation \<open>good\<close> between the states of the drivers and the nodes of their trees under which
  links are shorter than the buffer.  Looking up, reading a link and opening keep what is good
  and give good nodes; reading a good link returns an error or a length that is an index of what
  was stored in the buffer.  A driver that returns the size of the buffer for longer links, as
  \<^verbatim>\<open>readlink_ext2\<close> does, meets this for disks that have no such link.
\<close>
definition keeps_good :: "('d \<Rightarrow> fs_node_t \<Rightarrow> bool) \<Rightarrow> 'd \<Rightarrow> fs_node_t option \<Rightarrow> 'd \<Rightarrow> bool" where
  "keeps_good good d r d' \<longleftrightarrow> (\<forall>n. good d n \<longrightarrow> good d' n) \<and> (\<forall>n. r = Some n \<longrightarrow> good d' n)"

definition short_links :: "'d fs_ops \<Rightarrow> ('d \<Rightarrow> fs_node_t \<Rightarrow> bool) \<Rightarrow> bool" where
  "short_links c good \<longleftrightarrow> (\<forall>d n. good d n \<longrightarrow>
     (\<forall>q. case finddir_fs c (Some n) q d of (r, d') \<Rightarrow> keeps_good good d r d') \<and>
     (\<forall>fl. case open_fs c (Some n) fl d of (r, d') \<Rightarrow> keeps_good good d r d') \<and>
     (flags n AND FS_SYMLINK \<noteq> 0 \<longrightarrow>
        (case readlink_fs c (Some n) MAX_SYMLINK_SIZE d of ((len, buf), d') \<Rightarrow>
           (len < 0 \<or> nat len < length buf) \<and> keeps_good good d None d')))"

lemma short_linksD:
  assumes "short_links c good" "good d n"
  shows "finddir_fs c (Some n) q d = (r, d') \<Longrightarrow> keeps_good good d r d'"
    "open_fs c (Some n) fl d = (r, d') \<Longrightarrow> keeps_good good d r d'"
    "flags n AND FS_SYMLINK \<noteq> 0 \<Longrightarrow> readlink_fs c (Some n) MAX_SYMLINK_SIZE d = ((len, buf), d') \<Longrightarrow>
       (len < 0 \<or> nat len < length buf) \<and> keeps_good good d None d'"
proof -
  note * = assms(1) [unfolded short_links_def, THEN spec, THEN spec, THEN mp, OF assms(2)]
  note 1 = * [THEN conjunct1, THEN spec, of q] and 2 = * [THEN conjunct2, THEN conjunct1, THEN spec, of fl]
    and 3 = * [THEN conjunct2, THEN conjunct2, THEN mp]
  show "finddir_fs c (Some n) q d = (r, d') \<Longrightarrow> keeps_good good d r d'"
    "open_fs c (Some n) fl d = (r, d') \<Longrightarrow> keeps_good good d r d'"
    "flags n AND FS_SYMLINK \<noteq> 0 \<Longrightarrow> readlink_fs c (Some n) MAX_SYMLINK_SIZE d = ((len, buf), d') \<Longrightarrow>
       (len < 0 \<or> nat len < length buf) \<and> keeps_good good d None d'"
    using 1 2 3 by simp_all
qed

lemma keeps_good_refl: "good d n \<Longrightarrow> keeps_good good d (Some n) d" "keeps_good good d None d"
  by (simp_all add: keeps_good_def)

lemma keeps_good_trans: "keeps_good good d r d1 \<Longrightarrow> keeps_good good d1 r' d2 \<Longrightarrow> keeps_good good d r' d2"
  by (auto simp: keeps_good_def)

text \<open>A result of opening: only the flag of the first call changes, and what is good stays so.\<close>
definition opened_well ::
    "('d \<Rightarrow> fs_node_t \<Rightarrow> bool) \<Rightarrow> vfs \<Rightarrow> 'd \<Rightarrow> (fs_node_t option \<times> vfs \<times> 'd) option \<Rightarrow> bool" where
  "opened_well good s d x \<longleftrightarrow> (\<exists>r d'. x = Some (r, s\<lparr>first := 0\<rparr>, d') \<and> keeps_good good d r d')"

definition all_good :: "('d \<Rightarrow> fs_node_t \<Rightarrow> bool) \<Rightarrow> vfs \<Rightarrow> 'd \<Rightarrow> bool" where
  "all_good good s d \<longleftrightarrow> (\<forall>a n. nodes s a = Some n \<longrightarrow> good d n)"

lemma all_good_keeps: "all_good good s d \<Longrightarrow> keeps_good good d r d' \<Longrightarrow> all_good good s d'"
  by (simp add: all_good_def keeps_good_def)

definition opens_all :: "('d \<Rightarrow> fs_node_t \<Rightarrow> bool) \<Rightarrow> vfs \<Rightarrow> 'd opener \<Rightarrow> bool" where
  "opens_all good s k \<longleftrightarrow> (\<forall>f r b d. 0 \<notin> set f \<longrightarrow> 0 \<notin> set r \<longrightarrow> all_good good s d \<longrightarrow>
     opened_well good s d (k f r (s\<lparr>first := b\<rparr>) d))"

lemma follow_link_total:
  assumes L: "short_links c good" and p: "0 \<notin> set p" and again: "case again of None \<Rightarrow> True | Some k \<Rightarrow> opens_all good s k"
    and n: "good d n" "flags n AND FS_SYMLINK \<noteq> 0" and g: "all_good good s d"
  shows "opened_well good s d (follow_link c again fl l p depth n (s\<lparr>first := 0\<rparr>) d)"
proof -
  obtain len buf d' where r: "readlink_fs c (Some n) MAX_SYMLINK_SIZE d = ((len, buf), d')" by (metis prod.exhaust)
  have len: "len < 0 \<or> nat len < length buf" and k: "keeps_good good d None d'"
    using short_linksD(3) [OF L n r] by simp_all
  have stop: "opened_well good s d (Some (None, s\<lparr>first := 0\<rparr>, x))" if "keeps_good good d None x" for x
    using that by (auto simp: opened_well_def)
  have go: "opened_well good s d (ko (takeWhile (\<lambda>b. b \<noteq> 0) buf) (path_prefix depth p) (s\<lparr>first := 0\<rparr>) d')"
    if "again = Some ko" for ko
  proof -
    have "0 \<notin> set (takeWhile (\<lambda>b. b \<noteq> 0) buf)" by (auto dest: set_takeWhileD)
    moreover have "0 \<notin> set (path_prefix depth p)" using p set_path_prefix by blast
    ultimately have "opened_well good s d' (ko (takeWhile (\<lambda>b. b \<noteq> 0) buf) (path_prefix depth p) (s\<lparr>first := 0\<rparr>) d')"
      using again that all_good_keeps [OF g k] by (simp add: opens_all_def)
    then show ?thesis using keeps_good_trans [OF k] unfolding opened_well_def by blast
  qed
  show ?thesis using len go stop [OF keeps_good_refl(2)] stop [OF k]
    by (auto simp: follow_link_def r nth_opt_def Let_def split: option.splits)
qed

lemma kopen_loop_total:
  assumes L: "short_links c good" and p: "0 \<notin> set p" and again: "case again of None \<Rightarrow> True | Some k \<Rightarrow> opens_all good s k"
    and "pd \<le> depth + length qs" "good d node" "all_good good s d"
  shows "opened_well good s d (kopen_loop c again fl p pd qs depth node (s\<lparr>first := 0\<rparr>) d)"
  using assms(4-6)
proof (induction qs arbitrary: depth node d)
  case (Cons q qs)
  obtain found d1 where fd: "finddir_fs c (Some node) q d = (found, d1)" by fastforce
  have k1: "keeps_good good d found d1" by (rule short_linksD(1) [OF L Cons.prems(2) fd])
  have g1: "all_good good s d1" by (rule all_good_keeps [OF Cons.prems(3) k1])
  show ?case
  proof (cases found)
    case None
    then show ?thesis using k1 by (auto simp: fd Let_def opened_well_def keeps_good_def)
  next
    case (Some n)
    define l where "l = (depth = pd - 1)"
    have n: "good d1 n" using k1 Some by (simp add: keeps_good_def)
    let ?x = "if is_link fl l n then follow_link c again fl l p depth n (s\<lparr>first := 0\<rparr>) d1
        else Some (Some n, s\<lparr>first := 0\<rparr>, d1)"
    have "opened_well good s d1 ?x"
      using follow_link_total [OF L p again n _ g1] keeps_good_refl(1) [of good d1 n] n
      by (auto simp: is_link_def opened_well_def)
    then obtain r d2 where x: "?x = Some (r, s\<lparr>first := 0\<rparr>, d2)" and k2: "keeps_good good d1 r d2"
      unfolding opened_well_def by blast
    have k: "keeps_good good d r d2" by (rule keeps_good_trans [OF k1 k2])
    have rest: "opened_well good s d (kopen_loop c again fl p pd qs (Suc depth) m (s\<lparr>first := 0\<rparr>) d2)" if "r = Some m" for m
    proof -
      have "good d2 m" using k2 that by (simp add: keeps_good_def)
      then have "opened_well good s d2 (kopen_loop c again fl p pd qs (Suc depth) m (s\<lparr>first := 0\<rparr>) d2)"
        using Cons.IH [of "Suc depth" d2 m] Cons.prems(1) all_good_keeps [OF g1 k2] by simp
      then show ?thesis using keeps_good_trans [OF k] unfolding opened_well_def by blast
    qed
    have opn: "keeps_good good d r' d3" if "r = Some m" "open_fs c (Some m) fl d2 = (r', d3)" for m r' d3
    proof -
      have "good d2 m" using k2 that(1) by (simp add: keeps_good_def)
      then show ?thesis by (rule keeps_good_trans [OF k short_linksD(2) [OF L _ that(2)]])
    qed
    have e: "kopen_loop c again fl p pd (q # qs) depth node (s\<lparr>first := 0\<rparr>) d =
        (case r of None \<Rightarrow> Some (None, s\<lparr>first := 0\<rparr>, d2)
         | Some m \<Rightarrow> if l then (case open_fs c (Some m) fl d2 of (y, d3) \<Rightarrow> Some (y, s\<lparr>first := 0\<rparr>, d3))
                     else kopen_loop c again fl p pd qs (Suc depth) m (s\<lparr>first := 0\<rparr>) d2)" if "depth < pd"
      using that unfolding kopen_loop.simps fd Let_def Some option.case prod.case l_def [symmetric] x
      by (cases r) simp_all
    show ?thesis
    proof (cases "depth < pd")
      case True
      show ?thesis
      proof (cases r)
        case None
        then show ?thesis using k e [OF True] by (simp add: opened_well_def)
      next
        case (Some m)
        obtain y d3 where y: "open_fs c (Some m) fl d2 = (y, d3)" by fastforce
        show ?thesis using opn [OF Some y] rest [OF Some] unfolding e [OF True]
          by (simp add: Some y opened_well_def)
      qed
    qed (simp add: opened_well_def keeps_good_refl)
  qed
qed (simp add: opened_well_def keeps_good_refl)

lemma kopen_body_total:
  assumes L: "short_links c good" and "vfs_wf s" "fs_root s \<noteq> 0" "0 \<notin> set f" "0 \<notin> set r"
    "case again of None \<Rightarrow> True | Some k \<Rightarrow> opens_all good s k" and g: "all_good good s d"
  shows "opened_well good s d (kopen_body c again fl f r (s\<lparr>first := b\<rparr>) d)"
proof -
  let ?s = "s\<lparr>first := 0\<rparr>"
  define p where "p = (if b = 1 then f else canonicalize_path r f)"
  define qs where "qs = (if p = [] then [] else pieces (drop 1 p))"
  define pd where "pd = length (filter is_sep p)"
  have p0: "0 \<notin> set p" unfolding p_def using assms(4,5) canonicalize_path_nonzero by simp
  have q0: "\<forall>q \<in> set qs. 0 \<notin> set q"
    using p0 pieces_facts(2) [of _ "drop 1 p"] by (auto simp: qs_def split: if_splits dest: in_set_dropD)
  have len: "pd \<le> length qs" by (cases p) (simp_all add: pd_def qs_def pieces_facts(1))
  have wf: "vfs_wf ?s" using assms(2) by (simp add: vfs_wf_first)
  obtain j n where j: "get_mount_point qs ?s = Some (n, drop j qs, j)" "j \<le> length qs"
    and n: "\<And>m. n = Some m \<Longrightarrow> good d m"
    using get_mount_point_ok [OF wf q0] g by (fastforce simp: all_good_def)
  have loop: "opened_well good s d (kopen_loop c again fl p pd (drop j qs) j m ?s d)" if "n = Some m" for m
    by (rule kopen_loop_total [OF L p0 assms(6)]) (use len n that g in simp_all)
  obtain e where e: "entry_of s (root_of s) = Some e"
    using vfs_wfD(2) [OF assms(2)] entry_of_wf [OF assms(2)] by blast
  obtain rn where rn: "nodes s (fs_root s) = Some rn"
    using e vfs_wfD(13,16) [OF assms(2)] assms(3) by (fastforce simp: entry_of_def split: bind_splits)
  have "opened_well good s d (Some (r', ?s, d'))" if "open_fs c (Some m) fl d = (r', d')" "good d m" for m r' d'
    using short_linksD(2) [OF L that(2,1)] by (auto simp: opened_well_def)
  moreover have "good d rn" using g rn by (simp add: all_good_def)
  moreover have "opened_well good s d (Some (None, ?s, d))" by (auto simp: opened_well_def keeps_good_refl)
  ultimately show ?thesis using j loop n rn
    by (auto simp: kopen_body_def Let_def p_def [symmetric] qs_def [symmetric] pd_def [symmetric]
        split: option.splits prod.splits)
qed

lemma kopen_recur_total:
  assumes "short_links c good" "vfs_wf s" "fs_root s \<noteq> 0"
  shows "opens_all good s (kopen_recur c n fl)"
proof (induction n arbitrary: fl)
  case 0
  show ?case unfolding opens_all_def kopen_recur.simps
    using kopen_body_total [OF assms, where again = None] by simp
next
  case (Suc n)
  show ?case unfolding opens_all_def kopen_recur.simps
    using kopen_body_total [OF assms, where again = "Some (kopen_recur c n 0)"] Suc by simp
qed


section \<open>Reference counts\<close>

text \<open>A node closed \<open>k\<close> times.\<close>
definition closes :: "'d fs_ops \<Rightarrow> nat \<Rightarrow> fs_node_t option \<times> 'd \<Rightarrow> fs_node_t option \<times> 'd" where
  "closes c k = (\<lambda>(n, d). close_fs c n d) ^^ k"

lemma sint_nonneg: "unat (w :: u32) < 2147483648 \<Longrightarrow> 0 \<le> sint w"
proof -
  assume "unat w < 2147483648"
  moreover have "uint w = int (unat w)" by (rule uint_nat)
  ultimately have "uint w < 2147483648" by linarith
  then have u: "uint w < 2 ^ 31" by simp
  have "- (2 ^ 31) \<le> uint w" by (rule order_trans [of _ 0]) simp_all
  from signed_take_bit_int_eq_self [OF this u] have *: "signed_take_bit 31 (uint w) = uint w" .
  have l: "LENGTH(32) - Suc 0 = 31" by simp
  show ?thesis unfolding sint_uint l * by (rule uint_ge_0)
qed

lemma clones_count:
  "unat (refcount n) + k < 2147483648 \<Longrightarrow> (clone_fs ^^ k) (Some n) = Some (n\<lparr>refcount := refcount n + of_nat k\<rparr>)"
proof (induction k)
  case (Suc k)
  have "unat (of_nat k :: u32) = k" using Suc.prems by (intro unat_of_nat_u32) simp
  then have "unat (refcount n + of_nat k) = unat (refcount n) + k"
    using Suc.prems unat_add_lem [of "refcount n" "of_nat k"] by simp
  then have "0 \<le> sint (refcount n + of_nat k)" using Suc.prems by (intro sint_nonneg) simp
  then show ?case using Suc by (simp add: clone_fs_def take_ref_def ac_simps)
qed simp

lemma close_count:
  assumes "1 < k" "k < 2147483648" "refcount n = of_nat k"
  shows "close_fs c (Some n) d = (Some (n\<lparr>refcount := of_nat (k - 1)\<rparr>), d)"
proof -
  have "unat (of_nat (k + 1) :: u32) = k + 1" "unat (of_nat (k - 1) :: u32) = k - 1"
    using assms(2) by (intro unat_of_nat_u32; simp)+
  moreover have "of_nat (k + 1) = refcount n + 1" using assms(3) by simp
  ultimately have "refcount n \<noteq> - 1" "(of_nat (k - 1) :: u32) \<noteq> 0"
    using assms(1) by (auto simp del: of_nat_diff of_nat_add)
  moreover have "refcount n - 1 = of_nat (k - 1)" using assms(1,3) by simp
  ultimately show ?thesis by (simp add: close_fs_def Let_def del: of_nat_diff)
qed

lemma closes_count:
  assumes "k < 2147483648" "j < k" "refcount n = of_nat k"
  shows "closes c j (Some n, d) = (Some (n\<lparr>refcount := of_nat (k - j)\<rparr>), d)"
  using assms(2)
proof (induction j)
  case (Suc j)
  then show ?case using assms(1) close_count [of "k - j" "n\<lparr>refcount := of_nat (k - j)\<rparr>" c d]
    by (simp add: closes_def del: of_nat_diff)
qed (simp add: closes_def assms(3) [symmetric])

lemma refcount_balance:
  assumes "k = unat (refcount n) + m" "0 < k" "k < 2147483648"
  shows "\<forall>j<k. closes c j ((clone_fs ^^ m) (Some n), d) = (Some (n\<lparr>refcount := of_nat (k - j)\<rparr>), d)"
    "closes c k ((clone_fs ^^ m) (Some n), d) =
       (None, if close_p n \<noteq> 0 then c_close c (close_p n) (n\<lparr>refcount := 0\<rparr>) d else d)"
proof -
  let ?n = "n\<lparr>refcount := of_nat k\<rparr>"
  have "of_nat k = refcount n + of_nat m" by (simp add: assms(1))
  then have n: "(clone_fs ^^ m) (Some n) = Some ?n" using assms(1,3) clones_count [of n m] by simp
  have "closes c j (Some ?n, d) = (Some (n\<lparr>refcount := of_nat (k - j)\<rparr>), d)" if "j < k" for j
    using closes_count [OF assms(3) that, of ?n c d] by (simp del: of_nat_diff)
  then show all: "\<forall>j<k. closes c j ((clone_fs ^^ m) (Some n), d) = (Some (n\<lparr>refcount := of_nat (k - j)\<rparr>), d)"
    unfolding n by blast
  have "closes c k x = (case closes c (k - 1) x of (n, d) \<Rightarrow> close_fs c n d)" for x
    using assms(2) by (cases k) (simp_all add: closes_def)
  moreover have "closes c (k - 1) ((clone_fs ^^ m) (Some n), d) = (Some (n\<lparr>refcount := 1\<rparr>), d)"
    using all [rule_format, of "k - 1"] assms(2) by simp
  ultimately show "closes c k ((clone_fs ^^ m) (Some n), d) =
       (None, if close_p n \<noteq> 0 then c_close c (close_p n) (n\<lparr>refcount := 0\<rparr>) d else d)"
    by (simp add: close_fs_def)
qed

lemma locked_stays: "refcount n = - 1 \<Longrightarrow> closes c k (Some n, d) = (Some n, d)"
  by (induction k) (simp_all add: closes_def close_fs_def)


section \<open>Opening what is mounted\<close>

lemma first_upd: "child (s\<lparr>first := b\<rparr>) = child s" "entry_of (s\<lparr>first := b\<rparr>) = entry_of s" "root_of (s\<lparr>first := b\<rparr>) = root_of s"
  by (simp_all add: fun_eq_iff child_def entry_of_def root_of_def)

lemma first_mounted: "mounted (s\<lparr>first := b\<rparr>) = mounted s"
proof -
  have "node_at (s\<lparr>first := b\<rparr>) n qs m = node_at s n qs m" for n qs m
    by (induction qs arbitrary: n) (simp_all add: node_at_simps first_upd)
  then show ?thesis by (simp add: fun_eq_iff mounted_def first_upd)
qed

lemma mounted_det: "vfs_wf s \<Longrightarrow> mounted s qs f \<Longrightarrow> mounted s qs g \<Longrightarrow> f = g"
  unfolding mounted_def by (metis node_at_det option.inject)

lemma kopen_mounted:
  assumes "vfs_wf s" "canonical p" "mounted s (path_tokens p) f" "nodes s f = Some nd"
  shows "kopen_recur c k fl p wd s d =
     Some (fst (open_fs c (Some nd) fl d), s\<lparr>first := 0\<rparr>, snd (open_fs c (Some nd) fl d))"
proof -
  let ?s = "s\<lparr>first := 0\<rparr>"
  have kr: "kopen_recur c k fl p wd s d =
      kopen_body c (case k of 0 \<Rightarrow> None | Suc k \<Rightarrow> Some (kopen_recur c k 0)) fl p wd s d"
    by (cases k) simp_all
  have can: "(if b then p else canonicalize_path wd p) = p" for b using canonical_fixed [OF assms(2)] by simp
  have m': "mounted ?s = mounted s"
    by (rule first_mounted)
  have wf: "vfs_wf ?s" using assms(1) by (simp add: vfs_wf_first)
  from assms(2) consider "p = [PATH_SEPARATOR]" | cs where "cs \<noteq> []" "\<forall>s \<in> set cs. component s" "p = path_join cs"
    unfolding canonical_def by blast
  then show ?thesis
  proof cases
    case 1
    obtain e where "entry_of s (root_of s) = Some e" "efile e = f"
      using assms(3) 1 by (auto simp: mounted_def node_at_simps)
    then have "fs_root s = f" using vfs_wfD(16) [OF assms(1)] by simp
    then show ?thesis unfolding kr kopen_body_def can
      using assms(4) 1 by (simp add: Let_def split_beta)
  next
    case (2 cs)
    have tok: "path_tokens p = cs" using 2 by (simp add: path_tokens_join component_def)
    have q0: "\<forall>q \<in> set cs. 0 \<notin> set q" using 2(2) by (simp add: component_def)
    have pc: "pieces (drop 1 p) = cs" unfolding 2(3) by (rule pieces_join(1) [OF 2(1,2)])
    have len: "length p \<noteq> 1" "p \<noteq> []" using 2 by (cases cs; auto simp: path_join_def component_def)+
    obtain j r where j: "get_mount_point cs ?s = Some (r, drop j cs, j)" "j \<le> length cs"
      "\<forall>i g. j < i \<and> i \<le> length cs \<longrightarrow> \<not> mounted ?s (take i cs) g"
      "case r of None \<Rightarrow> j = 0 \<and> (\<forall>g. \<not> mounted ?s [] g) | Some n \<Rightarrow> \<exists>g. mounted ?s (take j cs) g \<and> nodes ?s g = Some n"
      using get_mount_point_ok [OF wf q0] by blast
    have jl: "j = length cs" using j(2,3) assms(3) tok m' by (metis le_neq_implies_less order_refl take_all)
    moreover have "g = f" if "mounted s cs g" for g using mounted_det [OF assms(1) that] assms(3) tok by simp
    ultimately have "r = Some nd" using j(4) 2(1) assms(4) m' by (auto split: option.splits)
    then show ?thesis unfolding kr kopen_body_def can
      using j(1) jl len pc by (simp add: Let_def split_beta)
  qed
qed

section \<open>Properties\<close>

text \<open>A virtual file system as it is installed, and with a node that a driver has allocated.\<close>
definition boot_vfs :: vfs where
  "boot_vfs = vfs_install \<lparr>fs_tree = None, th = \<lparr>tmem = Map.empty, tfreed = []\<rparr>, ents = Map.empty,
     nodes = Map.empty, fs_root = 0, fs_types = None, first = 1, next_addr = 1\<rparr>"

definition node_vfs :: vfs where
  "node_vfs = boot_vfs\<lparr>nodes := (nodes boot_vfs)(next_addr boot_vfs \<mapsto> zero_node), next_addr := next_addr boot_vfs + 1\<rparr>"

text \<open>Drivers that have no file and no link.\<close>
definition no_ops :: "unit fs_ops" where
  "no_ops = \<lparr>c_read = \<lambda>_ _ _ _ d. ((0, []), d), c_write = \<lambda>_ _ _ _ _ d. (0, d), c_open = \<lambda>_ n _ d. (n, d),
     c_close = \<lambda>_ _ d. d, c_readdir = \<lambda>_ _ _ d. (None, d), c_finddir = \<lambda>_ _ _ d. (None, d),
     c_create = \<lambda>_ _ _ _ d. d, c_mkdir = \<lambda>_ _ _ _ d. d, c_ioctl = \<lambda>_ _ _ _ d. (- 1, d),
     c_chmod = \<lambda>_ _ _ d. (0, d), c_chown = \<lambda>_ _ _ _ d. (0, d), c_unlink = \<lambda>_ _ _ d. d,
     c_symlink = \<lambda>_ _ _ _ d. d, c_readlink = \<lambda>_ _ _ d. ((- 1, []), d), c_selectcheck = \<lambda>_ _ d. (0, d),
     c_selectwait = \<lambda>_ _ _ d. (0, d), c_mount = \<lambda>_ _ _ d. (None, d)\<rparr>"

lemma node_vfs_reach: "vfs_reach c node_vfs" "next_addr boot_vfs = 3" "nodes node_vfs 3 = Some zero_node"
proof -
  show n: "next_addr boot_vfs = 3"
    by (simp add: boot_vfs_def vfs_install_def Let_def split_beta)
  show "vfs_reach c node_vfs" unfolding node_vfs_def
    by (rule vfs_reach.node) (unfold boot_vfs_def, rule vfs_reach.install, simp_all)
  show "nodes node_vfs 3 = Some zero_node" by (simp add: node_vfs_def n)
qed

lemma canonical_a: "canonical [47, 97]" "path_tokens [47, 97] = [[97]]"
  unfolding canonical_def
  by (auto intro!: exI [of _ "[[97]]"] simp: component_def path_join_def PATH_SEPARATOR_def PATH_UP_def PATH_DOT_def path_tokens.simps)

text \<open>
  C1.  Mounting refines an update of a table from sequences of names to file systems: for a
  canonical path \<^verbatim>\<open>vfs_mount\<close> returns, keeps the tree well-formed, and afterwards the file system
  is what is mounted under the components of the path, while everything mounted elsewhere stays;
  the only change to the nodes is that the mounted root is locked with reference count \<open>-1\<close>.
\<close>
theorem vfs_mount_updates_table:
  assumes "vfs_wf s" "canonical p" "nodes s f = Some nd" "f \<noteq> 0"
  shows "\<exists>n s'. vfs_mount p f s = Some (n, s') \<and> vfs_wf s' \<and>
     (\<forall>qs g. mounted s' qs g \<longleftrightarrow> (if qs = path_tokens p then g = f else mounted s qs g)) \<and>
     nodes s' = (nodes s)(f \<mapsto> nd\<lparr>refcount := - 1\<rparr>)"
  by (rule vfs_mount_ok [OF assms])

theorem vfs_mount_updates_table_witness:
  "\<exists>n s'. vfs_mount [47, 97] 3 node_vfs = Some (n, s') \<and> mounted s' [[97]] 3 \<and> \<not> mounted s' [[97]] 1"
  using vfs_mount_updates_table [OF vfs_reach_wf [OF node_vfs_reach(1)] canonical_a(1) node_vfs_reach(3)]
  by (auto simp: canonical_a(2))

text \<open>
  C8.  Looking a path up finds the longest mounted prefix: \<^verbatim>\<open>get_mount_point\<close> returns a copy of the
  file system mounted under the first \<open>j\<close> names, with the other names and the depth \<open>j\<close>, where no
  longer prefix has anything mounted; only when nothing is mounted at the root either does it
  return the null pointer.
\<close>
theorem get_mount_point_longest:
  assumes "vfs_wf s" "\<forall>q \<in> set qs. 0 \<notin> set q"
  shows "\<exists>j r. get_mount_point qs s = Some (r, drop j qs, j) \<and> j \<le> length qs \<and>
     (\<forall>i g. j < i \<and> i \<le> length qs \<longrightarrow> \<not> mounted s (take i qs) g) \<and>
     (case r of None \<Rightarrow> j = 0 \<and> (\<forall>g. \<not> mounted s [] g)
      | Some n \<Rightarrow> \<exists>g. mounted s (take j qs) g \<and> nodes s g = Some n)"
  by (rule get_mount_point_ok [OF assms])

theorem get_mount_point_longest_witness:
  "\<exists>j r. get_mount_point [[97], [98]] node_vfs = Some (r, drop j [[97], [98]], j) \<and> j \<le> 2"
  using get_mount_point_longest [OF vfs_reach_wf [OF node_vfs_reach(1)], of "[[97], [98]]"] by auto

text \<open>
  C38.  A file system that has been mounted is what opening its mount point opens: from any
  working directory, with any flags and at any link depth, \<^verbatim>\<open>kopen_recur\<close> on a canonical path passes
  the node mounted there to \<^verbatim>\<open>open_fs\<close>, without asking any driver for a directory entry.
\<close>
theorem kopen_opens_mounted:
  assumes "vfs_wf s" "canonical p" "nodes s f = Some nd" "f \<noteq> 0"
  shows "\<exists>n s'. vfs_mount p f s = Some (n, s') \<and>
     (\<forall>k wd. kopen_recur c k fl p wd s' d =
       Some (fst (open_fs c (Some (vfs_lock nd)) fl d), s'\<lparr>first := 0\<rparr>, snd (open_fs c (Some (vfs_lock nd)) fl d)))"
proof -
  obtain n s' where m: "vfs_mount p f s = Some (n, s')" "vfs_wf s'"
    "\<And>qs g. mounted s' qs g \<longleftrightarrow> (if qs = path_tokens p then g = f else mounted s qs g)"
    "nodes s' = (nodes s)(f \<mapsto> nd\<lparr>refcount := - 1\<rparr>)"
    using vfs_mount_ok [OF assms] by blast
  have "mounted s' (path_tokens p) f" "nodes s' f = Some (vfs_lock nd)"
    using m(3,4) by (simp_all add: vfs_lock_def)
  from kopen_mounted [OF m(2) assms(2) this] m(1) show ?thesis by auto
qed

theorem kopen_opens_mounted_witness:
  "\<exists>n s'. vfs_mount [47, 97] 3 node_vfs = Some (n, s') \<and>
     kopen2 no_ops [47] [47, 97] 0 s' () = Some (Some (vfs_lock zero_node), s'\<lparr>first := 0\<rparr>, ())"
  using kopen_opens_mounted [OF vfs_reach_wf [OF node_vfs_reach(1)] canonical_a(1) node_vfs_reach(3)]
  by (fastforce simp: kopen2_def open_fs_def vfs_lock_def take_ref_def zero_node_def)

text \<open>
  C15.  In every state that the virtual file system reaches, by installing, registering, mounting
  and opening, the mount tree is well-formed: no operation leaves a dangling node, a duplicate
  name or two parents; so mounting at a canonical path and looking up never fault.
\<close>
theorem reachable_vfs_wf:
  assumes "vfs_reach c s"
  shows "vfs_wf s \<and> (\<forall>p f. canonical p \<longrightarrow> f \<in> dom (nodes s) - {0} \<longrightarrow> vfs_mount p f s \<noteq> None) \<and>
     (\<forall>qs. (\<forall>q \<in> set qs. 0 \<notin> set q) \<longrightarrow> get_mount_point qs s \<noteq> None)"
proof (intro conjI allI impI)
  show wf: "vfs_wf s" by (rule vfs_reach_wf [OF assms])
  show "vfs_mount p f s \<noteq> None" if "canonical p" "f \<in> dom (nodes s) - {0}" for p f
    using vfs_mount_ok [OF wf that(1)] that(2) by fastforce
  show "get_mount_point qs s \<noteq> None" if "\<forall>q \<in> set qs. 0 \<notin> set q" for qs
    using get_mount_point_ok [OF wf that] by auto
qed

theorem reachable_vfs_wf_witness:
  "vfs_reach no_ops node_vfs \<and> vfs_wf node_vfs \<and> vfs_mount [47, 97] 3 node_vfs \<noteq> None"
proof -
  have "3 \<in> dom (nodes node_vfs) - {0}" using node_vfs_reach(3) by auto
  with reachable_vfs_wf [OF node_vfs_reach(1) [of no_ops]] node_vfs_reach(1) [of no_ops] canonical_a(1)
  show ?thesis by blast
qed

text \<open>
  C12.  Opening a path returns: once a root is mounted, \<^verbatim>\<open>kopen2\<close> never faults and never follows
  links for ever, on every path and through every tree of links, cyclic ones included, in which
  the links are shorter than the buffer for their targets; and it changes nothing but the flag
  of the first call.
\<close>
theorem kopen2_returns:
  assumes "vfs_wf s" "fs_root s \<noteq> 0" "short_links c good" "all_good good s d" "0 \<notin> set wd" "0 \<notin> set file"
  shows "\<exists>x d'. kopen2 c wd file fl s d = Some (x, s\<lparr>first := 0\<rparr>, d')"
proof -
  have "opened_well good s d (kopen2 c wd file fl (s\<lparr>first := first s\<rparr>) d)"
    using kopen_recur_total [OF assms(3,1,2)] assms(4-6) unfolding opens_all_def kopen2_def by blast
  then show ?thesis by (auto simp: opened_well_def)
qed

lemma node_vfs_root: "\<exists>n s'. vfs_mount [47] 3 node_vfs = Some (n, s') \<and> vfs_wf s' \<and> fs_root s' \<noteq> 0"
proof -
  have can: "canonical [47]" "path_tokens [47] = []"
    by (simp_all add: canonical_def PATH_SEPARATOR_def path_tokens.simps)
  obtain n s' where m: "vfs_mount [47] 3 node_vfs = Some (n, s')" "vfs_wf s'" "mounted s' [] 3"
    using vfs_mount_ok [OF vfs_reach_wf [OF node_vfs_reach(1)] can(1) node_vfs_reach(3)] can(2) by auto
  then have "fs_root s' \<noteq> 0" using vfs_wfD(16) [OF m(2)] by (auto simp: mounted_def node_at_simps)
  then show ?thesis using m by blast
qed

text \<open>A driver in which every name is a link to \<^verbatim>\<open>/a\<close>, and a root directory that it serves.\<close>
definition link_ops :: "unit fs_ops" where
  "link_ops = no_ops\<lparr>c_finddir := (\<lambda>_ n _ d. (Some (n\<lparr>flags := FS_SYMLINK, readlink_p := 1\<rparr>), d)),
     c_readlink := (\<lambda>_ _ _ d. ((2, [47, 97, 0]), d))\<rparr>"

lemma link_ops_short: "short_links link_ops (\<lambda>_ _. True)"
  by (auto simp: short_links_def keeps_good_def readlink_fs_def link_ops_def)

theorem kopen2_returns_witness:
  "\<exists>n s' x. vfs_mount [47] 3 node_vfs = Some (n, s') \<and> kopen2 link_ops [47] [47, 97] 0 s' () = Some (x, s'\<lparr>first := 0\<rparr>, ())"
proof -
  obtain n s' where s': "vfs_mount [47] 3 node_vfs = Some (n, s')" "vfs_wf s'" "fs_root s' \<noteq> 0"
    using node_vfs_root by blast
  have "all_good (\<lambda>_ _. True) s' ()" by (simp add: all_good_def)
  from kopen2_returns [OF s'(2,3) link_ops_short this, of "[47]" "[47, 97]" 0] s'(1) show ?thesis by auto
qed

text \<open>
  C14.  References balance: a node whose count is \<open>r\<close>, after \<open>m\<close> more references, survives
  \<open>r + m - 1\<close> calls of \<^verbatim>\<open>close_fs\<close>, each taking one off the count and none calling the driver; the
  next call hands the node to the driver's \<^verbatim>\<open>close\<close> and frees it.  A locked node survives any number.
\<close>
theorem close_fs_balances:
  assumes "k = unat (refcount n) + m" "0 < k" "k < 2147483648"
  shows "(\<forall>j<k. closes c j ((clone_fs ^^ m) (Some n), d) = (Some (n\<lparr>refcount := of_nat (k - j)\<rparr>), d)) \<and>
    closes c k ((clone_fs ^^ m) (Some n), d) =
       (None, if close_p n \<noteq> 0 then c_close c (close_p n) (n\<lparr>refcount := 0\<rparr>) d else d) \<and>
    closes c j (Some (vfs_lock n), d) = (Some (vfs_lock n), d)"
proof (intro conjI)
  show "closes c j (Some (vfs_lock n), d) = (Some (vfs_lock n), d)" by (rule locked_stays) (simp add: vfs_lock_def)
qed (rule refcount_balance [OF assms])+

theorem close_fs_balances_witness:
  "closes no_ops 2 ((clone_fs ^^ 2) (Some zero_node), ()) = (None, ())"
  using close_fs_balances [of 2 zero_node 2 no_ops "()" 0] by (simp add: zero_node_def)

end
