(* ===== verification/Clock.thy ===== *)
theory Clock
  imports Prelude "HOL-Library.Signed_Division"
begin

text \<open>
  Time: the real-time clock of \<^verbatim>\<open>kernel/src/cmos.c\<close>, the tick counter of \<^verbatim>\<open>kernel/src/dev/timer.c\<close> and the
  calendar of \<^verbatim>\<open>kernel/src/localtime.c\<close>.

  A dump of the clock registers is a list of 128 values.  \<^verbatim>\<open>read_cmos\<close> takes the dumps that the
  device gives one after the other, each made once no update is in progress; \<open>None\<close> means that
  it still waits at the end of the list.  The fields that \<^verbatim>\<open>localtime_r\<close> has already set when it
  returns the null pointer are not part of its result.  A \<^verbatim>\<open>long\<close> has 32 bits: a sum that does not fit is
  undefined and has no result.  Division and remainder are those of C.
\<close>

section \<open>The clock registers\<close>

definition from_bcd :: "u16 \<Rightarrow> int" where
  "from_bcd v = uint (v div 16) * 10 + uint (and v 0xf)"

definition CMOS_SECOND :: nat where "CMOS_SECOND = 0"
definition CMOS_MINUTE :: nat where "CMOS_MINUTE = 2"
definition CMOS_HOUR :: nat where "CMOS_HOUR = 4"
definition CMOS_DAY :: nat where "CMOS_DAY = 7"
definition CMOS_MONTH :: nat where "CMOS_MONTH = 8"
definition CMOS_YEAR :: nat where "CMOS_YEAR = 9"

definition get_date :: "u16 list \<Rightarrow> u16 \<times> u16" where
  "get_date values' = (of_int (from_bcd (values' ! CMOS_MONTH)), of_int (from_bcd (values' ! CMOS_DAY)))"

definition get_time :: "u16 list \<Rightarrow> u16 \<times> u16 \<times> u16" where
  "get_time values' =
     (of_int (from_bcd (values' ! CMOS_HOUR)), of_int (from_bcd (values' ! CMOS_MINUTE)),
      of_int (from_bcd (values' ! CMOS_SECOND)))"

text \<open>The loop of \<^verbatim>\<open>secs_of_years\<close>: the days of the years from \<open>years\<close> down to 1970.\<close>
function years_days :: "int \<Rightarrow> u32" where
  "years_days years =
     (if years > 1969
      then 365 + (if years mod 4 = 0 then (if years mod 100 = 0 then (if years mod 400 = 0 then 1 else 0) else 1)
                  else 0) + years_days (years - 1)
      else 0)"
  by pat_completeness auto
termination by (relation "measure (\<lambda>y. nat (y - 1969))") auto

declare years_days.simps [simp del]

definition secs_of_years :: "int \<Rightarrow> u32" where
  "secs_of_years years = years_days (years + 2000) * 86400"

text \<open>The cases fall through: month \<open>n\<close> adds the days of all months before it as well.\<close>
definition secs_of_month :: "int \<Rightarrow> int \<Rightarrow> u32" where
  "secs_of_month months year =
     (let year = year + 2000;
          days = (if months = 11 then 30 else 0);
          days = days + (if 10 \<le> months \<and> months \<le> 11 then 31 else 0);
          days = days + (if 9 \<le> months \<and> months \<le> 11 then 30 else 0);
          days = days + (if 8 \<le> months \<and> months \<le> 11 then 31 else 0);
          days = days + (if 7 \<le> months \<and> months \<le> 11 then 31 else 0);
          days = days + (if 6 \<le> months \<and> months \<le> 11 then 30 else 0);
          days = days + (if 5 \<le> months \<and> months \<le> 11 then 31 else 0);
          days = days + (if 4 \<le> months \<and> months \<le> 11 then 30 else 0);
          days = days + (if 3 \<le> months \<and> months \<le> 11 then 31 else 0);
          days = days + (if 2 \<le> months \<and> months \<le> 11
                         then 28 + (if year mod 4 = 0 \<and> (year mod 100 \<noteq> 0 \<or> year mod 400 = 0) then 1 else 0) else 0);
          days = days + (if 1 \<le> months \<and> months \<le> 11 then 31 else 0)
      in days * 86400)"

text \<open>The six registers that two dumps must agree on.\<close>
definition same_time :: "u16 list \<Rightarrow> u16 list \<Rightarrow> bool" where
  "same_time old values' \<longleftrightarrow>
     old ! CMOS_SECOND = values' ! CMOS_SECOND \<and> old ! CMOS_MINUTE = values' ! CMOS_MINUTE \<and>
     old ! CMOS_HOUR = values' ! CMOS_HOUR \<and> old ! CMOS_DAY = values' ! CMOS_DAY \<and>
     old ! CMOS_MONTH = values' ! CMOS_MONTH \<and> old ! CMOS_YEAR = values' ! CMOS_YEAR"

fun stable_dump :: "u16 list \<Rightarrow> u16 list list \<Rightarrow> u16 list option" where
  "stable_dump values' [] = None"
| "stable_dump old (values' # dumps) = (if same_time old values' then Some values' else stable_dump values' dumps)"

definition cmos_seconds :: "u16 list \<Rightarrow> u32" where
  "cmos_seconds values' =
     secs_of_years (from_bcd (values' ! CMOS_YEAR) - 1) +
     secs_of_month (from_bcd (values' ! CMOS_MONTH) - 1) (from_bcd (values' ! CMOS_YEAR)) +
     of_int ((from_bcd (values' ! CMOS_DAY) - 1) * 86400) +
     of_int (from_bcd (values' ! CMOS_HOUR) * 3600) +
     of_int (from_bcd (values' ! CMOS_MINUTE) * 60) +
     of_int (from_bcd (values' ! CMOS_SECOND)) + 0"

definition read_cmos :: "u16 list list \<Rightarrow> u32 option" where
  "read_cmos dumps = (case dumps of [] \<Rightarrow> None | d # ds \<Rightarrow> map_option cmos_seconds (stable_dump d ds))"

section \<open>Ticks\<close>

record clock =
  boot_time :: u32
  timerticks :: u32
  timer_subticks :: u32
  timer_drift :: u32
  drift' :: u32
  behind :: bool
  time_to_run :: int
  task_switching :: int

definition SUBTICKS_PER_TICK :: u32 where "SUBTICKS_PER_TICK = 1000"
definition RESYNC_TIME :: u32 where "RESYNC_TIME = 1"

definition sys_get_system_time :: "clock \<Rightarrow> u32" where "sys_get_system_time c = timerticks c div 100"
definition uptime :: "clock \<Rightarrow> u32" where "uptime c = timerticks c div 100"
definition gettickcount :: "clock \<Rightarrow> u32" where "gettickcount c = timerticks c"

text \<open>The first increment decides alone, the second runs only while the clock is behind.\<close>
definition subtick :: "clock \<Rightarrow> bool \<times> clock" where
  "subtick c =
     (let c = c\<lparr>timer_subticks := timer_subticks c + 1\<rparr>
      in if timer_subticks c = SUBTICKS_PER_TICK then (True, c)
         else if behind c
         then let c = c\<lparr>timer_subticks := timer_subticks c + 1\<rparr>
              in (timer_subticks c = SUBTICKS_PER_TICK, c)
         else (False, c))"

definition timer_handle :: "u16 list list \<Rightarrow> clock \<Rightarrow> clock option" where
  "timer_handle dumps c =
     do { let c = c\<lparr>timerticks := timerticks c + 1\<rparr>;
          let (full, c) = subtick c;
          c \<leftarrow> (if full
                then do { let c = c\<lparr>timer_subticks := 0\<rparr>;
                          if timerticks c mod RESYNC_TIME = 0
                          then do { new_time \<leftarrow> read_cmos dumps;
                                    let d = new_time - boot_time c - timerticks c;
                                    Some (c\<lparr>drift' := d, behind := (sint d > 0)\<rparr>) }
                          else Some c }
                else Some c);
          Some (if time_to_run c > 0 then c\<lparr>time_to_run := time_to_run c - 1, task_switching := 0\<rparr>
                else c\<lparr>task_switching := 1\<rparr>) }"

definition relative_time :: "u32 \<Rightarrow> u32 \<Rightarrow> clock \<Rightarrow> u32 \<times> u32" where
  "relative_time seconds subseconds c =
     (if subseconds + timer_subticks c > SUBTICKS_PER_TICK
      then (timerticks c + seconds + 1, (subseconds + timer_subticks c) - SUBTICKS_PER_TICK)
      else (timerticks c + seconds, timer_subticks c + subseconds))"

definition gettimeofday :: "clock \<Rightarrow> u32 \<times> u32" where
  "gettimeofday c = (boot_time c + timerticks c + timer_drift c, timer_subticks c * 1000)"

definition now :: "clock \<Rightarrow> u32" where
  "now c = fst (gettimeofday c)"

section \<open>The calendar\<close>

definition SEC_DAY :: int where "SEC_DAY = 86400"

definition year_is_leap :: "int \<Rightarrow> bool" where
  "year_is_leap year \<longleftrightarrow> year smod 4 = 0 \<and> (year smod 100 \<noteq> 0 \<or> year smod 400 = 0)"

definition day_of_week :: "int \<Rightarrow> int" where
  "day_of_week seconds = (seconds sdiv SEC_DAY + 4) smod 7"

text \<open>There is no case for month 12.\<close>
definition days_in_month :: "int \<Rightarrow> int \<Rightarrow> int" where
  "days_in_month month year =
     (if month = 11 then 30 else if month = 10 then 31 else if month = 9 then 30
      else if month = 8 then 31 else if month = 7 then 31 else if month = 6 then 30
      else if month = 5 then 31 else if month = 4 then 30 else if month = 3 then 31
      else if month = 2 then (if year_is_leap year then 29 else 28)
      else if month = 1 then 31 else 0)"

text \<open>The loop adds the days of the last month each time.\<close>
definition secs_of_month_l :: "int \<Rightarrow> int \<Rightarrow> int" where
  "secs_of_month_l months year = sum_list (map (\<lambda>i. days_in_month months year) [1..months - 1]) * SEC_DAY"

record tm =
  tm_sec :: int
  tm_min :: int
  tm_hour :: int
  tm_mday :: int
  tm_mon :: int
  tm_year :: int
  tm_wday :: int
  tm_yday :: int
  tm_isdst :: int

definition add_long :: "int \<Rightarrow> int \<Rightarrow> int option" where
  "add_long a b = (if - (2 ^ 31) \<le> a + b \<and> a + b < 2 ^ 31 then Some (a + b) else None)"

text \<open>
  The loop that each level of \<^verbatim>\<open>localtime_r\<close> is: it adds the lengths of the intervals until the end
  of one reaches the limit, and goes on to the next level inside that one.  Running out of
  intervals returns the null pointer, the inner \<open>None\<close>.
\<close>
fun seek :: "int \<Rightarrow> (int \<Rightarrow> int) \<Rightarrow> (int \<Rightarrow> int \<Rightarrow> 'r option option) \<Rightarrow> int list \<Rightarrow> int \<Rightarrow> 'r option option" where
  "seek limit len inside [] seconds = Some None"
| "seek limit len inside (i # is) seconds =
     do { e \<leftarrow> add_long seconds (len i);
          if e \<ge> limit then inside i seconds else seek limit len inside is e }"

definition localtime_r :: "int \<Rightarrow> tm option option" where
  "localtime_r timep =
     do { limit \<leftarrow> add_long timep 1;
          seek limit (\<lambda>year. (if year_is_leap year then 366 else 365) * 86400)
            (\<lambda>year year_sec. seek timep (\<lambda>month. days_in_month month year * SEC_DAY)
               (\<lambda>month. seek timep (\<lambda>day. 60 * 60 * 24)
                  (\<lambda>day. seek timep (\<lambda>hour. 60 * 60)
                     (\<lambda>hour seconds.
                        let remaining = timep - seconds
                        in Some (Some \<lparr>tm_sec = remaining smod 60, tm_min = remaining sdiv 60,
                             tm_hour = hour - 1, tm_mday = day, tm_mon = month - 1,
                             tm_year = year - 1900, tm_wday = day_of_week timep,
                             tm_yday = (timep - year_sec) sdiv SEC_DAY, tm_isdst = 0\<rparr>))
                     [1..24])
                  [1..days_in_month month year])
               [1..12] year_sec)
            [1970..2099] 0 }"

text \<open>\<^verbatim>\<open>secs_of_years\<close> of this file differs from that of \<^verbatim>\<open>cmos.c\<close> in its leap year test only.\<close>
function years_days_l :: "int \<Rightarrow> u32" where
  "years_days_l years =
     (if years > 1969 then 365 + (if year_is_leap years then 1 else 0) + years_days_l (years - 1) else 0)"
  by pat_completeness auto
termination by (relation "measure (\<lambda>y. nat (y - 1969))") auto

declare years_days_l.simps [simp del]

definition secs_of_years_l :: "int \<Rightarrow> u32" where
  "secs_of_years_l years = years_days_l (years + 2000) * 86400"

definition mktime :: "tm \<Rightarrow> u32" where
  "mktime t =
     secs_of_years_l (tm_year t + 1900) + of_int (secs_of_month_l (tm_mon t) (tm_year t + 1900)) +
     of_int ((tm_mday t - 1) * 86400) + of_int (tm_hour t * 3600) + of_int (tm_min t * 60) + of_int (tm_sec t)"

definition gmtime_r :: "int \<Rightarrow> tm option option" where "gmtime_r = localtime_r"
definition localtime :: "int \<Rightarrow> tm option option" where "localtime = localtime_r"
definition gmtime :: "int \<Rightarrow> tm option option" where "gmtime = localtime"


section \<open>What the calendar means\<close>

definition leap :: "int \<Rightarrow> bool" where
  "leap y \<longleftrightarrow> 4 dvd y \<and> (\<not> 100 dvd y \<or> 400 dvd y)"

definition year_length :: "int \<Rightarrow> int" where
  "year_length y = (if leap y then 366 else 365)"

definition month_length :: "int \<Rightarrow> int \<Rightarrow> int" where
  "month_length y m =
     [31, if leap y then 29 else 28, 31, 30, 31, 30, 31, 31, 30, 31, 30, 31] ! nat (m - 1)"

definition days_before_year :: "int \<Rightarrow> int" where
  "days_before_year y = sum_list (map year_length [1970..y - 1])"

definition days_before_month :: "int \<Rightarrow> int \<Rightarrow> int" where
  "days_before_month y m = sum_list (map (month_length y) [1..m - 1])"

text \<open>The seconds from the start of 1970 to a date and time.\<close>
definition civil_seconds :: "int \<Rightarrow> int \<Rightarrow> int \<Rightarrow> int \<Rightarrow> int \<Rightarrow> int \<Rightarrow> int" where
  "civil_seconds y mo d h mi s =
     86400 * (days_before_year y + days_before_month y mo + (d - 1)) + 3600 * h + 60 * mi + s"

definition valid_date :: "int \<Rightarrow> int \<Rightarrow> int \<Rightarrow> int \<Rightarrow> int \<Rightarrow> int \<Rightarrow> bool" where
  "valid_date y mo d h mi s \<longleftrightarrow> 1970 \<le> y \<and> 1 \<le> mo \<and> mo \<le> 12 \<and> 1 \<le> d \<and> d \<le> month_length y mo \<and>
     0 \<le> h \<and> h < 24 \<and> 0 \<le> mi \<and> mi < 60 \<and> 0 \<le> s \<and> s < 60"

lemma smod_nonneg: "0 \<le> a \<Longrightarrow> 0 < b \<Longrightarrow> (a :: int) smod b = a mod b" "0 \<le> a \<Longrightarrow> 0 < b \<Longrightarrow> (a :: int) sdiv b = a div b"
  by (simp_all add: signed_modulo_int_def signed_divide_int_def sgn_if)

lemma year_is_leap_eq: "0 \<le> y \<Longrightarrow> year_is_leap y = leap y"
  by (simp add: year_is_leap_def leap_def smod_nonneg dvd_eq_mod_eq_0)

lemma months_12:
  assumes "1 \<le> m" "m \<le> (12 :: int)"
  obtains "m = 1" | "m = 2" | "m = 3" | "m = 4" | "m = 5" | "m = 6" | "m = 7" | "m = 8" | "m = 9" | "m = 10"
    | "m = 11" | "m = 12"
proof -
  have "m \<in> set [1..12]" using assms by simp
  also have "[1..12 :: int] = [1, 2, 3, 4, 5, 6, 7, 8, 9, 10, 11, 12]" by (simp add: upto.simps)
  finally show ?thesis using that by auto
qed

lemma days_in_month_eq: "0 \<le> y \<Longrightarrow> 1 \<le> m \<Longrightarrow> m \<le> 11 \<Longrightarrow> days_in_month m y = month_length y m"
  by (rule months_12 [of m]) (simp_all add: days_in_month_def month_length_def year_is_leap_eq)

lemma month_length_bounds: "1 \<le> m \<Longrightarrow> m \<le> 12 \<Longrightarrow> 28 \<le> month_length y m \<and> month_length y m \<le> 31"
  by (rule months_12 [of m]) (simp_all add: month_length_def)

lemma days_before_month_Suc: "1 \<le> m \<Longrightarrow> days_before_month y (m + 1) = days_before_month y m + month_length y m"
  by (simp add: days_before_month_def upto_rec2)

lemma days_before_month_vals:
  "days_before_month y 1 = 0" "days_before_month y 2 = 31"
  "days_before_month y 3 = 31 + month_length y 2" "days_before_month y 4 = 62 + month_length y 2"
  "days_before_month y 5 = 92 + month_length y 2" "days_before_month y 6 = 123 + month_length y 2"
  "days_before_month y 7 = 153 + month_length y 2" "days_before_month y 8 = 184 + month_length y 2"
  "days_before_month y 9 = 215 + month_length y 2" "days_before_month y 10 = 245 + month_length y 2"
  "days_before_month y 11 = 276 + month_length y 2" "days_before_month y 12 = 306 + month_length y 2"
  by (simp_all add: days_before_month_def upto.simps month_length_def)

lemma days_in_year:
  assumes "1 \<le> m" "m \<le> 12"
  shows "days_before_month y m + month_length y m \<le> year_length y"
  using assms by (rule months_12) (simp_all add: days_before_month_vals, simp_all add: month_length_def year_length_def)

lemma days_before_month_nonneg: "1 \<le> m \<Longrightarrow> m \<le> 12 \<Longrightarrow> 0 \<le> days_before_month y m"
  by (rule months_12 [of m]) (simp_all add: days_before_month_vals, simp_all add: month_length_def)

lemma days_before_year_Suc: "1970 \<le> y \<Longrightarrow> days_before_year (y + 1) = days_before_year y + year_length y"
  by (simp add: days_before_year_def upto_rec2)

lemma days_before_year_bounds:
  assumes "1970 \<le> y"
  shows "365 * (y - 1970) \<le> days_before_year y \<and> days_before_year y \<le> 366 * (y - 1970)"
  using assms
proof (induction y rule: int_ge_induct)
  case base
  then show ?case by (simp add: days_before_year_def)
next
  case (step y)
  then show ?case by (simp add: days_before_year_Suc year_length_def)
qed

section \<open>Searching\<close>

lemma seek_hit:
  assumes "is = ys @ i # zs" "\<forall>j \<in> set ys. 0 \<le> len j" "0 \<le> seconds" "seconds + sum_list (map len ys) < limit"
    "limit \<le> seconds + sum_list (map len ys) + len i" "seconds + sum_list (map len ys) + len i < 2 ^ 31"
  shows "seek limit len inside is seconds = inside i (seconds + sum_list (map len ys))"
  using assms
proof (induction ys arbitrary: "is" seconds)
  case Nil
  then show ?case by (simp add: add_long_def)
next
  case (Cons j ys)
  have 0: "0 \<le> sum_list (map len ys)" using Cons.prems(2) by (induction ys) auto
  have "seek limit len inside (ys @ i # zs) (seconds + len j) = inside i (seconds + len j + sum_list (map len ys))"
    by (rule Cons.IH) (use Cons.prems in auto)
  then show ?case using Cons.prems 0 by (simp add: add_long_def algebra_simps)
qed

lemma seek_miss:
  assumes "\<forall>j \<in> set is. 0 \<le> len j" "0 \<le> seconds" "seconds + sum_list (map len is) < limit" "limit < 2 ^ 31"
  shows "seek limit len inside is seconds = Some None"
  using assms
proof (induction "is" arbitrary: seconds)
  case (Cons j "is")
  have "0 \<le> sum_list (map len is)" using Cons.prems(1) by (induction "is") auto
  then show ?case using Cons.prems Cons.IH [of "seconds + len j"] by (simp add: add_long_def algebra_simps)
qed simp

lemma sum_const: "sum_list (map (\<lambda>i. c) [1..n]) = (c :: int) * max 0 n"
proof (cases "0 \<le> n")
  case True
  then show ?thesis
  proof (induction n rule: int_ge_induct)
    case (step n)
    then show ?case by (simp add: upto_rec2 algebra_simps)
  qed simp
qed simp

lemma sum_days_in_month:
  assumes "0 \<le> y" "m \<le> 11"
  shows "sum_list (map (\<lambda>m. days_in_month m y * SEC_DAY) [1..m]) = 86400 * sum_list (map (month_length y) [1..m])"
proof -
  have "map (\<lambda>m. days_in_month m y * SEC_DAY) [1..m] = map (\<lambda>x. 86400 * x) (map (month_length y) [1..m])"
    using assms by (auto simp: days_in_month_eq SEC_DAY_def)
  then show ?thesis by (simp only: sum_list_const_mult) simp
qed

lemma sum_years:
  "sum_list (map (\<lambda>y. (if year_is_leap y then 366 else 365) * 86400 :: int) [1970..y]) = 86400 * sum_list (map year_length [1970..y])"
proof -
  have "map (\<lambda>y. (if year_is_leap y then 366 else 365) * 86400 :: int) [1970..y] = map (\<lambda>x. 86400 * x) (map year_length [1970..y])"
    by (auto simp: year_is_leap_eq year_length_def)
  then show ?thesis by (simp only: sum_list_const_mult) simp
qed

section \<open>Calendar fields\<close>

lemma day_seconds:
  assumes "valid_date y mo d h mi s"
  shows "0 \<le> 3600 * h + 60 * mi + s" "3600 * h + 60 * mi + s < 86400" "0 \<le> 60 * mi + s" "60 * mi + s < 3600"
  using assms by (auto simp: valid_date_def)

lemma civil_bounds:
  assumes "valid_date y mo d h mi s" "y \<le> 2036"
  shows "86400 * days_before_year y \<le> civil_seconds y mo d h mi s"
    "civil_seconds y mo d h mi s < 86400 * (days_before_year y + year_length y)"
    "86400 * (days_before_year y + year_length y) < 2 ^ 31" "0 \<le> days_before_year y"
proof -
  have v: "1970 \<le> y" "1 \<le> mo" "mo \<le> 12" "1 \<le> d" "d \<le> month_length y mo" using assms(1) by (simp_all add: valid_date_def)
  show "86400 * days_before_year y \<le> civil_seconds y mo d h mi s"
    using days_before_month_nonneg [OF v(2,3), of y] v(4) day_seconds [OF assms(1)] by (simp add: civil_seconds_def)
  show "civil_seconds y mo d h mi s < 86400 * (days_before_year y + year_length y)"
    using days_in_year [OF v(2,3), of y] v(5) day_seconds [OF assms(1)] by (simp add: civil_seconds_def)
  have "days_before_year (y + 1) \<le> 366 * (y + 1 - 1970)" using days_before_year_bounds [of "y + 1"] v(1) by simp
  then have "days_before_year y + year_length y \<le> 366 * 67" using days_before_year_Suc [OF v(1)] assms(2) by simp
  then show "86400 * (days_before_year y + year_length y) < 2 ^ 31" by simp
  show "0 \<le> days_before_year y" using days_before_year_bounds [OF v(1)] v(1) by simp
qed

lemma seek_year:
  assumes "valid_date y mo d h mi s" "y \<le> 2036"
  shows "seek (civil_seconds y mo d h mi s + 1) (\<lambda>year. (if year_is_leap year then 366 else 365) * 86400) inside [1970..2099] 0 =
    inside y (86400 * days_before_year y)"
proof -
  have v: "1970 \<le> y" using assms(1) by (simp add: valid_date_def)
  have l: "(if year_is_leap y then 366 else 365) * 86400 = 86400 * year_length y"
    using v by (simp add: year_is_leap_eq year_length_def)
  have sp: "[1970..2099] = [1970..y - 1] @ y # [y + 1..2099]" using v assms(2) by (intro upto_split3) simp_all
  note b = civil_bounds [OF assms]
  show ?thesis
    by (subst seek_hit [OF sp], unfold sum_years l days_before_year_def [symmetric]) (use b in simp_all)
qed

lemma seek_month:
  assumes "valid_date y mo d h mi s" "mo \<le> 11" "y \<le> 2036" "0 < 3600 * h + 60 * mi + s"
  shows "seek (civil_seconds y mo d h mi s) (\<lambda>month. days_in_month month y * SEC_DAY) inside [1..12] (86400 * days_before_year y) =
    inside mo (86400 * (days_before_year y + days_before_month y mo))"
proof -
  have v: "0 \<le> y" "1 \<le> mo" "mo \<le> 12" "1 \<le> d" "d \<le> month_length y mo" "1970 \<le> y" using assms(1) by (simp_all add: valid_date_def)
  have sp: "[1..12] = [1..mo - 1] @ mo # [mo + 1..12]" using v by (intro upto_split3) simp_all
  have l: "days_in_month mo y * SEC_DAY = 86400 * month_length y mo"
    using v assms(2) by (simp add: days_in_month_eq SEC_DAY_def)
  have m: "sum_list (map (\<lambda>month. days_in_month month y * SEC_DAY) [1..mo - 1]) = 86400 * days_before_month y mo"
    unfolding days_before_month_def using v assms(2) by (intro sum_days_in_month) simp_all
  note b = civil_bounds [OF assms(1,3)]
  have "days_before_month y mo + month_length y mo \<le> year_length y" by (rule days_in_year [OF v(2,3)])
  then show ?thesis using b v day_seconds [OF assms(1)] assms(4)
    by (subst seek_hit [OF sp], unfold m l) (auto simp: civil_seconds_def days_in_month_def SEC_DAY_def)
qed

lemma seek_day:
  assumes "1 \<le> d" "d \<le> n" "0 \<le> b" "0 < r" "r \<le> 86400" "b + 86400 * d < 2 ^ 31"
  shows "seek (b + 86400 * (d - 1) + r) (\<lambda>day. 60 * 60 * 24) inside [1..n] b = inside d (b + 86400 * (d - 1))"
proof -
  have sp: "[1..n] = [1..d - 1] @ d # [d + 1..n]" using assms by (intro upto_split3) simp_all
  show ?thesis by (subst seek_hit [OF sp], unfold sum_const) (use assms in simp_all)
qed

lemma seek_hour:
  assumes "0 \<le> h" "h < 24" "0 \<le> b" "0 < r" "r \<le> 3600" "b + 3600 * (h + 1) < 2 ^ 31"
  shows "seek (b + 3600 * h + r) (\<lambda>hour. 60 * 60) inside [1..24] b = inside (h + 1) (b + 3600 * h)"
proof -
  have sp: "[1..24] = [1..(h + 1) - 1] @ (h + 1) # [(h + 1) + 1..24]" using assms by (intro upto_split3) simp_all
  show ?thesis by (subst seek_hit [OF sp], unfold sum_const) (use assms in simp_all)
qed


lemma localtime_fields:
  assumes v: "valid_date y mo d h mi s" and "y \<le> 2036" "mo \<le> 11" "0 < 60 * mi + s"
  shows "localtime_r (civil_seconds y mo d h mi s) =
    Some (Some \<lparr>tm_sec = s, tm_min = mi, tm_hour = h, tm_mday = d, tm_mon = mo - 1, tm_year = y - 1900,
      tm_wday = (days_before_year y + days_before_month y mo + d + 3) mod 7,
      tm_yday = days_before_month y mo + d - 1, tm_isdst = 0\<rparr>)"
proof -
  let ?t = "civil_seconds y mo d h mi s"
  define b where "b = 86400 * (days_before_year y + days_before_month y mo)"
  have r: "1970 \<le> y" "1 \<le> mo" "1 \<le> d" "d \<le> month_length y mo" "0 \<le> h" "h < 24" "0 \<le> mi" "mi < 60" "0 \<le> s" "s < 60"
    using v by (simp_all add: valid_date_def)
  note c = civil_bounds [OF v assms(2)]
  have m0: "0 \<le> days_before_month y mo" using r assms(3) by (intro days_before_month_nonneg) simp_all
  have iy: "days_before_month y mo + month_length y mo \<le> year_length y" using r assms(3) by (intro days_in_year) simp_all
  have t1: "?t = b + 86400 * (d - 1) + (3600 * h + 60 * mi + s)" by (simp add: civil_seconds_def b_def)
  have t2: "?t = (b + 86400 * (d - 1)) + 3600 * h + (60 * mi + s)" by (simp add: t1)
  have bd: "0 \<le> b" "b + 86400 * d < 2 ^ 31" using c m0 iy r by (auto simp: b_def)
  have pos: "0 < 3600 * h + 60 * mi + s" using r(5) assms(4) by linarith
  have d: "seek ?t (\<lambda>day. 60 * 60 * 24) inside [1..days_in_month mo y] b = inside d (b + 86400 * (d - 1))" for inside :: "int \<Rightarrow> int \<Rightarrow> tm option option"
    unfolding t1 using r assms(3) pos bd day_seconds [OF v] by (intro seek_day) (simp_all add: days_in_month_eq)
  have h: "seek ?t (\<lambda>hour. 60 * 60) inside [1..24] (b + 86400 * (d - 1)) = inside (h + 1) (b + 86400 * (d - 1) + 3600 * h)" for inside :: "int \<Rightarrow> int \<Rightarrow> tm option option"
    unfolding t2 using r assms(4) bd by (intro seek_hour) simp_all
  have q: "?t sdiv SEC_DAY = days_before_year y + days_before_month y mo + (d - 1)"
    "(?t - 86400 * days_before_year y) sdiv SEC_DAY = days_before_month y mo + (d - 1)"
    "(60 * mi + s) sdiv 60 = mi" "(60 * mi + s) smod 60 = s"
    using c m0 r day_seconds [OF v] by (simp_all add: smod_nonneg SEC_DAY_def civil_seconds_def int_div_pos_eq)
  have w: "day_of_week ?t = (days_before_year y + days_before_month y mo + d + 3) mod 7"
    unfolding day_of_week_def q using c m0 r by (subst smod_nonneg) (simp_all add: algebra_simps)
  have al: "add_long ?t 1 = Some (?t + 1)" using c by (simp add: add_long_def)
  have rem: "?t - (b + 86400 * (d - 1) + 3600 * h) = 60 * mi + s" by (simp add: t2)
  show ?thesis
    unfolding localtime_r_def al Option.bind.bind_lunit seek_year [OF v assms(2)]
      seek_month [OF v assms(3,2) pos] b_def [symmetric] d h Let_def rem q w by simp
qed

lemma december_null:
  assumes v: "valid_date y 12 d h mi s" and "y \<le> 2036" "civil_seconds y 12 1 0 0 0 < civil_seconds y 12 d h mi s"
  shows "localtime_r (civil_seconds y 12 d h mi s) = Some None"
proof -
  let ?t = "civil_seconds y 12 d h mi s"
  note c = civil_bounds [OF v assms(2)]
  have y: "0 \<le> y" using v by (simp add: valid_date_def)
  have "[1..12] = [1..11] @ [12 :: int]" by (rule upto_rec2 [where j = 12, simplified]) simp
  then have "sum_list (map (\<lambda>month. days_in_month month y * SEC_DAY) [1..12]) = 86400 * days_before_month y 12"
    using sum_days_in_month [OF y, of 11] by (simp add: days_before_month_def days_in_month_def)
  moreover have "\<forall>m \<in> set [1..12]. 0 \<le> days_in_month m y * SEC_DAY" by (auto simp: days_in_month_def SEC_DAY_def)
  ultimately have miss: "seek ?t (\<lambda>month. days_in_month month y * SEC_DAY) inside [1..12] (86400 * days_before_year y) = Some None" for inside :: "int \<Rightarrow> int \<Rightarrow> tm option option"
    using assms(3) c by (intro seek_miss) (simp_all add: civil_seconds_def)
  have al: "add_long ?t 1 = Some (?t + 1)" using c by (simp add: add_long_def)
  show ?thesis unfolding localtime_r_def al Option.bind.bind_lunit seek_year [OF v assms(2)] miss ..
qed

section \<open>Reading the clock\<close>

text \<open>How the clock stores a number below 100.\<close>
definition bcd :: "int \<Rightarrow> u16" where
  "bcd n = of_int (n div 10 * 16 + n mod 10)"

lemma from_bcd_bcd:
  assumes "0 \<le> n" "n < 100"
  shows "from_bcd (bcd n) = n"
proof -
  have b: "0 \<le> n div 10 * 16 + n mod 10" "n div 10 * 16 + n mod 10 < 160" using assms by presburger+
  have "uint (of_int x :: u16) = x" if "0 \<le> x" "x < 160" for x
    using that by (simp add: uint_word_of_int_eq take_bit_int_eq_self)
  from this [OF b] have u: "uint (bcd n) = n div 10 * 16 + n mod 10" unfolding bcd_def .
  have "uint (bcd n div 16) = n div 10" using u b by (simp add: uint_div)
  moreover have "and (bcd n) 0xf = take_bit 4 (bcd n)" by (simp add: take_bit_eq_mask mask_eq_exp_minus_1)
  then have "uint (and (bcd n) 0xf) = n mod 10" using u by (simp add: take_bit_eq_mod uint_mod)
  ultimately show ?thesis by (simp add: from_bcd_def)
qed

definition shows_time :: "u16 list \<Rightarrow> int \<Rightarrow> int \<Rightarrow> int \<Rightarrow> int \<Rightarrow> int \<Rightarrow> int \<Rightarrow> bool" where
  "shows_time v y mo d h mi s \<longleftrightarrow> v ! CMOS_YEAR = bcd (y - 2000) \<and> v ! CMOS_MONTH = bcd mo \<and> v ! CMOS_DAY = bcd d \<and>
     v ! CMOS_HOUR = bcd h \<and> v ! CMOS_MINUTE = bcd mi \<and> v ! CMOS_SECOND = bcd s"

lemma years_days_rec: "1969 < z \<Longrightarrow> years_days z = of_int (year_length z) + years_days (z - 1)"
  unfolding year_length_def leap_def dvd_eq_mod_eq_0
  by (subst years_days.simps)
     (cases "z mod 4 = 0"; cases "z mod 100 = 0"; cases "z mod 400 = 0"; simp only: simp_thms if_True if_False; simp)

lemma years_days_eq: "1969 \<le> y \<Longrightarrow> years_days y = of_int (days_before_year (y + 1))"
proof (induction y rule: int_ge_induct)
  case base
  then show ?case by (subst years_days.simps) (simp add: days_before_year_def)
next
  case (step y)
  then have "days_before_year (y + 1 + 1) = days_before_year (y + 1) + year_length (y + 1)"
    by (intro days_before_year_Suc) simp
  then have d: "(of_int (days_before_year (y + 1 + 1)) :: u32) = years_days y + of_int (year_length (y + 1))"
    using step by simp
  have "years_days (y + 1) = of_int (year_length (y + 1)) + years_days y"
    using step.hyps years_days_rec [of "y + 1"] by simp
  then show ?case unfolding d by simp
qed

lemma secs_of_month_eq:
  assumes "1 \<le> mo" "mo \<le> 12"
  shows "secs_of_month (mo - 1) (y - 2000) = of_int (86400 * days_before_month y mo)"
proof -
  have "y mod 4 = 0 \<and> (y mod 100 \<noteq> 0 \<or> y mod 400 = 0) \<longleftrightarrow> leap y" by (simp add: leap_def dvd_eq_mod_eq_0)
  then have f: "month_length y 2 = 28 + (if y mod 4 = 0 \<and> (y mod 100 \<noteq> 0 \<or> y mod 400 = 0) then 1 else 0)"
    by (simp add: month_length_def)
  show ?thesis using assms
    by (rule months_12) (simp_all add: secs_of_month_def Let_def days_before_month_vals f)
qed

lemma cmos_seconds_eq:
  assumes "shows_time v y mo d h mi s" "valid_date y mo d h mi s" "2000 \<le> y" "y \<le> 2099"
  shows "cmos_seconds v = of_int (civil_seconds y mo d h mi s)"
proof -
  have r: "1 \<le> mo" "mo \<le> 12" "1 \<le> d" "d \<le> month_length y mo" "0 \<le> h" "h < 24" "0 \<le> mi" "mi < 60" "0 \<le> s" "s < 60"
    using assms(2) by (simp_all add: valid_date_def)
  have "d \<le> 31" using month_length_bounds [OF r(1,2), of y] r(4) by simp
  moreover have "years_days (y - 1) = of_int (days_before_year y)" using years_days_eq [of "y - 1"] assms(3) by simp
  ultimately show ?thesis using assms r
    by (simp add: cmos_seconds_def shows_time_def from_bcd_bcd secs_of_years_def secs_of_month_eq civil_seconds_def algebra_simps)
qed

section \<open>Properties\<close>

text \<open>
  C16.  From the clock registers to calendar fields: when the clock shows a valid date from 2000 to
  2036, \<^verbatim>\<open>read_cmos\<close> returns the seconds since 1970, and \<^verbatim>\<open>localtime_r\<close> gives back the date and time that
  the clock shows with its day of the week and of the year - if it is not December and not the
  first second of an hour.
\<close>
theorem clock_roundtrip:
  assumes "stable_dump d0 ds = Some v" "shows_time v y mo d h mi s" "valid_date y mo d h mi s"
    "2000 \<le> y" "y \<le> 2036" "mo \<le> 11" "0 < 60 * mi + s"
  shows "\<exists>w. read_cmos (d0 # ds) = Some w \<and> uint w = civil_seconds y mo d h mi s \<and>
    localtime_r (sint w) = Some (Some \<lparr>tm_sec = s, tm_min = mi, tm_hour = h, tm_mday = d, tm_mon = mo - 1,
      tm_year = y - 1900, tm_wday = (days_before_year y + days_before_month y mo + d + 3) mod 7,
      tm_yday = days_before_month y mo + d - 1, tm_isdst = 0\<rparr>)"
proof -
  let ?t = "civil_seconds y mo d h mi s"
  have w: "cmos_seconds v = of_int ?t" using assms by (intro cmos_seconds_eq) simp_all
  note c = civil_bounds [OF assms(3,5)]
  have t: "0 \<le> ?t" "?t < 2 ^ 31" using c by simp_all
  then have "uint (of_int ?t :: u32) = ?t" "sint (of_int ?t :: u32) = ?t"
    by (simp_all add: uint_word_of_int_eq take_bit_int_eq_self sint_sbintrunc' signed_take_bit_int_eq_self)
  then show ?thesis
    using assms(1) w localtime_fields [OF assms(3,5,6,7)] by (simp add: read_cmos_def)
qed

text \<open>
  C40.  In December, but for its first instant, \<^verbatim>\<open>localtime_r\<close> returns the null pointer: its table of
  months has no case for the last one.
\<close>
theorem localtime_december_null:
  assumes "valid_date y 12 d h mi s" "y \<le> 2036" "(d, h, mi, s) \<noteq> (1, 0, 0, 0)"
  shows "localtime_r (civil_seconds y 12 d h mi s) = Some None"
proof (rule december_null [OF assms(1,2)])
  show "civil_seconds y 12 1 0 0 0 < civil_seconds y 12 d h mi s"
    using assms(1,3) by (auto simp: civil_seconds_def valid_date_def)
qed

text \<open>The clock at 12:34:56 on 3 March 2021.\<close>
definition spring_dump :: "u16 list" where
  "spring_dump = [0x56, 0, 0x34, 0, 0x12, 0, 0, 0x03, 0x03, 0x21]"

theorem clock_roundtrip_witness:
  "\<exists>w. read_cmos [spring_dump, spring_dump] = Some w \<and>
    (\<exists>t. localtime_r (sint w) = Some (Some t) \<and> tm_hour t = 12 \<and> tm_mday t = 3 \<and> tm_year t = 121)"
proof -
  have v: "valid_date 2021 3 3 12 34 56" by (simp add: valid_date_def month_length_def)
  have "shows_time spring_dump 2021 3 3 12 34 56"
    by (simp add: shows_time_def spring_dump_def bcd_def CMOS_YEAR_def CMOS_MONTH_def CMOS_DAY_def CMOS_HOUR_def
        CMOS_MINUTE_def CMOS_SECOND_def)
  moreover have "stable_dump spring_dump [spring_dump] = Some spring_dump" by (simp add: same_time_def)
  ultimately show ?thesis using clock_roundtrip [OF _ _ v, of spring_dump "[spring_dump]" spring_dump] by auto
qed

theorem localtime_december_null_witness: "localtime_r (civil_seconds 2020 12 24 15 0 0) = Some None"
proof -
  have v: "valid_date 2020 12 24 15 0 0" by (simp add: valid_date_def month_length_def)
  from localtime_december_null [OF this] show ?thesis by simp
qed

end
