(* ===== verification/Tmpfs.thy ===== *)
theory Tmpfs
  imports Vfs Paging Clock
begin

text \<open>
  The temporary file system of \<^verbatim>\<open>kernel/src/tmpfs.c\<close>: files whose blocks are physical frames, reached
  through one page of kernel memory that is mapped to the block in use, and directories that are
  lists of files, links and directories.

  Files and directories are in stores by their address; new objects get the next unused
  address, as in theory \<open>Vfs\<close>, and \<open>garbage\<close> is what their memory contains before it is written.
  A file keeps the frame numbers of its blocks in use, the capacity of their array, the words of
  memory behind the blocks in use, and where the array comes from: \<^verbatim>\<open>malloc\<close> is \<^verbatim>\<open>valloc\<close> and gives
  a page of its own, \<^verbatim>\<open>realloc\<close> is \<^verbatim>\<open>klrealloc\<close> and moves the array into a bin.  The code of the
  drivers is named by the constants \<open>READ_TMPFS\<close> and so on, which stand for the addresses of the
  functions.  The state \<open>hp\<close> is that of the memory manager; an access through the window goes to
  the physical address its page table entry gives.  An access outside the caller's buffer has no
  result.
\<close>

unbundle bit_operations_syntax

section \<open>State\<close>

definition BLOCKSIZE :: u32 where "BLOCKSIZE = 0x1000"
definition TMPFS_TYPE_FILE :: int where "TMPFS_TYPE_FILE = 1"
definition TMPFS_TYPE_DIR :: int where "TMPFS_TYPE_DIR = 2"
definition TMPFS_TYPE_LINK :: int where "TMPFS_TYPE_LINK = 3"

record tmpfs_file =
  tf_name :: path
  tf_type :: int
  tf_mask :: int
  tf_uid :: int
  tf_gid :: int
  tf_atime :: u32
  tf_mtime :: u32
  tf_ctime :: u32
  tf_length :: u32
  tf_pointers :: nat
  tf_blocks :: "u32 list"
  tf_behind :: "nat \<Rightarrow> u32"
  tf_bin :: "u32 option"
  tf_target :: path

record tmpfs_dir =
  td_name :: path
  td_mask :: int
  td_uid :: int
  td_gid :: int
  td_atime :: u32
  td_mtime :: u32
  td_ctime :: u32
  td_files :: "addr list"

record tmpfs =
  hp :: alloc
  tfiles :: "addr \<rightharpoonup> tmpfs_file"
  tdirs :: "addr \<rightharpoonup> tmpfs_dir"
  tmpfs_root :: addr
  buf_space :: u32
  clk :: clock
  cur_user :: int
  tnext :: addr
  garbage :: "addr \<Rightarrow> nat \<Rightarrow> u32"

section \<open>Files and directories\<close>

definition new_file :: "path \<Rightarrow> tmpfs \<Rightarrow> tmpfs_file" where
  "new_file nm s = \<lparr>tf_name = nm, tf_type = TMPFS_TYPE_FILE, tf_mask = 0, tf_uid = 0, tf_gid = 0,
     tf_atime = now (clk s), tf_mtime = now (clk s), tf_ctime = now (clk s), tf_length = 0,
     tf_pointers = 2, tf_blocks = [], tf_behind = (garbage s (tnext s))(0 := 0, 1 := 0), tf_bin = None,
     tf_target = []\<rparr>"

definition tmpfs_file_new :: "path \<Rightarrow> tmpfs \<Rightarrow> addr \<times> tmpfs" where
  "tmpfs_file_new nm s =
     (tnext s, s\<lparr>tfiles := (tfiles s)(tnext s \<mapsto> new_file nm s), tnext := tnext s + 1\<rparr>)"

definition new_dir :: "path \<Rightarrow> tmpfs \<Rightarrow> tmpfs_dir" where
  "new_dir nm s = \<lparr>td_name = nm, td_mask = 0, td_uid = 0, td_gid = 0, td_atime = now (clk s),
     td_mtime = now (clk s), td_ctime = now (clk s), td_files = []\<rparr>"

definition tmpfs_dir_new :: "path \<Rightarrow> tmpfs \<Rightarrow> addr \<times> tmpfs" where
  "tmpfs_dir_new nm s =
     (tnext s, s\<lparr>tdirs := (tdirs s)(tnext s \<mapsto> new_dir nm s), tnext := tnext s + 1\<rparr>)"

text \<open>The name at an address: files and directories start with the same fields.\<close>
definition tmpfs_name :: "tmpfs \<Rightarrow> addr \<Rightarrow> path option" where
  "tmpfs_name s a = (case tfiles s a of Some t \<Rightarrow> Some (tf_name t) | None \<Rightarrow> map_option td_name (tdirs s a))"

text \<open>The search of a directory: the first entry with the name, at its index.\<close>
fun tmpfs_search :: "tmpfs \<Rightarrow> path \<Rightarrow> addr list \<Rightarrow> nat \<Rightarrow> (nat \<times> addr) option option" where
  "tmpfs_search s nm [] j = Some None"
| "tmpfs_search s nm (a # as) j =
     do { n \<leftarrow> tmpfs_name s a;
          if str_cmp nm n = 0 then Some (Some (j, a)) else tmpfs_search s nm as (j + 1) }"

definition dir_insert :: "addr \<Rightarrow> addr \<Rightarrow> tmpfs \<Rightarrow> tmpfs option" where
  "dir_insert d a s =
     do { x \<leftarrow> tdirs s d; Some (s\<lparr>tdirs := (tdirs s)(d \<mapsto> x\<lparr>td_files := td_files x @ [a]\<rparr>)\<rparr>) }"

definition upd_file :: "addr \<Rightarrow> (tmpfs_file \<Rightarrow> tmpfs_file) \<Rightarrow> tmpfs \<Rightarrow> tmpfs option" where
  "upd_file a f s = do { t \<leftarrow> tfiles s a; Some (s\<lparr>tfiles := (tfiles s)(a \<mapsto> f t)\<rparr>) }"

definition symlink_tmpfs :: "fs_node_t \<Rightarrow> path \<Rightarrow> path \<Rightarrow> tmpfs \<Rightarrow> tmpfs option" where
  "symlink_tmpfs parent target nm s =
     do { d \<leftarrow> tdirs s (device parent);
          r \<leftarrow> tmpfs_search s nm (td_files d) 0;
          (case r of
             Some _ \<Rightarrow> Some s
           | None \<Rightarrow>
               do { let (a, s) = tmpfs_file_new nm s;
                    s \<leftarrow> upd_file a (\<lambda>t. t\<lparr>tf_type := TMPFS_TYPE_LINK, tf_target := target\<rparr>) s;
                    dir_insert (device parent) a s }) }"

text \<open>
  The result and the bytes that are stored from \<^verbatim>\<open>buf\<close> on.  When the buffer is too small the
  terminator is stored one byte behind it.
\<close>
definition readlink_tmpfs :: "fs_node_t \<Rightarrow> int \<Rightarrow> tmpfs \<Rightarrow> (int \<times> u8 list) option" where
  "readlink_tmpfs node sz s =
     do { t \<leftarrow> tfiles s (device node);
          if tf_type t \<noteq> TMPFS_TYPE_LINK then Some (- 1, [])
          else if sz < int (length (tf_target t)) + 1
          then (if sz < 0 then None else Some (sz - 1, take (nat sz) (tf_target t) @ [0]))
          else Some (int (length (tf_target t)), tf_target t @ [0]) }"

section \<open>Blocks\<close>

fun clear_frames :: "u32 list \<Rightarrow> alloc \<Rightarrow> alloc option" where
  "clear_frames [] h = Some h"
| "clear_frames (b # bs) h = do { h \<leftarrow> clear_frame (b * 0x1000) h; clear_frames bs h }"

definition tmpfs_file_free :: "addr \<Rightarrow> tmpfs \<Rightarrow> tmpfs option" where
  "tmpfs_file_free a s =
     do { t \<leftarrow> tfiles s a; h \<leftarrow> clear_frames (tf_blocks t) (hp s); Some (s\<lparr>hp := h\<rparr>) }"

text \<open>Word \<open>i\<close> of the memory that the array of blocks starts at.\<close>
definition array_word :: "tmpfs_file \<Rightarrow> nat \<Rightarrow> u32" where
  "array_word t i = (if i < length (tf_blocks t) then tf_blocks t ! i else tf_behind t i)"

text \<open>
  The number of bytes \<^verbatim>\<open>klrealloc\<close> takes the old array to have, from the size in the header at the
  start of its page.  An array that came from \<^verbatim>\<open>malloc\<close> starts at a page itself: the size is then
  read from its third word.
\<close>
definition bin_bytes :: "u32 \<Rightarrow> nat" where
  "bin_bytes z = (if z < BIG_BIN then 2 ^ unat (SMALLEST_BIN_LOG + z) else unat z)"

definition old_bytes :: "tmpfs_file \<Rightarrow> nat" where
  "old_bytes t = bin_bytes (case tf_bin t of Some z \<Rightarrow> z | None \<Rightarrow> array_word t 2)"

text \<open>
  The size in the header of a block that \<^verbatim>\<open>klmalloc\<close> returns for \<open>n\<close> bytes: its bin or, for a big
  one, its pages without the header.  A big block that has been used before may be larger, which
  makes no difference to the blocks in use.
\<close>
definition bin_header :: "nat \<Rightarrow> u32" where
  "bin_header n =
     (let b = klmalloc_bin_size (of_nat n)
      in if b < BIG_BIN then b else ((of_nat n + big_hdr) div PAGE_SIZE + 1) * PAGE_SIZE - big_hdr)"

text \<open>A word of which the first \<open>n\<close> bytes have been copied over from another.\<close>
definition copied_word :: "nat \<Rightarrow> u32 \<Rightarrow> u32 \<Rightarrow> u32" where
  "copied_word n old new =
     (if 4 \<le> n then old else take_bit (8 * n) old OR (new AND NOT (mask (8 * n))))"

text \<open>
  Doubling the array.  When \<^verbatim>\<open>klrealloc\<close> believes that the old block is large enough it stays where
  it is, which for the page of \<^verbatim>\<open>malloc\<close> must not exceed the page; otherwise as many bytes as the
  old block is believed to have are copied into a new one.  The sizes stay far below \<open>2 ^ 32\<close>, as
  there are at most \<open>2 ^ 20\<close> blocks.
\<close>
definition tmpfs_file_blocks_embiggen :: "tmpfs_file \<Rightarrow> tmpfs \<Rightarrow> (tmpfs_file \<times> tmpfs) option" where
  "tmpfs_file_blocks_embiggen t s =
     (let n = 4 * (tf_pointers t * 2);
          m = old_bytes t;
          w = (\<lambda>i. copied_word (m - 4 * i) (array_word t i) (garbage s (tnext s) i))
      in if n \<le> m
         then (if tf_bin t = None \<and> unat PAGE_SIZE < n then None else Some (t\<lparr>tf_pointers := tf_pointers t * 2\<rparr>, s))
         else Some (t\<lparr>tf_pointers := tf_pointers t * 2, tf_blocks := map w [0..<length (tf_blocks t)],
                      tf_behind := w, tf_bin := Some (bin_header n)\<rparr>, s\<lparr>tnext := tnext s + 1\<rparr>))"

text \<open>The loop around it; it has no end when the capacity is zero.\<close>
partial_function (option) embiggen :: "nat \<Rightarrow> tmpfs_file \<Rightarrow> tmpfs \<Rightarrow> (tmpfs_file \<times> tmpfs) option" where
  "embiggen blockid t s =
     (if blockid < tf_pointers t then Some (t, s)
      else do { (t, s) \<leftarrow> tmpfs_file_blocks_embiggen t s; embiggen blockid t s })"

fun add_blocks :: "nat \<Rightarrow> nat \<Rightarrow> u32 list \<Rightarrow> alloc \<Rightarrow> (u32 list \<times> alloc) option" where
  "add_blocks 0 cap bs h = Some (bs, h)"
| "add_blocks (Suc n) cap bs h =
     do { index \<leftarrow> first_frame h;
          h \<leftarrow> set_frame (index * 0x1000) h;
          if length bs < cap then add_blocks n cap (bs @ [index]) h else None }"

definition map_window :: "u32 \<Rightarrow> u32 \<Rightarrow> alloc \<Rightarrow> alloc option" where
  "map_window window b h =
     do { (r, h) \<leftarrow> get_page window 0 (current_directory h) h;
          page \<leftarrow> r;
          p \<leftarrow> rd_page h page;
          wr_page page (p\<lparr>rw := True, user := False, frame := ucast b, present := True\<rparr>) h }"

text \<open>The result is the address of the window, or the null pointer.\<close>
definition tmpfs_file_getset_block :: "addr \<Rightarrow> nat \<Rightarrow> bool \<Rightarrow> tmpfs \<Rightarrow> (u32 \<times> tmpfs) option" where
  "tmpfs_file_getset_block a blockid create s =
     do { t \<leftarrow> tfiles s a;
          if create
          then do { (t, s) \<leftarrow> embiggen blockid t s;
                    (bs, h) \<leftarrow> add_blocks (Suc blockid - length (tf_blocks t)) (tf_pointers t) (tf_blocks t) (hp s);
                    h \<leftarrow> map_window (buf_space s) (bs ! blockid) h;
                    Some (buf_space s, s\<lparr>hp := h, tfiles := (tfiles s)(a \<mapsto> t\<lparr>tf_blocks := bs\<rparr>)\<rparr>) }
          else if blockid < length (tf_blocks t)
          then do { h \<leftarrow> map_window (buf_space s) (tf_blocks t ! blockid) (hp s);
                    Some (buf_space s, s\<lparr>hp := h\<rparr>) }
          else Some (0, s) }"

section \<open>Bytes of mapped pages\<close>

definition phys_byte :: "(u32 \<Rightarrow> u32) \<Rightarrow> u32 \<Rightarrow> u8" where
  "phys_byte m a = ucast (drop_bit (8 * unat (a mod 4)) (m (a - a mod 4)))"

definition put_byte :: "nat \<Rightarrow> u8 \<Rightarrow> u32 \<Rightarrow> u32" where
  "put_byte j b w = (w AND NOT (push_bit (8 * j) (ucast (- 1 :: u8)))) OR push_bit (8 * j) (ucast b)"

definition put_phys_byte :: "u32 \<Rightarrow> u8 \<Rightarrow> (u32 \<Rightarrow> u32) \<Rightarrow> (u32 \<Rightarrow> u32)" where
  "put_phys_byte a b m = m(a - a mod 4 := put_byte (unat (a mod 4)) b (m (a - a mod 4)))"

text \<open>Copying out of and into the window, a byte at a time; no access goes through a null pointer.\<close>
fun peek :: "u32 \<Rightarrow> nat \<Rightarrow> alloc \<Rightarrow> u8 list option" where
  "peek a 0 h = Some []"
| "peek a (Suc n) h =
     do { p \<leftarrow> map_to_physical a h; bs \<leftarrow> peek (a + 1) n h; Some (phys_byte (phys h) p # bs) }"

fun poke :: "u32 \<Rightarrow> u8 list \<Rightarrow> alloc \<Rightarrow> alloc option" where
  "poke a [] h = Some h"
| "poke a (b # bs) h =
     do { p \<leftarrow> map_to_physical a h; poke (a + 1) bs (h\<lparr>phys := put_phys_byte p b (phys h)\<rparr>) }"

text \<open>Storing into and reading from the caller's buffer at a position.\<close>
definition put_at :: "u8 list \<Rightarrow> int \<Rightarrow> u8 list \<Rightarrow> u8 list option" where
  "put_at buf p bs =
     (if bs = [] then Some buf
      else if 0 \<le> p \<and> nat p + length bs \<le> length buf
      then Some (take (nat p) buf @ bs @ drop (nat p + length bs) buf) else None)"

definition get_at :: "u8 list \<Rightarrow> int \<Rightarrow> nat \<Rightarrow> u8 list option" where
  "get_at buf p n =
     (if n = 0 then Some []
      else if 0 \<le> p \<and> nat p + n \<le> length buf then Some (take n (drop (nat p) buf)) else None)"

section \<open>Reading and writing\<close>

text \<open>
  The count of a \<^verbatim>\<open>memcpy\<close> is a signed integer; a negative one becomes a huge number of words to
  copy, which leaves every buffer.
\<close>
definition copy_len :: "u32 \<Rightarrow> nat option" where
  "copy_len w = (if sint w < 0 then None else Some (unat w))"

text \<open>One \<^verbatim>\<open>memcpy\<close> from a block of the file: \<open>n\<close> bytes from \<open>from\<close> to position \<open>p\<close> of the buffer.\<close>
definition read_part :: "addr \<Rightarrow> nat \<Rightarrow> u32 \<Rightarrow> nat \<Rightarrow> int \<Rightarrow> u8 list \<Rightarrow> tmpfs \<Rightarrow> (u8 list \<times> tmpfs) option" where
  "read_part a blockid from n p buffer s =
     do { (w, s) \<leftarrow> tmpfs_file_getset_block a blockid False s;
          if w = 0 then None
          else do { bs \<leftarrow> peek (w + from) n (hp s); buffer \<leftarrow> put_at buffer p bs; Some (buffer, s) } }"

text \<open>The loop over the blocks but the last, with \<open>k\<close> the counter \<^verbatim>\<open>blocks_read\<close>.\<close>
fun read_blocks :: "addr \<Rightarrow> u32 \<Rightarrow> nat list \<Rightarrow> nat \<Rightarrow> u8 list \<Rightarrow> tmpfs \<Rightarrow> (nat \<times> u8 list \<times> tmpfs) option" where
  "read_blocks a off [] k buffer s = Some (k, buffer, s)"
| "read_blocks a off (b # bs) k buffer s =
     do { (buffer, s) \<leftarrow> (if b = unat (off div BLOCKSIZE)
             then read_part a b (off mod BLOCKSIZE) (unat (BLOCKSIZE - off mod BLOCKSIZE)) 0 buffer s
             else read_part a b 0 (unat BLOCKSIZE) (int (unat BLOCKSIZE * k) - uint (off mod BLOCKSIZE)) buffer s);
          read_blocks a off bs (k + 1) buffer s }"

definition read_tmpfs :: "fs_node_t \<Rightarrow> u32 \<Rightarrow> u32 \<Rightarrow> u8 list \<Rightarrow> tmpfs \<Rightarrow> (u32 \<times> u8 list \<times> tmpfs) option" where
  "read_tmpfs node off sz buffer s =
     do { let a = device node;
          s \<leftarrow> upd_file a (\<lambda>t. t\<lparr>tf_atime := now (clk s)\<rparr>) s;
          t \<leftarrow> tfiles s a;
          let en = (if off + sz > tf_length t then tf_length t else off + sz);
          let start_block = off div BLOCKSIZE;
          let end_block = en div BLOCKSIZE;
          let end_size = en - end_block * BLOCKSIZE;
          let size_to_read = en - off;
          if start_block = end_block \<and> off = en then Some (0, buffer, s)
          else if start_block = end_block
          then do { n \<leftarrow> copy_len size_to_read;
                    (buffer, s) \<leftarrow> read_part a (unat start_block) (off mod BLOCKSIZE) n 0 buffer s;
                    Some (size_to_read, buffer, s) }
          else do { (k, buffer, s) \<leftarrow> read_blocks a off [unat start_block..<unat end_block] 0 buffer s;
                    (buffer, s) \<leftarrow> (if end_size \<noteq> 0
                       then do { n \<leftarrow> copy_len end_size;
                                 read_part a (unat end_block) 0 n
                                   (int (unat BLOCKSIZE * k) - uint (off mod BLOCKSIZE)) buffer s }
                       else Some (buffer, s));
                    Some (size_to_read, buffer, s) } }"

definition write_part :: "addr \<Rightarrow> nat \<Rightarrow> u32 \<Rightarrow> nat \<Rightarrow> int \<Rightarrow> u8 list \<Rightarrow> tmpfs \<Rightarrow> tmpfs option" where
  "write_part a blockid to n p buffer s =
     do { (w, s) \<leftarrow> tmpfs_file_getset_block a blockid True s;
          if w = 0 then None
          else do { bs \<leftarrow> get_at buffer p n; h \<leftarrow> poke (w + to) bs (hp s); Some (s\<lparr>hp := h\<rparr>) } }"

fun write_blocks :: "addr \<Rightarrow> u32 \<Rightarrow> nat list \<Rightarrow> nat \<Rightarrow> u8 list \<Rightarrow> tmpfs \<Rightarrow> (nat \<times> tmpfs) option" where
  "write_blocks a off [] k buffer s = Some (k, s)"
| "write_blocks a off (b # bs) k buffer s =
     do { s \<leftarrow> (if b = unat (off div BLOCKSIZE)
             then write_part a b (off mod BLOCKSIZE) (unat (BLOCKSIZE - off mod BLOCKSIZE)) 0 buffer s
             else write_part a b 0 (unat BLOCKSIZE) (int (unat BLOCKSIZE * k) - uint (off mod BLOCKSIZE)) buffer s);
          write_blocks a off bs (k + 1) buffer s }"

definition write_tmpfs :: "fs_node_t \<Rightarrow> u32 \<Rightarrow> u32 \<Rightarrow> u8 list \<Rightarrow> tmpfs \<Rightarrow> (u32 \<times> tmpfs) option" where
  "write_tmpfs node off sz buffer s =
     do { let a = device node;
          s \<leftarrow> upd_file a (\<lambda>t. t\<lparr>tf_atime := now (clk s), tf_mtime := now (clk s),
                 tf_length := (if off + sz > tf_length t then off + sz else tf_length t)\<rparr>) s;
          let en = off + sz;
          let start_block = off div BLOCKSIZE;
          let end_block = en div BLOCKSIZE;
          let end_size = en - end_block * BLOCKSIZE;
          let size_to_read = en - off;
          if start_block = end_block
          then do { n \<leftarrow> copy_len size_to_read;
                    s \<leftarrow> write_part a (unat start_block) (off mod BLOCKSIZE) n 0 buffer s;
                    Some (size_to_read, s) }
          else do { (k, s) \<leftarrow> write_blocks a off [unat start_block..<unat end_block] 0 buffer s;
                    s \<leftarrow> (if end_size \<noteq> 0
                       then do { n \<leftarrow> copy_len end_size;
                                 write_part a (unat end_block) 0 n
                                   (int (unat BLOCKSIZE * k) - uint (off mod BLOCKSIZE)) buffer s }
                       else Some s);
                    Some (size_to_read, s) } }"

section \<open>Attributes, opening and nodes\<close>

definition chmod_tmpfs :: "fs_node_t \<Rightarrow> int \<Rightarrow> tmpfs \<Rightarrow> (int \<times> tmpfs) option" where
  "chmod_tmpfs node mode s =
     (case tfiles s (device node) of
        Some t \<Rightarrow> Some (0, s\<lparr>tfiles := (tfiles s)(device node \<mapsto> t\<lparr>tf_mask := mode\<rparr>)\<rparr>)
      | None \<Rightarrow> do { d \<leftarrow> tdirs s (device node);
                     Some (0, s\<lparr>tdirs := (tdirs s)(device node \<mapsto> d\<lparr>td_mask := mode\<rparr>)\<rparr>) })"

definition chown_tmpfs :: "fs_node_t \<Rightarrow> int \<Rightarrow> int \<Rightarrow> tmpfs \<Rightarrow> (int \<times> tmpfs) option" where
  "chown_tmpfs node u g s =
     (case tfiles s (device node) of
        Some t \<Rightarrow> Some (0, s\<lparr>tfiles := (tfiles s)(device node \<mapsto> t\<lparr>tf_uid := u, tf_gid := g\<rparr>)\<rparr>)
      | None \<Rightarrow> do { d \<leftarrow> tdirs s (device node);
                     Some (0, s\<lparr>tdirs := (tdirs s)(device node \<mapsto> d\<lparr>td_uid := u, td_gid := g\<rparr>)\<rparr>) })"

definition O_TRUNC :: u32 where "O_TRUNC = 0x0400"
definition FS_FILE :: u32 where "FS_FILE = 0x01"

definition open_tmpfs :: "fs_node_t \<Rightarrow> u32 \<Rightarrow> tmpfs \<Rightarrow> tmpfs option" where
  "open_tmpfs node fl s =
     do { t \<leftarrow> tfiles s (device node);
          if fl AND O_TRUNC \<noteq> 0
          then do { h \<leftarrow> clear_frames (tf_blocks t) (hp s);
                    upd_file (device node)
                      (\<lambda>t. t\<lparr>tf_behind := (\<lambda>i. if i < length (tf_blocks t) then 0 else tf_behind t i),
                              tf_blocks := [], tf_length := 0\<rparr>) (s\<lparr>hp := h\<rparr>) }
          else Some s }"

text \<open>Numbers for the addresses of the functions.\<close>
definition READ_TMPFS :: addr where "READ_TMPFS = 1"
definition WRITE_TMPFS :: addr where "WRITE_TMPFS = 2"
definition OPEN_TMPFS :: addr where "OPEN_TMPFS = 3"
definition CHMOD_TMPFS :: addr where "CHMOD_TMPFS = 4"
definition CHOWN_TMPFS :: addr where "CHOWN_TMPFS = 5"
definition READLINK_TMPFS :: addr where "READLINK_TMPFS = 6"
definition READDIR_TMPFS :: addr where "READDIR_TMPFS = 7"
definition FINDDIR_TMPFS :: addr where "FINDDIR_TMPFS = 8"
definition CREATE_TMPFS :: addr where "CREATE_TMPFS = 9"
definition UNLINK_TMPFS :: addr where "UNLINK_TMPFS = 10"
definition MKDIR_TMPFS :: addr where "MKDIR_TMPFS = 11"
definition SYMLINK_TMPFS :: addr where "SYMLINK_TMPFS = 12"
definition TMPFS_MOUNT :: addr where "TMPFS_MOUNT = 13"

lemmas tmpfs_codes = READ_TMPFS_def WRITE_TMPFS_def OPEN_TMPFS_def CHMOD_TMPFS_def CHOWN_TMPFS_def
  READLINK_TMPFS_def READDIR_TMPFS_def FINDDIR_TMPFS_def CREATE_TMPFS_def UNLINK_TMPFS_def MKDIR_TMPFS_def
  SYMLINK_TMPFS_def TMPFS_MOUNT_def

text \<open>
  The name of a node and of a directory entry is an array of 256 characters; a name that does not
  fit into it with a terminator has no result.
\<close>
definition name_fits :: "path \<Rightarrow> bool" where
  "name_fits nm \<longleftrightarrow> length nm < 256"

definition tmpfs_from_file :: "addr \<Rightarrow> tmpfs_file \<Rightarrow> fs_node_t option" where
  "tmpfs_from_file a t = (if name_fits (tf_name t) then Some (zero_node\<lparr>inode := 0, fname := tf_name t, device := a, fmask := of_int (tf_mask t),
     uid := of_int (tf_uid t), gid := of_int (tf_gid t), atime := tf_atime t, ctime := tf_ctime t,
     mtime := tf_mtime t, flags := FS_FILE, read_p := READ_TMPFS, write_p := WRITE_TMPFS,
     open_p := OPEN_TMPFS, close_p := 0, readdir_p := 0, finddir_p := 0, chmod_p := CHMOD_TMPFS,
     chown_p := CHOWN_TMPFS, length' := tf_length t, nlink := 1\<rparr>) else None)"

definition tmpfs_from_link :: "addr \<Rightarrow> tmpfs_file \<Rightarrow> fs_node_t option" where
  "tmpfs_from_link a t =
     do { n \<leftarrow> tmpfs_from_file a t;
          Some (n\<lparr>flags := flags n OR FS_SYMLINK, readlink_p := READLINK_TMPFS, read_p := 0, write_p := 0,
                  create_p := 0, mkdir_p := 0, readdir_p := 0, finddir_p := 0\<rparr>) }"

text \<open>The string \<^verbatim>\<open>tmp\<close>.\<close>
definition tmp_name :: path where "tmp_name = [116, 109, 112]"

definition tmpfs_from_dir :: "addr \<Rightarrow> tmpfs_dir \<Rightarrow> fs_node_t" where
  "tmpfs_from_dir a d = zero_node\<lparr>inode := 0, fname := tmp_name, fmask := of_int (td_mask d),
     uid := of_int (td_uid d), gid := of_int (td_gid d), device := a, atime := td_atime d,
     mtime := td_mtime d, ctime := td_ctime d, flags := FS_DIRECTORY, read_p := 0, write_p := 0,
     open_p := 0, close_p := 0, readdir_p := READDIR_TMPFS, finddir_p := FINDDIR_TMPFS,
     create_p := CREATE_TMPFS, unlink_p := UNLINK_TMPFS, mkdir_p := MKDIR_TMPFS, nlink := 1,
     symlink_p := SYMLINK_TMPFS, chown_p := CHOWN_TMPFS, chmod_p := CHMOD_TMPFS\<rparr>"

section \<open>Directories\<close>

text \<open>The names are stored in zeroed records, so that they are terminated.\<close>
definition readdir_tmpfs :: "fs_node_t \<Rightarrow> u32 \<Rightarrow> tmpfs \<Rightarrow> dirent option option" where
  "readdir_tmpfs node index s =
     do { d \<leftarrow> tdirs s (device node);
          if index = 0 then Some (Some \<lparr>d_ino = 0, d_name = PATH_DOT @ [0]\<rparr>)
          else if index = 1 then Some (Some \<lparr>d_ino = 0, d_name = PATH_UP @ [0]\<rparr>)
          else let i = unat (index - 2)
               in if length (td_files d) \<le> i then Some None
                  else do { n \<leftarrow> tmpfs_name s (td_files d ! i);
                            if name_fits n then Some (Some \<lparr>d_ino = of_nat (td_files d ! i), d_name = n @ [0]\<rparr>)
                            else None } }"

definition finddir_tmpfs :: "fs_node_t \<Rightarrow> path \<Rightarrow> tmpfs \<Rightarrow> fs_node_t option option" where
  "finddir_tmpfs node nm s =
     do { d \<leftarrow> tdirs s (device node);
          r \<leftarrow> tmpfs_search s nm (td_files d) 0;
          (case r of
             None \<Rightarrow> Some None
           | Some (_, a) \<Rightarrow>
               (case tfiles s a of
                  Some t \<Rightarrow> if tf_type t = TMPFS_TYPE_FILE then map_option Some (tmpfs_from_file a t)
                            else if tf_type t = TMPFS_TYPE_LINK then map_option Some (tmpfs_from_link a t)
                            else Some None
                | None \<Rightarrow> do { x \<leftarrow> tdirs s a; Some (Some (tmpfs_from_dir a x)) })) }"

text \<open>
  A directory is freed as if it were a file: the block count it is taken to have is the parent
  pointer, which \<^verbatim>\<open>tmpfs_dir_new\<close> never sets.  That case has no result.
\<close>
definition unlink_tmpfs :: "fs_node_t \<Rightarrow> path \<Rightarrow> tmpfs \<Rightarrow> tmpfs option" where
  "unlink_tmpfs node nm s =
     do { d \<leftarrow> tdirs s (device node);
          r \<leftarrow> tmpfs_search s nm (td_files d) 0;
          (case r of
             None \<Rightarrow> Some s
           | Some (i, a) \<Rightarrow>
               do { s \<leftarrow> tmpfs_file_free a s;
                    Some (s\<lparr>tfiles := (tfiles s)(a := None),
                            tdirs := (tdirs s)(device node \<mapsto>
                              d\<lparr>td_files := take i (td_files d) @ drop (i + 1) (td_files d)\<rparr>)\<rparr>) }) }"

definition create_tmpfs :: "fs_node_t \<Rightarrow> path \<Rightarrow> u16 \<Rightarrow> tmpfs \<Rightarrow> tmpfs option" where
  "create_tmpfs parent nm permission s =
     do { d \<leftarrow> tdirs s (device parent);
          r \<leftarrow> tmpfs_search s nm (td_files d) 0;
          (case r of
             Some _ \<Rightarrow> Some s
           | None \<Rightarrow>
               do { let (a, s) = tmpfs_file_new nm s;
                    s \<leftarrow> upd_file a (\<lambda>t. t\<lparr>tf_mask := uint permission, tf_uid := cur_user s, tf_gid := cur_user s\<rparr>) s;
                    dir_insert (device parent) a s }) }"

definition mkdir_tmpfs :: "fs_node_t \<Rightarrow> path \<Rightarrow> u16 \<Rightarrow> tmpfs \<Rightarrow> tmpfs option" where
  "mkdir_tmpfs parent nm permission s =
     do { d \<leftarrow> tdirs s (device parent);
          r \<leftarrow> tmpfs_search s nm (td_files d) 0;
          (case r of
             Some _ \<Rightarrow> Some s
           | None \<Rightarrow>
               do { let (a, s) = tmpfs_dir_new nm s;
                    x \<leftarrow> tdirs s a;
                    dir_insert (device parent) a
                      (s\<lparr>tdirs := (tdirs s)(a \<mapsto>
                         x\<lparr>td_mask := uint permission, td_uid := cur_user s, td_gid := cur_user s\<rparr>)\<rparr>) }) }"

section \<open>Set-up\<close>

definition tmpfs_create :: "path \<Rightarrow> tmpfs \<Rightarrow> fs_node_t \<times> tmpfs" where
  "tmpfs_create nm s =
     (let (a, s) = tmpfs_dir_new nm s;
          d = (new_dir nm s)\<lparr>td_mask := 511, td_uid := 0, td_gid := 0\<rparr>
      in (tmpfs_from_dir a d, s\<lparr>tmpfs_root := a, tdirs := (tdirs s)(a \<mapsto> d)\<rparr>))"

definition tmpfs_mount :: "path \<Rightarrow> path \<Rightarrow> tmpfs \<Rightarrow> fs_node_t \<times> tmpfs" where
  "tmpfs_mount dev mount_path s = tmpfs_create dev s"

text \<open>Handing a new node to \<^verbatim>\<open>vfs_mount\<close>.\<close>
definition mount_node :: "path \<Rightarrow> fs_node_t \<Rightarrow> vfs \<Rightarrow> vfs option" where
  "mount_node p n v =
     map_option snd (vfs_mount p (next_addr v)
       (v\<lparr>nodes := (nodes v)(next_addr v \<mapsto> n), next_addr := next_addr v + 1\<rparr>))"

text \<open>The strings \<^verbatim>\<open>var\<close> and \<^verbatim>\<open>tmpfs\<close>.\<close>
definition var_name :: path where "var_name = [118, 97, 114]"
definition tmpfs_type_name :: path where "tmpfs_type_name = [116, 109, 112, 102, 115]"

definition tmpfs_initialize :: "tmpfs \<Rightarrow> vfs \<Rightarrow> (tmpfs \<times> vfs) option" where
  "tmpfs_initialize s v =
     do { (b, h) \<leftarrow> kvmalloc (uint BLOCKSIZE) (hp s);
          let s = s\<lparr>hp := h, buf_space := b\<rparr>;
          let (n, s) = tmpfs_create tmp_name s;
          v \<leftarrow> mount_node (PATH_SEPARATOR # tmp_name) n v;
          let (n, s) = tmpfs_create var_name s;
          v \<leftarrow> mount_node (PATH_SEPARATOR # var_name) n v;
          (_, v) \<leftarrow> vfs_register tmpfs_type_name TMPFS_MOUNT v;
          Some (s, v) }"

section \<open>Bytes\<close>

lemma put_byte_same: "j < 4 \<Longrightarrow> ucast (drop_bit (8 * j) (put_byte j b w)) = b"
  by (rule bit_word_eqI) (auto simp: put_byte_def bit_simps)

lemma put_byte_other: "j < 4 \<Longrightarrow> k < 4 \<Longrightarrow> j \<noteq> k \<Longrightarrow>
    (ucast (drop_bit (8 * k) (put_byte j b w)) :: u8) = ucast (drop_bit (8 * k) w)"
proof (rule bit_word_eqI)
  fix n assume a: "j < 4" "k < 4" "j \<noteq> k" "n < LENGTH(8)"
  then have "\<not> (8 * j \<le> 8 * k + n \<and> 8 * k + n < 8 * j + 8)" by auto
  then show "bit (ucast (drop_bit (8 * k) (put_byte j b w)) :: u8) n \<longleftrightarrow> bit (ucast (drop_bit (8 * k) w) :: u8) n"
    using a by (auto simp: put_byte_def bit_simps dest: bit_imp_le_length)
qed

lemma phys_byte_put: "phys_byte (put_phys_byte a b m) a' = (if a' = a then b else phys_byte m a')"
proof -
  have j: "unat (x mod 4) < 4" for x :: u32 by (simp add: unat_mod)
  show ?thesis
  proof (cases "a - a mod 4 = a' - a' mod 4")
    case True
    have "a' = a \<longleftrightarrow> unat (a mod 4) = unat (a' mod 4)"
      using True by (metis diff_add_cancel word_unat_eq_iff)
    then show ?thesis using True j [of a] j [of a'] put_byte_same put_byte_other
      by (auto simp: phys_byte_def put_phys_byte_def)
  next
    case False
    then show ?thesis by (auto simp: phys_byte_def put_phys_byte_def)
  qed
qed

text \<open>Byte \<open>o\<close> of frame \<open>f\<close>.\<close>
definition fbyte :: "(u32 \<Rightarrow> u32) \<Rightarrow> nat \<Rightarrow> nat \<Rightarrow> u8" where
  "fbyte m f i = phys_byte m (of_nat (4096 * f + i))"

lemma frame_byte_inj:
  assumes "f < 2 ^ 20" "i < 4096" "f' < 2 ^ 20" "i' < 4096"
  shows "(of_nat (4096 * f + i) :: u32) = of_nat (4096 * f' + i') \<longleftrightarrow> f = f' \<and> i = i'"
proof -
  have "unat (of_nat (4096 * f + i) :: u32) = 4096 * f + i" "unat (of_nat (4096 * f' + i') :: u32) = 4096 * f' + i'"
    using assms by (intro unat_of_nat_u32; simp)+
  moreover have "(4096 * f + i) div 4096 = f" "(4096 * f' + i') div 4096 = f'" using assms by simp_all
  ultimately show ?thesis by (metis add_left_cancel)
qed

section \<open>The window\<close>

text \<open>The window is mapped to frame \<open>f\<close>.\<close>
definition shows_frame :: "u32 \<Rightarrow> nat \<Rightarrow> 'a mm_scheme \<Rightarrow> bool" where
  "shows_frame w f h \<longleftrightarrow> (\<forall>i<4096. map_to_physical (w + of_nat i) h = Some (of_nat (4096 * f + i)))"

lemma map_to_physical_cong:
  fixes g h :: "'a mm_scheme"
  assumes "dirs g = dirs h" "tbls g = tbls h" "current_directory g = current_directory h"
  shows "map_to_physical a g = map_to_physical a h"
proof -
  have r: "rd_page g = rd_page h" using assms(2) by (simp add: fun_eq_iff rd_page_def)
  show ?thesis unfolding map_to_physical_def assms r ..
qed

lemma shows_frame_phys: "shows_frame w f (h\<lparr>phys := m\<rparr>) = shows_frame w f h"
  by (simp add: shows_frame_def map_to_physical_cong [of "h\<lparr>phys := m\<rparr>" h])


lemma poke_window:
  assumes "shows_frame w f h" "i + length bs \<le> 4096" "f < 2 ^ 20"
  shows "\<exists>m. poke (w + of_nat i) bs h = Some (h\<lparr>phys := m\<rparr>) \<and>
    (\<forall>f' k. f' < 2 ^ 20 \<longrightarrow> k < 4096 \<longrightarrow>
      fbyte m f' k = (if f' = f \<and> i \<le> k \<and> k < i + length bs then bs ! (k - i) else fbyte (phys h) f' k))"
  using assms(1,2)
proof (induction bs arbitrary: i h)
  case Nil
  then show ?case by (intro exI [of _ "phys h"]) auto
next
  case (Cons b bs)
  let ?m = "put_phys_byte (of_nat (4096 * f + i)) b (phys h)"
  have p: "map_to_physical (w + of_nat i) h = Some (of_nat (4096 * f + i))"
    using Cons.prems by (simp add: shows_frame_def)
  have sf: "shows_frame w f (h\<lparr>phys := ?m\<rparr>)" using Cons.prems(1) by (simp add: shows_frame_phys)
  obtain m where m: "poke (w + of_nat (Suc i)) bs (h\<lparr>phys := ?m\<rparr>) = Some (h\<lparr>phys := ?m, phys := m\<rparr>)"
    "\<And>f' k. f' < 2 ^ 20 \<Longrightarrow> k < 4096 \<Longrightarrow>
      fbyte m f' k = (if f' = f \<and> Suc i \<le> k \<and> k < Suc i + length bs then bs ! (k - Suc i) else fbyte ?m f' k)"
    using Cons.IH [OF sf, of "Suc i"] Cons.prems(2) by auto
  have b: "fbyte ?m f' k = (if f' = f \<and> k = i then b else fbyte (phys h) f' k)" if "f' < 2 ^ 20" "k < 4096" for f' k
    unfolding fbyte_def phys_byte_put using frame_byte_inj [OF that assms(3), of i] Cons.prems(2) by auto
  have "poke (w + of_nat i) (b # bs) h = Some (h\<lparr>phys := m\<rparr>)"
    using m(1) p by (simp add: ac_simps)
  moreover have "fbyte m f' k = (if f' = f \<and> i \<le> k \<and> k < i + length (b # bs) then (b # bs) ! (k - i) else fbyte (phys h) f' k)"
    if "f' < 2 ^ 20" "k < 4096" for f' k
    using m(2) [OF that] b [OF that] by (auto simp: nth_Cons' Suc_le_eq)
  ultimately show ?case by blast
qed

text \<open>The page of the window has an entry in the current directory.\<close>
definition window_ok :: "u32 \<Rightarrow> 'a mm_scheme \<Rightarrow> bool" where
  "window_ok w h \<longleftrightarrow> w mod 0x1000 = 0 \<and> w \<noteq> 0 \<and>
     (\<exists>r. get_page_lookup w (current_directory h) h = Some (Some r) \<and> r \<in> dom (entry (tbls h)))"

lemma aligned_add:
  assumes "w mod 0x1000 = (0 :: u32)" "i < 4096"
  shows "(w + of_nat i) div 0x1000 = w div 0x1000" "(w + of_nat i) mod 0x1000 = of_nat i"
proof -
  obtain k where k: "unat w = 4096 * k" using arg_cong [OF assms(1), of unat] by (auto simp: unat_mod mod_eq_0_iff_dvd)
  have i: "unat (of_nat i :: u32) = i" using assms(2) by (intro unat_of_nat_u32) simp
  have "unat w < 2 ^ 32" using unsigned_less [of w] by simp
  then have "unat w + unat (of_nat i :: u32) < 2 ^ 32" using assms(2) k i by simp
  then have u: "unat (w + of_nat i) = 4096 * k + i" using k i unat_add_lem [of w "of_nat i"] by simp
  have "unat ((w + of_nat i) div 0x1000) = unat (w div 0x1000)" using u k assms(2) by (simp add: unat_div)
  then show "(w + of_nat i) div 0x1000 = w div 0x1000" by (simp add: word_unat_eq_iff)
  have "unat ((w + of_nat i) mod 0x1000) = unat (of_nat i :: u32)" using u i assms(2) by (simp add: unat_mod)
  then show "(w + of_nat i) mod 0x1000 = of_nat i" by (simp add: word_unat_eq_iff)
qed

lemma ucast_frame_back: "unat b < 2 ^ 20 \<Longrightarrow> ucast (ucast b :: 20 word) = (b :: u32)"
proof -
  assume b: "unat b < 2 ^ 20"
  have "(ucast b :: 20 word) = of_nat (unat b)" using ucast_frame_20 [of "unat b"] by simp
  then have "unat (ucast b :: 20 word) = unat b" using unat_frame_20 [OF b] by simp
  then show ?thesis by (simp add: word_unat_eq_iff unsigned_ucast_eq unsigned_take_bit_eq take_bit_word_eq_self)
qed

lemma map_window_ok:
  assumes "window_ok w h" "unat b < 2 ^ 20"
  obtains T where "map_window w b h = Some (h\<lparr>tbls := T\<rparr>)" "window_ok w (h\<lparr>tbls := T\<rparr>)"
    "shows_frame w (unat b) (h\<lparr>tbls := T\<rparr>)"
proof -
  obtain t i q where l: "get_page_lookup w (current_directory h) h = Some (Some (t, i))" "entry (tbls h) (t, i) = Some q"
    and a: "w mod 0x1000 = 0" "w \<noteq> 0"
    using assms(1) unfolding window_ok_def by (metis domD surj_pair)
  define q' where "q' = q\<lparr>rw := True, user := False, frame := ucast b, present := True\<rparr>"
  define h' where "h' = h\<lparr>tbls := set_entry (t, i) q' (tbls h)\<rparr>"
  have 1: "map_window w b h = Some h'"
    using l by (simp add: map_window_def get_page_def rd_page_entry wr_page_eq h'_def q'_def)
  have e: "entry (tbls h') = (entry (tbls h))((t, i) \<mapsto> q')" by (simp add: h'_def entry_set_entry [OF l(2)])
  have l': "get_page_lookup a (current_directory h') h' = get_page_lookup a (current_directory h) h" for a
    by (simp add: h'_def get_page_lookup_def)
  have 3: "window_ok w h'" using l l' e a by (auto simp: window_ok_def simp del: split_paired_Ex)
  have 4: "shows_frame w (unat b) h'" unfolding shows_frame_def
  proof (intro allI impI)
    fix o' assume o: "o' < (4096 :: nat)"
    obtain d where d: "dirs h (current_directory h) = Some d" "nth_opt (tables d) (unat (w div 0x1000 div 1024)) = Some t"
      "t \<noteq> 0" "i = unat (w div 0x1000 mod 1024)"
      using l(1) by (auto simp: get_page_lookup_def Let_def split: bind_splits if_splits)
    have "rd_page h' (t, i) = Some q'" by (simp add: rd_page_entry e)
    moreover have "ucast (frame q') = b" by (simp add: q'_def ucast_frame_back [OF assms(2)])
    moreover have "b * 0x1000 + of_nat o' = of_nat (4096 * unat b + o')" by simp
    ultimately show "map_to_physical (w + of_nat o') h' = Some (of_nat (4096 * unat b + o'))"
      using d by (simp add: map_to_physical_def aligned_add [OF a(1) o] Let_def h'_def)
  qed
  show ?thesis by (rule that) (use 1 3 4 in \<open>simp_all add: h'_def\<close>)
qed

section \<open>Allocating blocks\<close>

lemma window_ok_upd [simp]:
  "window_ok w (h\<lparr>frames := F\<rparr>) = window_ok w h" "window_ok w (h\<lparr>phys := m\<rparr>) = window_ok w h"
  by (simp_all add: window_ok_def get_page_lookup_def)

lemma bin_header_covers:
  assumes "0 < n" "n \<le> 2 ^ 22"
  shows "n \<le> bin_bytes (bin_header n)"
proof -
  have u: "unat (of_nat n :: u32) = n" using assms(2) by (intro unat_of_nat_u32) simp
  then have nz: "(of_nat n :: u32) \<noteq> 0" using assms(1) by (metis less_irrefl unat_0)
  define b where "b = klmalloc_bin_size (of_nat n)"
  have b: "b < BIG_BIN \<Longrightarrow> n \<le> 4 * 2 ^ unat b" "b < BIG_BIN \<Longrightarrow> unat b < 10" "\<not> b < BIG_BIN \<Longrightarrow> 2048 < n"
    using bin_size_bounds [OF nz] u
    by (auto simp: Let_def b_def word_less_nat_alt BIG_BIN_def NUM_BINS_def)
  show ?thesis
  proof (cases "b < BIG_BIN")
    case True
    have "unat (SMALLEST_BIN_LOG + b) = 2 + unat b"
      using b(2) [OF True] unat_add_lem [of SMALLEST_BIN_LOG b] by (simp add: SMALLEST_BIN_LOG_def)
    then show ?thesis using True b(1) by (simp add: bin_header_def bin_bytes_def b_def [symmetric] Let_def power_add)
  next
    case False
    define q where "q = (n + unat big_hdr) div 4096"
    have h: "unat big_hdr < 4096" "unat PAGE_SIZE = 4096" by (simp_all add: big_hdr_def PAGE_SIZE_def)
    have q: "q \<le> 2 ^ 10" "n + unat big_hdr < 4096 * q + 4096" using assms(2) h by (simp_all add: q_def)
    have "unat (of_nat n + big_hdr) = n + unat big_hdr"
      using u assms(2) h unat_add_lem [of "of_nat n" big_hdr] by simp
    then have "unat ((of_nat n + big_hdr) div PAGE_SIZE) = q" by (simp add: unat_div h q_def)
    then have e: "(of_nat n + big_hdr) div PAGE_SIZE = of_nat q" by (metis of_nat_unat ucast_id)
    have "((of_nat q + 1) * PAGE_SIZE :: u32) = of_nat (4096 * q + 4096)" by (simp add: PAGE_SIZE_def algebra_simps)
    moreover have "unat (of_nat (4096 * q + 4096) :: u32) = 4096 * q + 4096" using q(1) by (intro unat_of_nat_u32) simp
    ultimately have v: "unat ((of_nat q + 1) * PAGE_SIZE - big_hdr) = 4096 * q + 4096 - unat big_hdr"
      using h by (simp add: unat_sub_if')
    then have "n \<le> unat ((of_nat q + 1) * PAGE_SIZE - big_hdr)" using q(2) by simp
    moreover from this have "\<not> (of_nat q + 1) * PAGE_SIZE - big_hdr < BIG_BIN"
      using b(3) [OF False] by (simp add: word_less_nat_alt BIG_BIN_def NUM_BINS_def)
    ultimately show ?thesis using False by (simp add: bin_header_def bin_bytes_def b_def [symmetric] Let_def e)
  qed
qed

text \<open>The array of a file: within the sizes of the model, and a bin holds what it is used for.\<close>
definition array_ok :: "tmpfs_file \<Rightarrow> bool" where
  "array_ok t \<longleftrightarrow> 0 < tf_pointers t \<and> tf_pointers t \<le> 2 ^ 20 \<and> length (tf_blocks t) \<le> tf_pointers t \<and>
     (\<forall>z. tf_bin t = Some z \<longrightarrow> 4 * tf_pointers t \<le> bin_bytes z)"

lemma array_ok_attributes [simp]:
  "array_ok (t\<lparr>tf_atime := x\<rparr>) = array_ok t" "array_ok (t\<lparr>tf_atime := x, tf_mtime := y\<rparr>) = array_ok t"
  "array_ok (t\<lparr>tf_atime := x, tf_mtime := y, tf_length := z\<rparr>) = array_ok t"
  by (simp_all add: array_ok_def)

text \<open>Doubling keeps the blocks when the size read from the header covers them.\<close>
definition covers :: "tmpfs_file \<Rightarrow> bool" where
  "covers t \<longleftrightarrow> tf_bin t \<noteq> None \<or> 4 * length (tf_blocks t) \<le> old_bytes t \<and> old_bytes t < 8 * tf_pointers t"

definition same_file :: "tmpfs_file \<Rightarrow> tmpfs_file \<Rightarrow> bool" where
  "same_file t t' \<longleftrightarrow> t' = t\<lparr>tf_pointers := tf_pointers t', tf_blocks := tf_blocks t', tf_behind := tf_behind t', tf_bin := tf_bin t'\<rparr>"

lemma same_file_refl: "same_file t t" by (simp add: same_file_def)

lemma same_file_trans: "same_file t t1 \<Longrightarrow> same_file t1 t2 \<Longrightarrow> same_file t t2"
  unfolding same_file_def by (cases t; cases t1; cases t2) simp

lemma same_file_blocks: "same_file t t' \<Longrightarrow> same_file t (t'\<lparr>tf_blocks := bs\<rparr>)"
  unfolding same_file_def by (cases t; cases t') simp

lemma same_file_length: "same_file t t' \<Longrightarrow> tf_length t' = tf_length t"
  unfolding same_file_def by (cases t; cases t') simp

lemma double_ok:
  assumes "array_ok t" "covers t" "tf_pointers t \<le> 2 ^ 19"
  shows "\<exists>t' nx. tmpfs_file_blocks_embiggen t s = Some (t', s\<lparr>tnext := nx\<rparr>) \<and> tnext s \<le> nx \<and> same_file t t' \<and>
    tf_blocks t' = tf_blocks t \<and> tf_pointers t' = tf_pointers t * 2 \<and> array_ok t' \<and> tf_bin t' \<noteq> None"
proof (cases "8 * tf_pointers t \<le> old_bytes t")
  case True
  then have z: "tf_bin t \<noteq> None" using assms(2) by (auto simp: covers_def)
  then show ?thesis using True assms(1,3)
    by (intro exI [of _ "t\<lparr>tf_pointers := tf_pointers t * 2\<rparr>"] exI [of _ "tnext s"])
       (auto simp: tmpfs_file_blocks_embiggen_def array_ok_def old_bytes_def same_file_def Let_def)
next
  case False
  define w where "w = (\<lambda>i. copied_word (old_bytes t - 4 * i) (array_word t i) (garbage s (tnext s) i))"
  define t' where "t' = t\<lparr>tf_pointers := tf_pointers t * 2, tf_blocks := map w [0..<length (tf_blocks t)],
    tf_behind := w, tf_bin := Some (bin_header (8 * tf_pointers t))\<rparr>"
  have cov: "4 * length (tf_blocks t) \<le> old_bytes t"
    using assms(1,2) by (auto simp: covers_def array_ok_def old_bytes_def)
  have "w i = tf_blocks t ! i" if "i < length (tf_blocks t)" for i
  proof -
    have "4 \<le> old_bytes t - 4 * i" using that cov by linarith
    then show ?thesis using that by (simp add: w_def copied_word_def array_word_def)
  qed
  then have bl: "map w [0..<length (tf_blocks t)] = tf_blocks t" by (intro nth_equalityI) simp_all
  have "8 * tf_pointers t \<le> bin_bytes (bin_header (8 * tf_pointers t))"
    using assms(1,3) by (intro bin_header_covers) (simp_all add: array_ok_def)
  then have "array_ok t'" using assms(1,3) bl by (simp add: array_ok_def t'_def)
  moreover have "tmpfs_file_blocks_embiggen t s = Some (t', s\<lparr>tnext := tnext s + 1\<rparr>)"
    using False by (simp add: tmpfs_file_blocks_embiggen_def t'_def w_def Let_def)
  ultimately show ?thesis using bl
    by (intro exI [of _ t'] exI [of _ "tnext s + 1"]) (simp add: t'_def same_file_def)
qed

lemma embiggen_ok:
  assumes "array_ok t" "i < 2 ^ 19" "i < tf_pointers t \<or> covers t"
  shows "\<exists>t' nx. embiggen i t s = Some (t', s\<lparr>tnext := nx\<rparr>) \<and> tnext s \<le> nx \<and> same_file t t' \<and>
    tf_blocks t' = tf_blocks t \<and> array_ok t' \<and> i < tf_pointers t' \<and> tf_pointers t \<le> tf_pointers t' \<and>
    (tf_pointers t \<le> i \<or> tf_bin t \<noteq> None \<longrightarrow> tf_bin t' \<noteq> None)"
  using assms
proof (induction "Suc i - tf_pointers t" arbitrary: t s rule: less_induct)
  case less
  show ?case
  proof (cases "i < tf_pointers t")
    case True
    then show ?thesis using less.prems(1)
      by (intro exI [of _ t] exI [of _ "tnext s"]) (simp add: embiggen.simps same_file_refl)
  next
    case False
    then have c: "covers t" "tf_pointers t \<le> 2 ^ 19" using less.prems(2,3) by simp_all
    obtain t1 nx where t1: "tmpfs_file_blocks_embiggen t s = Some (t1, s\<lparr>tnext := nx\<rparr>)" "tnext s \<le> nx" "same_file t t1"
      "tf_blocks t1 = tf_blocks t" "tf_pointers t1 = tf_pointers t * 2" "array_ok t1" "tf_bin t1 \<noteq> None"
      using double_ok [OF less.prems(1) c] by blast
    have "Suc i - tf_pointers t1 < Suc i - tf_pointers t"
      using t1(5) False less.prems(1) by (auto simp: array_ok_def)
    moreover have "i < tf_pointers t1 \<or> covers t1" using t1(7) by (simp add: covers_def)
    ultimately obtain t2 ny where t2: "embiggen i t1 (s\<lparr>tnext := nx\<rparr>) = Some (t2, s\<lparr>tnext := nx\<rparr>\<lparr>tnext := ny\<rparr>)"
      "tnext (s\<lparr>tnext := nx\<rparr>) \<le> ny" "same_file t1 t2" "tf_blocks t2 = tf_blocks t1" "array_ok t2" "i < tf_pointers t2"
      "tf_pointers t1 \<le> tf_pointers t2" "tf_bin t2 \<noteq> None"
      using less.hyps [OF _ t1(6) less.prems(2)] t1(7) by blast
    have "embiggen i t s = Some (t2, s\<lparr>tnext := ny\<rparr>)" using False t1(1) t2(1) by (subst embiggen.simps) simp
    then show ?thesis using t1 t2 same_file_trans [OF t1(3) t2(3)]
      by (intro exI [of _ t2] exI [of _ ny]) simp
  qed
qed

text \<open>
  A file with two blocks whose array still is the page of \<^verbatim>\<open>malloc\<close>, the rest of which is zero: the
  third block makes \<^verbatim>\<open>klrealloc\<close> copy four bytes, and the second block is lost.
\<close>
lemma embiggen_loses_block:
  assumes "tf_bin t = None" "tf_pointers t = 2" "tf_blocks t = [b0, b1]" "tf_behind t 2 = 0"
  shows "\<exists>t' s'. embiggen 2 t s = Some (t', s') \<and> tf_blocks t' = [b0, garbage s (tnext s) 1]"
proof -
  have "old_bytes t = 4"
    using assms by (simp add: old_bytes_def array_word_def bin_bytes_def BIG_BIN_def NUM_BINS_def SMALLEST_BIN_LOG_def)
  then show ?thesis using assms
    by (subst embiggen.simps)
       (simp add: tmpfs_file_blocks_embiggen_def Let_def embiggen.simps copied_word_def array_word_def upt_rec)
qed

text \<open>What taking \<open>n\<close> free frames does: they were free, are different, and are all that is marked.\<close>
definition takes :: "u32 list \<Rightarrow> alloc \<Rightarrow> alloc \<Rightarrow> bool" where
  "takes new h h' \<longleftrightarrow> (\<exists>F. h' = h\<lparr>frames := F\<rparr>) \<and> bm_ok h' \<and> distinct (map unat new) \<and>
     (\<forall>b \<in> set new. unat b < scanned h \<and> \<not> bm (frames h) (unat b)) \<and>
     (\<forall>k. bm (frames h') k \<longleftrightarrow> bm (frames h) k \<or> k \<in> unat ` set new) \<and>
     free_frames h' = free_frames h - length new"

lemma take_frame:
  assumes "bm_ok h" "0 < free_frames h"
  obtains b h' where "first_frame h = Some b" "set_frame (b * 0x1000) h = Some h'" "takes [b] h h'"
proof -
  obtain k where k: "first_frame h = Some (of_nat k)" "lowest_free (frames h) (scanned h) k"
    "k < unat (nframes h)" "k < 2 ^ 20"
    using assms(2) first_frame_cases [OF assms(1)] unfolding free_frames_pos by metis
  have ix: "k div 32 < length (frames h)" using bm_ok_index [OF assms(1) k(3)] .
  have u: "unat (of_nat k :: u32) = k" using k(4) by (intro unat_of_nat_u32) simp
  let ?h = "h\<lparr>frames := bm_set (frames h) k\<rparr>"
  have "set_frame (of_nat k * 0x1000) h = Some ?h" using set_frame_eq [OF assms(1) k(4)] k(3) by simp
  moreover have "free_frames ?h = free_frames h - 1" using free_frames_set [OF k(2) ix, of "tbls h"] by simp
  then have "takes [of_nat k] h ?h"
    using k(2) ix assms(1) u by (auto simp: takes_def bm_set_iff lowest_free_def intro!: exI [of _ "bm_set (frames h) k"])
  ultimately show ?thesis using that k(1) by blast
qed

lemma takes_trans:
  assumes "takes [b] h h1" "takes new h1 h'"
  shows "takes (b # new) h h'"
proof -
  have "scanned h1 = scanned h" using assms(1) by (auto simp: takes_def scanned_def)
  then show ?thesis using assms unfolding takes_def by auto
qed

lemma add_blocks_ok:
  assumes "bm_ok h" "n \<le> free_frames h" "0 < n \<longrightarrow> length bs + n \<le> cap"
  shows "\<exists>new h'. add_blocks n cap bs h = Some (bs @ new, h') \<and> length new = n \<and> takes new h h'"
  using assms
proof (induction n arbitrary: bs h)
  case 0
  then show ?case by (intro exI [of _ "[]"] exI [of _ h]) (auto simp: takes_def intro!: exI [of _ "frames h"])
next
  case (Suc n)
  obtain b h1 where b: "first_frame h = Some b" "set_frame (b * 0x1000) h = Some h1" "takes [b] h h1"
    using take_frame [OF Suc.prems(1)] Suc.prems(2) by auto
  then have "bm_ok h1" "n \<le> free_frames h1" using Suc.prems(2) by (auto simp: takes_def)
  with Suc.IH [of h1 "bs @ [b]"] Suc.prems(3) obtain new h'
    where "add_blocks n cap (bs @ [b]) h1 = Some (bs @ b # new, h')" "length new = n" "takes new h1 h'" by auto
  then show ?case using b Suc.prems(3) takes_trans [OF b(3)]
    by (intro exI [of _ "b # new"] exI [of _ h']) simp
qed

section \<open>Files own their frames\<close>

definition blk :: "tmpfs \<Rightarrow> addr \<Rightarrow> nat \<Rightarrow> u32 option" where
  "blk s a i = do { t \<leftarrow> tfiles s a; nth_opt (tf_blocks t) i }"

text \<open>Every block is a marked frame that belongs to one place of one file only.\<close>
definition tmpfs_inv :: "tmpfs \<Rightarrow> bool" where
  "tmpfs_inv s \<longleftrightarrow> bm_ok (hp s) \<and> window_ok (buf_space s) (hp s) \<and>
     (\<forall>a t. tfiles s a = Some t \<longrightarrow> array_ok t) \<and>
     (\<forall>a i b. blk s a i = Some b \<longrightarrow> unat b < scanned (hp s) \<and> bm (frames (hp s)) (unat b)) \<and>
     (\<forall>a i a' i' b. blk s a i = Some b \<longrightarrow> blk s a' i' = Some b \<longrightarrow> a = a' \<and> i = i')"

lemma tmpfs_invD:
  assumes "tmpfs_inv s"
  shows "bm_ok (hp s)" "window_ok (buf_space s) (hp s)" "tfiles s a = Some t \<Longrightarrow> array_ok t"
    "blk s a i = Some b \<Longrightarrow> unat b < scanned (hp s)" "blk s a i = Some b \<Longrightarrow> bm (frames (hp s)) (unat b)"
    "blk s a i = Some b \<Longrightarrow> blk s a' i' = Some b \<Longrightarrow> a = a' \<and> i = i'"
  using assms unfolding tmpfs_inv_def by blast+

lemma block_20: "tmpfs_inv s \<Longrightarrow> blk s a i = Some b \<Longrightarrow> unat b < 2 ^ 20"
  using tmpfs_invD(1,4) scanned_le [of "hp s"] by (force simp: bm_ok_def)

lemma blk_grown:
  assumes "tfiles s a = Some t" "tf_blocks t' = tf_blocks t @ new"
  shows "blk (s\<lparr>tnext := nx, hp := h, tfiles := (tfiles s)(a \<mapsto> t')\<rparr>) a' i =
    (if a' = a \<and> length (tf_blocks t) \<le> i then nth_opt new (i - length (tf_blocks t)) else blk s a' i)"
  using assms by (auto simp: blk_def nth_opt_def nth_append)

lemma tmpfs_inv_take:
  assumes s: "tmpfs_inv s" and t: "tfiles s a = Some t" "tf_blocks t' = tf_blocks t @ new" "array_ok t'"
    and k: "takes new (hp s) h" and h: "h' = h\<lparr>tbls := T\<rparr>" "window_ok (buf_space s) h'"
  shows "tmpfs_inv (s\<lparr>tnext := nx, hp := h', tfiles := (tfiles s)(a \<mapsto> t')\<rparr>)"
    (is "tmpfs_inv ?s")
proof -
  note b = blk_grown [OF t(1,2), where h = h' and nx = nx]
  have k1: "distinct (map unat new)" "\<forall>b \<in> set new. unat b < scanned (hp s) \<and> \<not> bm (frames (hp s)) (unat b)"
    "\<And>k. bm (frames h') k \<longleftrightarrow> bm (frames (hp s)) k \<or> k \<in> unat ` set new" "scanned h' = scanned (hp s)" "bm_ok h'"
    using k h(1) unfolding takes_def by (auto simp: scanned_def bm_ok_def)
  have old: "unat x < scanned (hp s) \<and> bm (frames (hp s)) (unat x)" if "blk s a' i = Some x" for a' i x
    using tmpfs_invD(4,5) [OF s that] by simp
  show ?thesis unfolding tmpfs_inv_def b
  proof (intro conjI allI impI)
    show "bm_ok (hp ?s)" "window_ok (buf_space ?s) (hp ?s)" using k1(5) h(2) by simp_all
    show "array_ok x" if "tfiles ?s a' = Some x" for a' x
      using that tmpfs_invD(3) [OF s] t(3) by (auto split: if_splits)
  next
    fix a' i x
    assume "(if a' = a \<and> length (tf_blocks t) \<le> i then nth_opt new (i - length (tf_blocks t)) else blk s a' i) = Some x"
    then show "unat x < scanned (hp ?s)" "bm (frames (hp ?s)) (unat x)"
      using old k1 by (auto simp: nth_opt_eq_Some split: if_splits)
  next
    fix a1 i1 a2 i2 x
    assume "(if a1 = a \<and> length (tf_blocks t) \<le> i1 then nth_opt new (i1 - length (tf_blocks t)) else blk s a1 i1) = Some x"
      "(if a2 = a \<and> length (tf_blocks t) \<le> i2 then nth_opt new (i2 - length (tf_blocks t)) else blk s a2 i2) = Some x"
    moreover have "i = j" if "nth_opt new i = Some x" "nth_opt new j = Some x" for i j
      using that k1(1) by (auto simp: nth_opt_eq_Some distinct_map nth_eq_iff_index_eq)
    moreover have "False" if "nth_opt new i = Some x" "blk s a' j = Some x" for i a' j
      using that(1) k1(2) old [OF that(2)] by (auto simp: nth_opt_eq_Some)
    ultimately show "a1 = a2" "i1 = i2"
      using tmpfs_invD(6) [OF s, of a1 i1 x a2 i2]
      by (auto split: if_splits) (metis le_add_diff_inverse)+
  qed
qed

section \<open>Contents\<close>

definition capacity :: "tmpfs \<Rightarrow> addr \<Rightarrow> nat" where
  "capacity s a = (case tfiles s a of Some t \<Rightarrow> 4096 * length (tf_blocks t) | None \<Rightarrow> 0)"

text \<open>Byte \<open>i\<close> of a file.\<close>
definition file_byte :: "tmpfs \<Rightarrow> addr \<Rightarrow> nat \<Rightarrow> u8" where
  "file_byte s a i = fbyte (phys (hp s)) (unat (the (blk s a (i div 4096)))) (i mod 4096)"

lemma blk_capacity: "i < capacity s a \<Longrightarrow> \<exists>b. blk s a (i div 4096) = Some b"
  by (auto simp: capacity_def blk_def div_less_iff_less_mult split: option.splits)

text \<open>Fields of the file at \<open>a\<close> other than its array, and all other files, are kept.\<close>
definition keeps_files :: "addr \<Rightarrow> tmpfs \<Rightarrow> tmpfs \<Rightarrow> bool" where
  "keeps_files a s s' \<longleftrightarrow> (\<exists>h t t' nx. tfiles s a = Some t \<and> same_file t t' \<and> tnext s \<le> nx \<and>
     s' = s\<lparr>tnext := nx, hp := h, tfiles := (tfiles s)(a \<mapsto> t')\<rparr>)"

text \<open>The bytes \<open>bs\<close> have been written to the file at \<open>a\<close> from position \<open>lo\<close> on.\<close>
definition written :: "addr \<Rightarrow> nat \<Rightarrow> u8 list \<Rightarrow> tmpfs \<Rightarrow> tmpfs \<Rightarrow> bool" where
  "written a lo bs s s' \<longleftrightarrow> keeps_files a s s' \<and> capacity s a \<le> capacity s' a \<and>
     (bs \<noteq> [] \<longrightarrow> lo + length bs \<le> capacity s' a) \<and>
     (\<forall>i < length bs. file_byte s' a (lo + i) = bs ! i) \<and>
     (\<forall>a' i. i < capacity s a' \<longrightarrow> \<not> (a' = a \<and> lo \<le> i \<and> i < lo + length bs) \<longrightarrow> file_byte s' a' i = file_byte s a' i)"

lemma keeps_files_trans:
  assumes "keeps_files a s s1" "keeps_files a s1 s2"
  shows "keeps_files a s s2"
proof -
  obtain h t t' nx where 1: "tfiles s a = Some t" "same_file t t'" "tnext s \<le> nx"
    "s1 = s\<lparr>tnext := nx, hp := h, tfiles := (tfiles s)(a \<mapsto> t')\<rparr>"
    using assms(1) unfolding keeps_files_def by blast
  obtain h2 t2 ny where 2: "same_file t' t2" "nx \<le> ny" "s2 = s1\<lparr>tnext := ny, hp := h2, tfiles := (tfiles s1)(a \<mapsto> t2)\<rparr>"
    using assms(2) 1(4) unfolding keeps_files_def by auto
  show ?thesis unfolding keeps_files_def
    by (intro exI [of _ h2] exI [of _ t] exI [of _ t2] exI [of _ ny])
       (use 1 2 same_file_trans [OF 1(2) 2(1)] in simp)
qed

lemma keeps_capacity: "keeps_files a s s' \<Longrightarrow> a' \<noteq> a \<Longrightarrow> capacity s' a' = capacity s a'"
  by (auto simp: keeps_files_def capacity_def)

lemma written_append:
  assumes "written a lo xs s s1" "written a (lo + length xs) ys s1 s2"
  shows "written a lo (xs @ ys) s s2"
proof -
  have c: "capacity s a' \<le> capacity s1 a'" for a'
    using assms(1) keeps_capacity [of a s s1 a'] by (cases "a' = a") (auto simp: written_def)
  have "file_byte s2 a (lo + i) = (xs @ ys) ! i" if "i < length (xs @ ys)" for i
  proof (cases "i < length xs")
    case True
    moreover have "lo + length xs \<le> capacity s1 a" using assms(1) True by (auto simp: written_def)
    ultimately have "file_byte s2 a (lo + i) = file_byte s1 a (lo + i)" using assms(2) by (simp add: written_def)
    then show ?thesis using assms(1) True by (simp add: written_def nth_append)
  next
    case False
    then have "lo + i = lo + length xs + (i - length xs)" by simp
    then have "file_byte s2 a (lo + i) = ys ! (i - length xs)" using assms(2) that False unfolding written_def
      by (metis length_append add_less_cancel_left le_add_diff_inverse not_less)
    then show ?thesis using False by (simp add: nth_append)
  qed
  moreover have "file_byte s2 a' i = file_byte s a' i"
    if "i < capacity s a'" "\<not> (a' = a \<and> lo \<le> i \<and> i < lo + length (xs @ ys))" for a' i
  proof -
    have "file_byte s2 a' i = file_byte s1 a' i" using assms(2) that c [of a'] unfolding written_def by force
    moreover have "file_byte s1 a' i = file_byte s a' i" using assms(1) that unfolding written_def by force
    ultimately show ?thesis by simp
  qed
  moreover have "lo + length (xs @ ys) \<le> capacity s2 a" if "xs @ ys \<noteq> []"
    using that assms by (cases "ys = []") (auto simp: written_def add.assoc)
  moreover have "keeps_files a s s2" "capacity s a \<le> capacity s2 a"
    using assms keeps_files_trans unfolding written_def by (blast, simp)
  ultimately show ?thesis unfolding written_def by blast
qed

lemma written_Nil: "tfiles s a = Some t \<Longrightarrow> written a lo [] s s"
  by (auto simp: written_def keeps_files_def map_upd_triv same_file_refl intro!: exI [of _ "hp s"] exI [of _ t] exI [of _ "tnext s"])

section \<open>Writing\<close>

lemma takes_phys: "takes new h h' \<Longrightarrow> phys h' = phys h" by (auto simp: takes_def)

text \<open>What creating block \<open>i\<close> leaves of the array: a larger one, in a bin if it had to grow.\<close>
definition grown :: "nat \<Rightarrow> tmpfs_file \<Rightarrow> tmpfs \<Rightarrow> addr \<Rightarrow> bool" where
  "grown i t s a \<longleftrightarrow> (\<exists>t'. tfiles s a = Some t' \<and> tf_pointers t \<le> tf_pointers t' \<and>
     (tf_pointers t \<le> i \<or> tf_bin t \<noteq> None \<longrightarrow> tf_bin t' \<noteq> None))"

text \<open>A block is created if it is missing, and shown in the window.\<close>
lemma getset_create:
  assumes s: "tmpfs_inv s" and t: "tfiles s a = Some t" and free: "Suc i - length (tf_blocks t) \<le> free_frames (hp s)"
    and i: "i < 2 ^ 19" "i < tf_pointers t \<or> covers t"
  obtains s' b where "tmpfs_file_getset_block a i True s = Some (buf_space s, s')" "tmpfs_inv s'" "blk s' a i = Some b"
    "shows_frame (buf_space s) (unat b) (hp s')" "keeps_files a s s'" "phys (hp s') = phys (hp s)"
    "\<forall>a' j. blk s a' j \<noteq> None \<longrightarrow> blk s' a' j = blk s a' j"
    "capacity s' a = max (capacity s a) (4096 * Suc i)"
    "free_frames (hp s') = free_frames (hp s) - (Suc i - length (tf_blocks t))" "buf_space s \<noteq> 0" "grown i t s' a"
proof -
  obtain t' nx where e: "embiggen i t s = Some (t', s\<lparr>tnext := nx\<rparr>)" "tnext s \<le> nx" "same_file t t'"
    "tf_blocks t' = tf_blocks t" "array_ok t'" "i < tf_pointers t'" "tf_pointers t \<le> tf_pointers t'"
    "tf_pointers t \<le> i \<or> tf_bin t \<noteq> None \<longrightarrow> tf_bin t' \<noteq> None"
    using embiggen_ok [OF tmpfs_invD(3) [OF s t] i] by blast
  define n where "n = Suc i - length (tf_blocks t)"
  obtain new h where k: "add_blocks n (tf_pointers t') (tf_blocks t) (hp s) = Some (tf_blocks t @ new, h)" "length new = n"
    "takes new (hp s) h"
    using add_blocks_ok [OF tmpfs_invD(1) [OF s], of n "tf_blocks t" "tf_pointers t'"] free e(6) n_def by auto
  define bs where "bs = tf_blocks t @ new"
  have len: "i < length bs" using k(2) by (simp add: bs_def n_def)
  have w: "window_ok (buf_space s) h" using k(3) tmpfs_invD(2) [OF s] by (auto simp: takes_def)
  define s1 where "s1 h' = s\<lparr>tnext := nx, hp := h', tfiles := (tfiles s)(a \<mapsto> t'\<lparr>tf_blocks := bs\<rparr>)\<rparr>" for h'
  have ok: "array_ok (t'\<lparr>tf_blocks := bs\<rparr>)" using e(4-6) k(2) by (auto simp: array_ok_def bs_def n_def)
  have inv1: "tmpfs_inv (s1 (h\<lparr>tbls := T\<rparr>))" if "window_ok (buf_space s) (h\<lparr>tbls := T\<rparr>)" for T
    unfolding s1_def by (rule tmpfs_inv_take [OF s t _ ok k(3) refl that]) (simp add: bs_def)
  have bi: "blk (s1 h') a i = Some (bs ! i)" for h' using len by (simp add: s1_def blk_def)
  have "unat (bs ! i) < 2 ^ 20" using block_20 [OF inv1 bi, of "tbls h"] w by simp
  then obtain T where T: "map_window (buf_space s) (bs ! i) h = Some (h\<lparr>tbls := T\<rparr>)"
    "window_ok (buf_space s) (h\<lparr>tbls := T\<rparr>)" "shows_frame (buf_space s) (unat (bs ! i)) (h\<lparr>tbls := T\<rparr>)"
    by (rule map_window_ok [OF w])
  have g: "tmpfs_file_getset_block a i True s = Some (buf_space s, s1 (h\<lparr>tbls := T\<rparr>))"
    using t e(1,4) k(1) T(1) by (simp add: tmpfs_file_getset_block_def n_def bs_def s1_def)
  have fr: "free_frames (h\<lparr>tbls := T\<rparr>) = free_frames (hp s) - n"
    using k(2,3) by (auto simp: takes_def free_frames_def scanned_def)
  have kf: "keeps_files a s (s1 (h\<lparr>tbls := T\<rparr>))"
    using t e(2) same_file_blocks [OF e(3)] unfolding keeps_files_def s1_def by blast
  have gr: "grown i t (s1 (h\<lparr>tbls := T\<rparr>)) a" using e(7,8) by (simp add: grown_def s1_def)
  have old: "\<forall>a' j. blk s a' j \<noteq> None \<longrightarrow> blk (s1 h') a' j = blk s a' j" for h'
    using t by (auto simp: s1_def bs_def blk_def nth_opt_def nth_append split: if_splits)
  have c: "capacity (s1 h') a = max (capacity s a) (4096 * Suc i)" for h'
    using t k(2) by (auto simp: capacity_def s1_def bs_def n_def)
  have z: "buf_space s \<noteq> 0" using tmpfs_invD(2) [OF s] by (simp add: window_ok_def)
  show ?thesis
    by (rule that [OF g inv1 [OF T(2)] bi _ kf _ old c _ z gr])
       (use T(3) fr takes_phys [OF k(3)] in \<open>simp_all add: s1_def n_def\<close>)
qed

lemma upd_phys [simp]:
  "blk (s\<lparr>hp := h\<rparr>) = blk s" "capacity (s\<lparr>hp := h\<rparr>) = capacity s" "free_frames (h\<lparr>phys := m\<rparr>) = free_frames h"
  "bm_ok (h\<lparr>phys := m\<rparr>) = bm_ok h" "scanned (h\<lparr>phys := m\<rparr>) = scanned h"
  by (simp_all add: fun_eq_iff blk_def capacity_def free_frames_def bm_ok_def scanned_def)

lemma tmpfs_inv_phys: "tmpfs_inv s \<Longrightarrow> tmpfs_inv (s\<lparr>hp := (hp s)\<lparr>phys := m\<rparr>\<rparr>)"
  by (simp add: tmpfs_inv_def)

lemma keeps_files_hp:
  assumes "keeps_files a s s1"
  shows "keeps_files a s (s1\<lparr>hp := h\<rparr>)"
proof -
  obtain g t t' nx where "tfiles s a = Some t" "same_file t t'" "tnext s \<le> nx"
    "s1 = s\<lparr>tnext := nx, hp := g, tfiles := (tfiles s)(a \<mapsto> t')\<rparr>"
    using assms unfolding keeps_files_def by blast
  then show ?thesis unfolding keeps_files_def
    by (intro exI [of _ h] exI [of _ t] exI [of _ t'] exI [of _ nx]) simp
qed

lemma get_at_eq: "n = 0 \<or> 0 \<le> p \<and> nat p + n \<le> length buf \<Longrightarrow>
    \<exists>bs. get_at buf p n = Some bs \<and> bs = take n (drop (nat p) buf) \<and> length bs = n"
  by (auto simp: get_at_def)

lemma write_part_ok:
  assumes s: "tmpfs_inv s" and t: "tfiles s a = Some t" and free: "Suc i - length (tf_blocks t) \<le> free_frames (hp s)"
    and i: "i < 2 ^ 19" "i < tf_pointers t \<or> covers t"
    and o: "k + n \<le> 4096" and p: "n = 0 \<or> 0 \<le> p \<and> nat p + n \<le> length buf"
  shows "\<exists>s'. write_part a i (of_nat k) n p buf s = Some s' \<and> tmpfs_inv s' \<and> grown i t s' a \<and>
    written a (4096 * i + k) (take n (drop (nat p) buf)) s s' \<and> capacity s' a = max (capacity s a) (4096 * Suc i) \<and>
    free_frames (hp s') = free_frames (hp s) - (Suc i - length (tf_blocks t))"
proof -
  obtain s1 b where s1: "tmpfs_file_getset_block a i True s = Some (buf_space s, s1)" "tmpfs_inv s1" "blk s1 a i = Some b"
    "shows_frame (buf_space s) (unat b) (hp s1)" "keeps_files a s s1" "phys (hp s1) = phys (hp s)"
    "\<forall>a' j. blk s a' j \<noteq> None \<longrightarrow> blk s1 a' j = blk s a' j"
    "capacity s1 a = max (capacity s a) (4096 * Suc i)"
    "free_frames (hp s1) = free_frames (hp s) - (Suc i - length (tf_blocks t))" "buf_space s \<noteq> 0" "grown i t s1 a"
    by (rule getset_create [OF s t free i])
  obtain bs where bs: "get_at buf p n = Some bs" "bs = take n (drop (nat p) buf)" "length bs = n"
    using get_at_eq [OF p] by blast
  have b20: "unat b < 2 ^ 20" by (rule block_20 [OF s1(2,3)])
  obtain m where m: "poke (buf_space s + of_nat k) bs (hp s1) = Some ((hp s1)\<lparr>phys := m\<rparr>)"
    "\<And>f' j. f' < 2 ^ 20 \<Longrightarrow> j < 4096 \<Longrightarrow>
      fbyte m f' j = (if f' = unat b \<and> k \<le> j \<and> j < k + length bs then bs ! (j - k) else fbyte (phys (hp s1)) f' j)"
    using poke_window [OF s1(4) _ b20, of k bs] o bs(3) by auto
  define s2 where "s2 = s1\<lparr>hp := (hp s1)\<lparr>phys := m\<rparr>\<rparr>"
  have w: "write_part a i (of_nat k) n p buf s = Some s2"
    using s1(1,10) bs(1) m(1) by (simp add: write_part_def s2_def)
  have new: "file_byte s2 a (4096 * i + k + j) = bs ! j" if "j < length bs" for j
  proof -
    have "k + j < 4096" using that o bs(3) by simp
    then have "(4096 * i + k + j) div 4096 = i" "(4096 * i + k + j) mod 4096 = k + j"
      by (simp_all add: add.assoc)
    then show ?thesis using m(2) [OF b20, of "k + j"] that o bs(3) s1(3) by (simp add: file_byte_def s2_def)
  qed
  have old: "file_byte s2 a' j = file_byte s a' j"
    if j: "j < capacity s a'" "\<not> (a' = a \<and> 4096 * i + k \<le> j \<and> j < 4096 * i + k + length bs)" for a' j
  proof -
    obtain x where x: "blk s a' (j div 4096) = Some x" using blk_capacity [OF j(1)] by blast
    then have x1: "blk s1 a' (j div 4096) = Some x" using s1(7) by simp
    have "\<not> (unat x = unat b \<and> k \<le> j mod 4096 \<and> j mod 4096 < k + length bs)"
    proof
      assume *: "unat x = unat b \<and> k \<le> j mod 4096 \<and> j mod 4096 < k + length bs"
      then have "x = b" by (simp add: word_unat_eq_iff)
      then have "a' = a" "j div 4096 = i" using tmpfs_invD(6) [OF s1(2) x1] s1(3) by simp_all
      moreover have "j = 4096 * (j div 4096) + j mod 4096" by simp
      ultimately show False using * j(2) by (metis add.assoc add_le_cancel_left add_less_cancel_left)
    qed
    then show ?thesis
      using m(2) [OF block_20 [OF s1(2) x1], of "j mod 4096"] x x1 s1(6) by (auto simp: file_byte_def s2_def)
  qed
  have "keeps_files a s s2" unfolding s2_def by (rule keeps_files_hp [OF s1(5)])
  then have "written a (4096 * i + k) bs s s2"
    unfolding written_def using new old s1(8) o bs(3) by (auto simp: s2_def)
  moreover have "grown i t s2 a" using s1(11) by (simp add: grown_def s2_def)
  ultimately show ?thesis using w s1 tmpfs_inv_phys [OF s1(2), of m] bs(2) by (auto simp: s2_def)
qed

definition nblk :: "tmpfs \<Rightarrow> addr \<Rightarrow> nat" where
  "nblk s a = capacity s a div 4096"

lemma nblk_eq: "tfiles s a = Some t \<Longrightarrow> nblk s a = length (tf_blocks t)"
  by (simp add: nblk_def capacity_def)

text \<open>
  One part of a write to the file at \<open>a\<close> of the bytes \<open>buf\<close> from \<open>lo\<close> on: all before position
  \<open>x\<close> has been written since state \<open>s0\<close>, there are frames for \<open>E\<close> blocks, and the array has the slots
  for them or keeps its blocks when it grows.
\<close>
definition room :: "nat \<Rightarrow> nat \<Rightarrow> tmpfs_file \<Rightarrow> bool" where
  "room E i t \<longleftrightarrow> E \<le> tf_pointers t \<or> tf_bin t \<noteq> None \<or> tf_pointers t \<le> i \<and> covers t"

lemma room_attributes: "room E i (t\<lparr>tf_atime := x, tf_mtime := y, tf_length := z\<rparr>) = room E i t"
  by (cases "tf_bin t") (simp_all add: room_def covers_def old_bytes_def array_word_def)

definition writing :: "addr \<Rightarrow> nat \<Rightarrow> u8 list \<Rightarrow> nat \<Rightarrow> tmpfs \<Rightarrow> nat \<Rightarrow> tmpfs \<Rightarrow> bool" where
  "writing a lo buf E s0 x s \<longleftrightarrow> tmpfs_inv s \<and> written a lo (take (x - lo) buf) s0 s \<and>
     E - nblk s a \<le> free_frames (hp s) \<and> E \<le> 2 ^ 19 \<and> (\<exists>t. tfiles s a = Some t \<and> room E (x div 4096) t)"

lemma write_step:
  assumes "writing a lo buf E s0 x s" "x = 4096 * i + k" "k + n \<le> 4096" "Suc i \<le> E" "lo \<le> x" "x + n - lo \<le> length buf"
    "p = int (x - lo)" "k < 4096"
  shows "\<exists>s'. write_part a i (of_nat k) n p buf s = Some s' \<and> writing a lo buf E s0 (x + n) s' \<and> 4096 * Suc i \<le> capacity s' a"
proof -
  note s = assms(1) [unfolded writing_def]
  have "x div 4096 = i" using assms(2,8) by simp
  then obtain t where t: "tfiles s a = Some t" "room E i t" using s by auto
  have i: "i < 2 ^ 19" "i < tf_pointers t \<or> covers t" using s assms(4) t(2) by (auto simp: room_def covers_def)
  have free: "Suc i - length (tf_blocks t) \<le> free_frames (hp s)" using s assms(4) nblk_eq [OF t(1)] by auto
  have p: "n = 0 \<or> 0 \<le> p \<and> nat p + n \<le> length buf" using assms(5,6,7) by auto
  obtain s' where s': "write_part a i (of_nat k) n p buf s = Some s'" "tmpfs_inv s'" "grown i t s' a"
    "written a (4096 * i + k) (take n (drop (nat p) buf)) s s'" "capacity s' a = max (capacity s a) (4096 * Suc i)"
    "free_frames (hp s') = free_frames (hp s) - (Suc i - length (tf_blocks t))"
    using write_part_ok [OF s [THEN conjunct1] t(1) free i assms(3) p] by blast
  have l: "length (take (x - lo) buf) = x - lo" using assms(5,6) by simp
  have e: "x + n - lo = (x - lo) + n" "nat p = x - lo" using assms(5,7) by simp_all
  have "take (x - lo) buf @ take n (drop (nat p) buf) = take (x + n - lo) buf" unfolding e take_add ..
  then have "written a lo (take (x + n - lo) buf) s0 s'"
    using written_append [of a lo "take (x - lo) buf" s0 s "take n (drop (nat p) buf)" s'] s s'(4) l assms(2,5) by simp
  moreover have "nblk s' a = max (nblk s a) (Suc i)" using s'(5) t by (auto simp: nblk_def capacity_def max_def)
  then have "E - nblk s' a \<le> free_frames (hp s')" using s s'(6) nblk_eq [OF t(1)] assms(4) by auto
  moreover have "\<exists>t'. tfiles s' a = Some t' \<and> room E ((x + n) div 4096) t'"
    using s'(3) t(2) by (auto simp: grown_def room_def)
  ultimately show ?thesis using s s'(1,2,5) by (auto simp: writing_def)
qed

lemma write_blocks_ok:
  assumes "writing a (unat lo) buf E s0 (4096 * b) s" "unat lo div 4096 < b" "b \<le> e" "e \<le> E" "4096 * e - unat lo \<le> length buf"
  shows "\<exists>s'. write_blocks a lo [b..<e] (b - unat lo div 4096) buf s = Some (e - unat lo div 4096, s') \<and>
    writing a (unat lo) buf E s0 (4096 * e) s'"
  using assms(1,2,3,5)
proof (induction "e - b" arbitrary: b s)
  case 0
  then show ?case by auto
next
  case (Suc n)
  have be: "b < e" using Suc.hyps(2) by simp
  have bs: "unat BLOCKSIZE = 4096" "b \<noteq> unat (lo div BLOCKSIZE)" "uint (lo mod BLOCKSIZE) = int (unat lo mod 4096)"
    using Suc.prems(2) by (simp_all add: BLOCKSIZE_def unat_div uint_nat unat_mod)
  have lo: "unat lo \<le> 4096 * b" using Suc.prems(2) by (simp add: div_less_iff_less_mult)
  have le: "4096 * b + 4096 - unat lo \<le> length buf" using be Suc.prems(4) by linarith
  have "unat lo = 4096 * (unat lo div 4096) + unat lo mod 4096" by simp
  then have p: "int (4096 * (b - unat lo div 4096)) - int (unat lo mod 4096) = int (4096 * b - unat lo)"
    using Suc.prems(2) lo by linarith
  have s4: "Suc b \<le> E" using be assms(4) by simp
  from write_step [OF Suc.prems(1) _ _ s4 lo le refl, of 0] obtain s1 where
    s1: "write_part a b 0 4096 (int (4096 * b - unat lo)) buf s = Some s1" "writing a (unat lo) buf E s0 (4096 * Suc b) s1"
    by (auto simp: ac_simps)
  have "n = e - Suc b" "unat lo div 4096 < Suc b" "Suc b \<le> e" using Suc.hyps(2) Suc.prems(2) be by simp_all
  from Suc.hyps(1) [OF this(1) s1(2) this(2,3) Suc.prems(4)] obtain s' where
    s': "write_blocks a lo [Suc b..<e] (Suc b - unat lo div 4096) buf s1 = Some (e - unat lo div 4096, s')"
    "writing a (unat lo) buf E s0 (4096 * e) s'" by blast
  have "Suc (b - unat lo div 4096) = Suc b - unat lo div 4096" using Suc.prems(2) by simp
  then show ?case using s1(1) s' p bs be by (simp add: upt_conv_Cons)
qed

text \<open>The state once \<^verbatim>\<open>write_tmpfs\<close> has set the times and the length.\<close>
definition stamped :: "addr \<Rightarrow> u32 \<Rightarrow> tmpfs \<Rightarrow> tmpfs_file \<Rightarrow> tmpfs" where
  "stamped a en s t = s\<lparr>tfiles := (tfiles s)(a \<mapsto> t\<lparr>tf_atime := now (clk s), tf_mtime := now (clk s),
     tf_length := (if en > tf_length t then en else tf_length t)\<rparr>)\<rparr>"

lemma stamped_facts:
  assumes "tfiles s a = Some t"
  shows "blk (stamped a en s t) = blk s" "capacity (stamped a en s t) = capacity s" "hp (stamped a en s t) = hp s"
    "tmpfs_inv (stamped a en s t) = tmpfs_inv s" "file_byte (stamped a en s t) = file_byte s" "nblk (stamped a en s t) = nblk s"
proof -
  let ?s = "stamped a en s t"
  show b: "blk ?s = blk s" using assms by (auto simp: fun_eq_iff blk_def stamped_def)
  show c: "capacity ?s = capacity s" using assms by (auto simp: fun_eq_iff capacity_def stamped_def)
  show h: "hp ?s = hp s" by (simp add: stamped_def)
  show "tmpfs_inv ?s = tmpfs_inv s" unfolding tmpfs_inv_def b h using assms by (auto simp: stamped_def)
  show "file_byte ?s = file_byte s" by (simp add: fun_eq_iff file_byte_def b h)
  show "nblk ?s = nblk s" by (simp add: fun_eq_iff nblk_def c)
qed

text \<open>The block numbers and remainders that reading and writing from \<open>off\<close> to \<open>en\<close> compute.\<close>
lemma block_arith:
  fixes off en :: u32
  assumes "unat off \<le> unat en" "unat en < 2 ^ 31"
  defines "q \<equiv> unat off div 4096" and "e \<equiv> unat en div 4096"
  shows "off mod BLOCKSIZE = of_nat (unat off mod 4096)" "unat (off div BLOCKSIZE) = q" "unat (en div BLOCKSIZE) = e"
    "en - en div BLOCKSIZE * BLOCKSIZE = of_nat (unat en mod 4096)"
    "unat (BLOCKSIZE - of_nat (unat off mod 4096)) = 4096 - unat off mod 4096"
    "copy_len (en - off) = Some (unat en - unat off)" "copy_len (of_nat (unat en mod 4096)) = Some (unat en mod 4096)"
    "(of_nat (unat en mod 4096) :: u32) = 0 \<longleftrightarrow> unat en mod 4096 = 0"
    "off div BLOCKSIZE = en div BLOCKSIZE \<longleftrightarrow> q = e"
proof -
  have md: "w mod BLOCKSIZE = of_nat (unat w mod 4096)" for w :: u32
    by (simp add: BLOCKSIZE_def word_unat_eq_iff unat_mod unat_of_nat_u32)
  show "off mod BLOCKSIZE = of_nat (unat off mod 4096)" by (rule md)
  show m: "unat (off div BLOCKSIZE) = q" "unat (en div BLOCKSIZE) = e"
    by (simp_all add: BLOCKSIZE_def unat_div q_def e_def)
  show "en - en div BLOCKSIZE * BLOCKSIZE = of_nat (unat en mod 4096)"
    unfolding minus_div_mult_eq_mod by (rule md)
  show "unat (BLOCKSIZE - of_nat (unat off mod 4096)) = 4096 - unat off mod 4096"
    by (simp add: BLOCKSIZE_def unat_sub_if' unat_of_nat_u32)
  have "unat (en - off) = unat en - unat off" using assms(1) by (simp add: unat_sub_if')
  then show "copy_len (en - off) = Some (unat en - unat off)" using assms(2) sint_small [of "en - off"] by (simp add: copy_len_def)
  have r: "unat (of_nat (unat en mod 4096) :: u32) = unat en mod 4096" by (simp add: unat_of_nat_u32)
  then show "copy_len (of_nat (unat en mod 4096)) = Some (unat en mod 4096)"
    using sint_small [of "of_nat (unat en mod 4096)"] by (simp add: copy_len_def)
  show "(of_nat (unat en mod 4096) :: u32) = 0 \<longleftrightarrow> unat en mod 4096 = 0" 
    unfolding word_unat_eq_iff [of "of_nat (unat en mod 4096) :: u32"] r unsigned_0 ..
  show "off div BLOCKSIZE = en div BLOCKSIZE \<longleftrightarrow> q = e" unfolding word_unat_eq_iff m ..
qed

lemma part_position:
  assumes "unat off div 4096 < e"
  shows "unat off < 4096 * e"
    "int (unat BLOCKSIZE * (e - unat off div 4096)) - uint (off mod BLOCKSIZE) = int (4096 * e - unat off)"
proof -
  let ?q = "unat off div 4096" and ?r = "unat off mod 4096"
  have d: "unat off = 4096 * ?q + ?r" "?r < 4096" by simp_all
  show lt: "unat off < 4096 * e" using assms by (simp add: div_less_iff_less_mult)
  have B: "uint (off mod BLOCKSIZE) = int ?r" "unat BLOCKSIZE = 4096" by (simp_all add: BLOCKSIZE_def uint_nat unat_mod)
  have "4096 * (e - ?q) = (4096 * e - unat off) + ?r" using d assms by linarith
  then show "int (unat BLOCKSIZE * (e - ?q)) - uint (off mod BLOCKSIZE) = int (4096 * e - unat off)"
    unfolding B by (simp only: of_nat_add)
qed

lemma write_tmpfs_ok:
  assumes s: "tmpfs_inv s" and t: "tfiles s (device node) = Some t" and len: "length buf = unat sz"
    and fit: "unat off + unat sz < 2 ^ 31"
    and free: "Suc ((unat off + unat sz) div 4096) - nblk s (device node) \<le> free_frames (hp s)"
    and room: "room (Suc ((unat off + unat sz) div 4096)) (unat off div 4096) t"
  shows "\<exists>s'. write_tmpfs node off sz buf s = Some (sz, s') \<and> tmpfs_inv s' \<and>
    written (device node) (unat off) buf (stamped (device node) (off + sz) s t) s' \<and>
    unat off + unat sz \<le> capacity s' (device node)"
proof -
  define a lo en where "a = device node" and "lo = unat off" and "en = off + sz"
  define s0 where "s0 = stamped a en s t"
  have ue: "unat en = lo + unat sz" using fit unat_add_lem [of off sz] by (simp add: lo_def en_def)
  define q e r where "q = lo div 4096" and "e = unat en div 4096" and "r = unat en mod 4096"
  have f: "tmpfs_inv s0" "nblk s0 a = nblk s a" "hp s0 = hp s" using stamped_facts t s by (simp_all add: s0_def a_def)
  have t0: "\<exists>t'. tfiles s0 a = Some t' \<and> room (Suc e) (lo div 4096) t'"
    using room ue by (simp add: s0_def stamped_def e_def lo_def room_attributes)
  have e19: "Suc e \<le> 2 ^ 19" using ue fit by (simp add: e_def lo_def Suc_le_eq div_less_iff_less_mult)
  have w0: "writing a lo buf (Suc e) s0 lo s0"
    using f free t0 written_Nil ue e19 by (auto simp: writing_def e_def lo_def a_def)
  have "unat off \<le> unat en" "unat en < 2 ^ 31" using ue fit by (simp_all add: lo_def)
  note m = block_arith [OF this, folded lo_def, folded q_def e_def r_def]
  have sz: "en - off = sz" "unat en - lo = unat sz" using ue by (simp_all add: en_def)
  have nsz: "copy_len sz = Some (unat sz)" using m(6) unfolding sz .
  have upd: "upd_file a (\<lambda>t. t\<lparr>tf_atime := now (clk s), tf_mtime := now (clk s),
      tf_length := (if en > tf_length t then en else tf_length t)\<rparr>) s = Some s0"
    using t by (simp add: upd_file_def s0_def stamped_def a_def)
  note W = write_tmpfs_def a_def [symmetric] en_def [symmetric] Let_def upd Option.bind.bind_lunit
  have d: "lo = 4096 * q + lo mod 4096" "lo mod 4096 < 4096" by (simp_all add: q_def)
  have d': "lo + unat sz = 4096 * e + r" "r < 4096" using ue by (simp_all add: e_def r_def)
  have "\<exists>s'. write_tmpfs node off sz buf s = Some (sz, s') \<and> writing a lo buf (Suc e) s0 (lo + unat sz) s' \<and>
      lo + unat sz \<le> capacity s' a"
  proof (cases "q = e")
    case True
    have fit1: "lo mod 4096 + unat sz \<le> 4096" using d d' True by linarith
    obtain s' where s': "write_part a q (of_nat (lo mod 4096)) (unat sz) 0 buf s0 = Some s'"
      "writing a lo buf (Suc e) s0 (lo + unat sz) s'" "4096 * Suc q \<le> capacity s' a"
      using write_step [OF w0 d(1) fit1, of 0] len True d(2) by auto
    have "lo + unat sz \<le> capacity s' a" using s'(3) d' True by simp
    moreover have "write_tmpfs node off sz buf s = Some (sz, s')"
      unfolding W m(9) if_P [OF True] m(1,2) sz(1) nsz Option.bind.bind_lunit s'(1) by simp
    ultimately show ?thesis using s'(2) by blast
  next
    case False
    have qe: "q < e" using False div_le_mono [of lo "unat en" 4096] ue by (simp add: q_def e_def)
    have k: "lo mod 4096 + (4096 - lo mod 4096) \<le> 4096" by simp
    have x: "lo + (4096 - lo mod 4096) = 4096 * Suc q" using d unfolding mult_Suc_right by linarith
    have le: "4096 * Suc q - lo \<le> length buf" "4096 * e - lo \<le> length buf" "4096 * Suc q \<le> 4096 * e"
      using qe d' len by simp_all
    obtain s1 where s1: "write_part a q (of_nat (lo mod 4096)) (4096 - lo mod 4096) 0 buf s0 = Some s1"
      "writing a lo buf (Suc e) s0 (4096 * Suc q) s1"
      using write_step [OF w0 d(1) k, of 0] qe le(1) x d(2) by auto
    obtain s2 where s2: "write_blocks a off [Suc q..<e] (Suc q - q) buf s1 = Some (e - q, s2)" "writing a lo buf (Suc e) s0 (4096 * e) s2"
      using write_blocks_ok [of a off buf "Suc e" s0 "Suc q" s1 e, folded lo_def, folded q_def] s1(2) qe le(2) by auto
    have wb: "write_blocks a off [q..<e] 0 buf s0 = Some (e - q, s2)"
      using s1(1) s2(1) qe m(1,2,5) by (simp add: upt_conv_Cons)
    note pp = part_position [of off e, folded lo_def, folded q_def, OF qe]
    have "\<exists>s3. (if r \<noteq> 0 then write_part a e 0 r (int (4096 * e - lo)) buf s2 else Some s2) = Some s3 \<and>
        writing a lo buf (Suc e) s0 (lo + unat sz) s3 \<and> lo + unat sz \<le> capacity s3 a"
    proof (cases "r = 0")
      case True
      then have "written a lo buf s0 s2" "buf \<noteq> []" using s2(2) d' pp(1) len by (auto simp: writing_def)
      then show ?thesis using True s2(2) d' len by (auto simp: written_def)
    next
      case r0: False
      have f: "4096 * e = 4096 * e + 0" "0 + r \<le> 4096" "Suc e \<le> Suc e" "lo \<le> 4096 * e" "4096 * e + r - lo \<le> length buf"
        using d' len pp(1) by simp_all
      obtain s3 where "write_part a e 0 r (int (4096 * e - lo)) buf s2 = Some s3" "writing a lo buf (Suc e) s0 (4096 * e + r) s3"
        "4096 * Suc e \<le> capacity s3 a"
        using write_step [OF s2(2) f refl] by auto
      then show ?thesis using r0 d' by auto
    qed
    then obtain s3 where s3: "(if r \<noteq> 0 then write_part a e 0 r (int (4096 * e - lo)) buf s2 else Some s2) = Some s3"
      "writing a lo buf (Suc e) s0 (lo + unat sz) s3" "lo + unat sz \<le> capacity s3 a" by blast
    have "write_tmpfs node off sz buf s = Some (sz, s3)"
      unfolding W m(9) if_not_P [OF False] m(2,3,4,7,8) wb prod.case pp(2) s3(1) sz(1) ..
    then show ?thesis using s3(2,3) by blast
  qed
  then show ?thesis using len by (auto simp: writing_def a_def s0_def lo_def en_def)
qed

section \<open>Reading\<close>


lemma tmpfs_inv_tbls:
  assumes "tmpfs_inv s" "window_ok (buf_space s) ((hp s)\<lparr>tbls := T\<rparr>)"
  shows "tmpfs_inv (s\<lparr>hp := (hp s)\<lparr>tbls := T\<rparr>\<rparr>)"
  using assms by (simp add: tmpfs_inv_def bm_ok_def scanned_def)

lemma getset_lookup:
  assumes s: "tmpfs_inv s" and b: "blk s a i = Some b"
  obtains T where "tmpfs_file_getset_block a i False s = Some (buf_space s, s\<lparr>hp := (hp s)\<lparr>tbls := T\<rparr>\<rparr>)"
    "tmpfs_inv (s\<lparr>hp := (hp s)\<lparr>tbls := T\<rparr>\<rparr>)" "shows_frame (buf_space s) (unat b) ((hp s)\<lparr>tbls := T\<rparr>)" "buf_space s \<noteq> 0"
proof -
  obtain T where T: "map_window (buf_space s) b (hp s) = Some ((hp s)\<lparr>tbls := T\<rparr>)"
    "window_ok (buf_space s) ((hp s)\<lparr>tbls := T\<rparr>)" "shows_frame (buf_space s) (unat b) ((hp s)\<lparr>tbls := T\<rparr>)"
    by (rule map_window_ok [OF tmpfs_invD(2) [OF s] block_20 [OF s b]])
  have g: "tmpfs_file_getset_block a i False s = Some (buf_space s, s\<lparr>hp := (hp s)\<lparr>tbls := T\<rparr>\<rparr>)"
    using b T(1) by (auto simp: blk_def tmpfs_file_getset_block_def nth_opt_eq_Some split: bind_splits)
  have "buf_space s \<noteq> 0" using tmpfs_invD(2) [OF s] by (simp add: window_ok_def)
  then show ?thesis using that [OF g tmpfs_inv_tbls [OF s T(2)] T(3)] by blast
qed




text \<open>The state once \<^verbatim>\<open>read_tmpfs\<close> has set the access time.\<close>
definition touched :: "addr \<Rightarrow> tmpfs \<Rightarrow> tmpfs_file \<Rightarrow> tmpfs" where
  "touched a s t = s\<lparr>tfiles := (tfiles s)(a \<mapsto> t\<lparr>tf_atime := now (clk s)\<rparr>)\<rparr>"



section \<open>Releasing blocks\<close>

lemma clear_frames_ok:
  assumes "bm_ok h" "\<forall>b \<in> set bs. unat b < scanned h"
  shows "\<exists>F. clear_frames bs h = Some (h\<lparr>frames := F\<rparr>) \<and> length F = length (frames h) \<and>
    (\<forall>k. bm F k \<longleftrightarrow> bm (frames h) k \<and> k \<notin> unat ` set bs)"
  using assms
proof (induction bs arbitrary: h)
  case Nil
  then show ?case by (intro exI [of _ "frames h"]) simp
next
  case (Cons b bs)
  have lt: "unat b < unat (nframes h)" using Cons.prems(2) scanned_le [of h] by auto
  have b20: "unat b < 2 ^ 20" using lt Cons.prems(1) by (simp add: bm_ok_def)
  have ix: "unat b div 32 < length (frames h)" by (rule bm_ok_index [OF Cons.prems(1) lt])
  let ?h = "h\<lparr>frames := bm_clear (frames h) (unat b)\<rparr>"
  have c: "clear_frame (b * 0x1000) h = Some ?h" using clear_frame_eq [OF b20 ix] by simp
  have "bm_ok ?h" "\<forall>x \<in> set bs. unat x < scanned ?h" using Cons.prems by (simp_all add: scanned_def)
  from Cons.IH [OF this] obtain F where "clear_frames bs ?h = Some (?h\<lparr>frames := F\<rparr>)" "length F = length (frames ?h)"
    "\<forall>k. bm F k \<longleftrightarrow> bm (frames ?h) k \<and> k \<notin> unat ` set bs" by blast
  then show ?case using c bm_clear_iff [OF ix] by auto
qed

lemma file_blocks:
  "tmpfs_inv s \<Longrightarrow> tfiles s a = Some t \<Longrightarrow> b \<in> set (tf_blocks t) \<Longrightarrow> \<exists>i. blk s a i = Some b"
  by (auto simp: blk_def in_set_conv_nth nth_opt_eq_Some)

text \<open>Taking all blocks from one file and clearing their bits.\<close>
lemma tmpfs_inv_release:
  assumes s: "tmpfs_inv s" and t: "tfiles s a = Some t"
    and F: "length F = length (frames (hp s))" "\<And>k. bm F k \<longleftrightarrow> bm (frames (hp s)) k \<and> k \<notin> unat ` set (tf_blocks t)"
    and s': "hp s' = (hp s)\<lparr>frames := F\<rparr>" "buf_space s' = buf_space s" "\<And>i. blk s' a i = None"
      "\<And>a' i. a' \<noteq> a \<Longrightarrow> blk s' a' i = blk s a' i" "\<And>a' x. tfiles s' a' = Some x \<Longrightarrow> array_ok x"
  shows "tmpfs_inv s'"
proof -
  have other: "blk s a' i = Some b \<and> a' \<noteq> a" if "blk s' a' i = Some b" for a' i b
    using that s'(3,4) by (cases "a' = a") auto
  have nin: "unat b \<notin> unat ` set (tf_blocks t)" if "blk s a' i = Some b" "a' \<noteq> a" for a' i b
  proof
    assume "unat b \<in> unat ` set (tf_blocks t)"
    then have "b \<in> set (tf_blocks t)" by (auto simp: word_unat_eq_iff [symmetric])
    then obtain j where "blk s a j = Some b" using file_blocks [OF s t] by blast
    then show False using tmpfs_invD(6) [OF s that(1)] that(2) by blast
  qed
  show ?thesis unfolding tmpfs_inv_def
  proof (intro conjI allI impI)
    show "bm_ok (hp s')" "window_ok (buf_space s') (hp s')" using tmpfs_invD(1,2) [OF s] F(1) s'(1,2) by simp_all
    show "array_ok x" if "tfiles s' a' = Some x" for a' x by (rule s'(5) [OF that])
    show "unat b < scanned (hp s')" "bm (frames (hp s')) (unat b)" if "blk s' a' i = Some b" for a' i b
    proof -
      have o: "blk s a' i = Some b" "a' \<noteq> a" using other [OF that] by simp_all
      show "unat b < scanned (hp s')" using tmpfs_invD(4) [OF s o(1)] s'(1) by (simp add: scanned_def)
      show "bm (frames (hp s')) (unat b)" using tmpfs_invD(5) [OF s o(1)] nin [OF o] F(2) s'(1) by simp
    qed
    show "a1 = a2" "i1 = i2" if "blk s' a1 i1 = Some b" "blk s' a2 i2 = Some b" for a1 i1 a2 i2 b
      using other [OF that(1)] other [OF that(2)] tmpfs_invD(6) [OF s] by blast+
  qed
qed

text \<open>Operations that change neither frames nor blocks.\<close>
lemma tmpfs_inv_same:
  assumes "tmpfs_inv s" "hp s' = hp s" "buf_space s' = buf_space s" "blk s' = blk s"
    "\<And>a x. tfiles s' a = Some x \<Longrightarrow> array_ok x"
  shows "tmpfs_inv s'"
  using assms unfolding tmpfs_inv_def by simp

text \<open>New addresses are unused.\<close>
definition fresh :: "tmpfs \<Rightarrow> bool" where
  "fresh s \<longleftrightarrow> (\<forall>a. tnext s \<le> a \<longrightarrow> tfiles s a = None)"

text \<open>
  The array of the file that is written has the slots for the write, or has been moved into a bin
  before, or the write starts behind the slots and moving the array keeps the blocks in use.
\<close>
definition array_room :: "fs_node_t \<Rightarrow> u32 \<Rightarrow> u32 \<Rightarrow> tmpfs \<Rightarrow> bool" where
  "array_room n off sz s \<longleftrightarrow> (\<forall>t. tfiles s (device n) = Some t \<longrightarrow>
     room (Suc ((unat off + unat sz) div 4096)) (unat off div 4096) t)"

text \<open>
  Any sequence of operations.  Writes end below 2 GB, find free frames for their blocks, and do
  not make the array of blocks grow in a way that loses some of them.
\<close>
inductive tmpfs_run :: "tmpfs \<Rightarrow> tmpfs \<Rightarrow> bool" for s where
  start: "tmpfs_run s s"
| create: "tmpfs_run s u \<Longrightarrow> create_tmpfs n nm perm u = Some v \<Longrightarrow> tmpfs_run s v"
| mkdir: "tmpfs_run s u \<Longrightarrow> mkdir_tmpfs n nm perm u = Some v \<Longrightarrow> tmpfs_run s v"
| symlink: "tmpfs_run s u \<Longrightarrow> symlink_tmpfs n target nm u = Some v \<Longrightarrow> tmpfs_run s v"
| unlink: "tmpfs_run s u \<Longrightarrow> unlink_tmpfs n nm u = Some v \<Longrightarrow> tmpfs_run s v"
| opened: "tmpfs_run s u \<Longrightarrow> open_tmpfs n fl u = Some v \<Longrightarrow> tmpfs_run s v"
| chmod: "tmpfs_run s u \<Longrightarrow> chmod_tmpfs n mode u = Some (r, v) \<Longrightarrow> tmpfs_run s v"
| chown: "tmpfs_run s u \<Longrightarrow> chown_tmpfs n uu gg u = Some (r, v) \<Longrightarrow> tmpfs_run s v"
| written: "tmpfs_run s u \<Longrightarrow> write_tmpfs n off sz buf u = Some (r, v) \<Longrightarrow> length buf = unat sz \<Longrightarrow>
    unat off + unat sz < 2 ^ 31 \<Longrightarrow> Suc ((unat off + unat sz) div 4096) \<le> free_frames (hp u) \<Longrightarrow>
    array_room n off sz u \<Longrightarrow> tmpfs_run s v"
| reads: "tmpfs_run s u \<Longrightarrow> read_tmpfs n off sz buf u = Some (r, buf', v) \<Longrightarrow> tmpfs_run s v"

text \<open>No file is longer than its blocks.\<close>
definition covered :: "tmpfs \<Rightarrow> bool" where
  "covered s \<longleftrightarrow> (\<forall>a t. tfiles s a = Some t \<longrightarrow> unat (tf_length t) \<le> 4096 * length (tf_blocks t))"

text \<open>What every operation keeps.\<close>
definition tmpfs_ok :: "tmpfs \<Rightarrow> bool" where
  "tmpfs_ok s \<longleftrightarrow> tmpfs_inv s \<and> fresh s \<and> covered s"

lemma tmpfs_inv_create:
  assumes "tmpfs_inv s" "fresh s" "tfiles s' = (tfiles s)(tnext s \<mapsto> t)" "tf_blocks t = []" "array_ok t"
    "hp s' = hp s" "buf_space s' = buf_space s" "tnext s' = tnext s + 1" "covered s" "tf_length t = 0"
  shows "tmpfs_ok s'"
  unfolding tmpfs_ok_def
proof (intro conjI)
  have "tfiles s (tnext s) = None" using assms(2) by (simp add: fresh_def)
  then have "blk s' = blk s" using assms(3,4) by (auto simp: fun_eq_iff blk_def)
  then show "tmpfs_inv s'"
    by (rule tmpfs_inv_same [OF assms(1,6,7)]) (use assms(3,5) tmpfs_invD(3) [OF assms(1)] in \<open>auto split: if_splits\<close>)
  show "fresh s'" using assms(2,3,8) by (simp add: fresh_def)
  show "covered s'" using assms(3,9,10) by (simp add: covered_def)
qed

lemma dir_insert_fields:
  "dir_insert d a s = Some s' \<Longrightarrow>
    tfiles s' = tfiles s \<and> hp s' = hp s \<and> buf_space s' = buf_space s \<and> tnext s' = tnext s"
  by (auto simp: dir_insert_def split: bind_splits)

lemma tmpfs_ok_dirs:
  assumes "tmpfs_ok s" "tfiles s' = tfiles s" "hp s' = hp s" "buf_space s' = buf_space s" "tnext s \<le> tnext s'"
  shows "tmpfs_ok s'"
proof -
  have "blk s' = blk s" using assms(2) by (simp add: fun_eq_iff blk_def)
  then show ?thesis using assms unfolding tmpfs_ok_def tmpfs_inv_def fresh_def covered_def by auto
qed

lemma create_tmpfs_ok:
  assumes "tmpfs_ok s" "create_tmpfs n nm perm s = Some s'"
  shows "tmpfs_ok s'"
proof -
  consider "s' = s" | u where "dir_insert (device n) (tnext s) u = Some s'" "tnext u = tnext s + 1" "hp u = hp s" "buf_space u = buf_space s"
    "tfiles u = (tfiles s)(tnext s \<mapsto> (new_file nm s)\<lparr>tf_mask := uint perm, tf_uid := cur_user s, tf_gid := cur_user s\<rparr>)"
    using assms(2) by (fastforce simp: create_tmpfs_def tmpfs_file_new_def upd_file_def Let_def split: bind_splits option.splits)
  then show ?thesis
  proof cases
    case (2 u)
    show ?thesis using dir_insert_fields [OF 2(1)] 2 assms(1) unfolding tmpfs_ok_def
      by (intro tmpfs_inv_create [unfolded tmpfs_ok_def, of s]) (auto simp: new_file_def array_ok_def)
  qed (use assms(1) in simp)
qed

lemma symlink_tmpfs_ok:
  assumes "tmpfs_ok s" "symlink_tmpfs n target nm s = Some s'"
  shows "tmpfs_ok s'"
proof -
  consider "s' = s" | u where "dir_insert (device n) (tnext s) u = Some s'" "tnext u = tnext s + 1" "hp u = hp s" "buf_space u = buf_space s"
    "tfiles u = (tfiles s)(tnext s \<mapsto> (new_file nm s)\<lparr>tf_type := TMPFS_TYPE_LINK, tf_target := target\<rparr>)"
    using assms(2) by (fastforce simp: symlink_tmpfs_def tmpfs_file_new_def upd_file_def Let_def split: bind_splits option.splits)
  then show ?thesis
  proof cases
    case (2 u)
    show ?thesis using dir_insert_fields [OF 2(1)] 2 assms(1) unfolding tmpfs_ok_def
      by (intro tmpfs_inv_create [unfolded tmpfs_ok_def, of s]) (auto simp: new_file_def array_ok_def)
  qed (use assms(1) in simp)
qed

lemma mkdir_tmpfs_ok:
  assumes "tmpfs_ok s" "mkdir_tmpfs n nm perm s = Some s'"
  shows "tmpfs_ok s'"
proof -
  consider "s' = s" | u where "dir_insert (device n) (tnext s) u = Some s'" "tnext u = tnext s + 1" "hp u = hp s" "buf_space u = buf_space s"
    "tfiles u = tfiles s"
    using assms(2) by (fastforce simp: mkdir_tmpfs_def tmpfs_dir_new_def Let_def split: bind_splits option.splits)
  then show ?thesis
  proof cases
    case (2 u)
    show ?thesis using dir_insert_fields [OF 2(1)] 2 by (intro tmpfs_ok_dirs [OF assms(1)]) simp_all
  qed (use assms(1) in simp)
qed

lemma release_ok:
  fixes s s' :: tmpfs
  assumes "tmpfs_ok s" "tfiles s a = Some t" "clear_frames (tf_blocks t) (hp s) = Some h" "hp s' = h"
    "buf_space s' = buf_space s" "tnext s' = tnext s" "tfiles s' = (tfiles s)(a := x)"
    "x = None \<or> (\<exists>t'. x = Some t' \<and> tf_blocks t' = [] \<and> tf_length t' = 0 \<and> tf_pointers t' = tf_pointers t \<and> tf_bin t' = tf_bin t)"
  shows "tmpfs_ok s'"
proof -
  have s: "tmpfs_inv s" "fresh s" "covered s" using assms(1) by (simp_all add: tmpfs_ok_def)
  have "\<forall>b \<in> set (tf_blocks t). unat b < scanned (hp s)" using file_blocks [OF s(1) assms(2)] tmpfs_invD(4) [OF s(1)] by blast
  from clear_frames_ok [OF tmpfs_invD(1) [OF s(1)] this] obtain F where
    F: "clear_frames (tf_blocks t) (hp s) = Some ((hp s)\<lparr>frames := F\<rparr>)" "length F = length (frames (hp s))"
    "\<And>k. bm F k \<longleftrightarrow> bm (frames (hp s)) k \<and> k \<notin> unat ` set (tf_blocks t)" by blast
  have h: "hp s' = (hp s)\<lparr>frames := F\<rparr>" using F(1) assms(3,4) by simp
  have "tmpfs_inv s'"
  proof (rule tmpfs_inv_release [OF s(1) assms(2) F(2,3) h assms(5)])
    show "blk s' a i = None" for i using assms(7,8) by (auto simp: blk_def)
    show "blk s' a' i = blk s a' i" if "a' \<noteq> a" for a' i using that assms(7) by (simp add: blk_def)
    show "array_ok y" if "tfiles s' a' = Some y" for a' y
      using that assms(7,8) tmpfs_invD(3) [OF s(1)] assms(2) by (cases "a' = a") (auto simp: array_ok_def)
  qed
  moreover have "fresh s'" using s(2) assms(2,6,7) by (auto simp: fresh_def)
  moreover have "covered s'" using s(3) assms(7,8) by (auto simp: covered_def)
  ultimately show "tmpfs_ok s'" by (simp add: tmpfs_ok_def)
qed

lemma open_tmpfs_ok:
  assumes "tmpfs_ok s" "open_tmpfs n fl s = Some s'"
  shows "tmpfs_ok s'"
proof -
  consider "s' = s" | t h where "tfiles s (device n) = Some t" "clear_frames (tf_blocks t) (hp s) = Some h" "hp s' = h"
    "buf_space s' = buf_space s" "tnext s' = tnext s"
    "tfiles s' = (tfiles s)(device n := Some (t\<lparr>tf_behind := (\<lambda>i. if i < length (tf_blocks t) then 0 else tf_behind t i),
       tf_blocks := [], tf_length := 0\<rparr>))"
    using assms(2) by (fastforce simp: open_tmpfs_def upd_file_def split: bind_splits if_splits)
  then show ?thesis
    by cases (use assms(1) in simp, rule release_ok [OF assms(1)], assumption+, simp)
qed

lemma unlink_tmpfs_ok:
  assumes "tmpfs_ok s" "unlink_tmpfs n nm s = Some s'"
  shows "tmpfs_ok s'"
proof -
  consider "s' = s" | a t h where "tfiles s a = Some t" "clear_frames (tf_blocks t) (hp s) = Some h" "hp s' = h"
    "buf_space s' = buf_space s" "tnext s' = tnext s" "tfiles s' = (tfiles s)(a := None)"
    using assms(2) by (fastforce simp: unlink_tmpfs_def tmpfs_file_free_def split: bind_splits option.splits)
  then show ?thesis
    by cases (use assms(1) in simp, rule release_ok [OF assms(1)], assumption+, simp)
qed

lemma attribute_ok:
  assumes "tmpfs_ok s" "tfiles s a = Some t" "tf_blocks t' = tf_blocks t" "tf_pointers t' = tf_pointers t" "tf_length t' = tf_length t"
    "tf_bin t' = tf_bin t"
  shows "tmpfs_ok (s\<lparr>tfiles := (tfiles s)(a \<mapsto> t')\<rparr>)" (is "tmpfs_ok ?s")
proof -
  have s: "tmpfs_inv s" "fresh s" "covered s" using assms(1) by (simp_all add: tmpfs_ok_def)
  have "blk ?s = blk s" using assms(2,3) by (auto simp: fun_eq_iff blk_def)
  then have "tmpfs_inv ?s"
    by (rule tmpfs_inv_same [OF s(1), rotated 2]) (use tmpfs_invD(3) [OF s(1)] assms(2-4,6) in \<open>auto simp: array_ok_def split: if_splits\<close>)
  moreover have "fresh ?s" using s(2) assms(2) by (auto simp: fresh_def)
  moreover have "covered ?s" using s(3) assms(2,3,5) by (auto simp: covered_def)
  ultimately show ?thesis by (simp add: tmpfs_ok_def)
qed

lemma chmod_chown_tmpfs_ok:
  assumes "tmpfs_ok s"
  shows "chmod_tmpfs n mode s = Some (r, s') \<Longrightarrow> tmpfs_ok s'" "chown_tmpfs n u g s = Some (r, s') \<Longrightarrow> tmpfs_ok s'"
  using attribute_ok [OF assms] tmpfs_ok_dirs [OF assms]
  by (auto simp: chmod_tmpfs_def chown_tmpfs_def split: option.splits bind_splits)

lemma read_part_inv:
  assumes "tmpfs_ok s" "read_part a i from n p buf s = Some (buf', s')"
  shows "tmpfs_ok s'"
proof (cases "blk s a i")
  case None
  then show ?thesis using assms(2)
    by (auto simp: read_part_def tmpfs_file_getset_block_def blk_def nth_opt_def split: bind_splits if_splits)
next
  case (Some b)
  have s: "tmpfs_inv s" "fresh s" "covered s" using assms(1) by (simp_all add: tmpfs_ok_def)
  obtain T where "tmpfs_file_getset_block a i False s = Some (buf_space s, s\<lparr>hp := (hp s)\<lparr>tbls := T\<rparr>\<rparr>)"
    "tmpfs_inv (s\<lparr>hp := (hp s)\<lparr>tbls := T\<rparr>\<rparr>)"
    by (rule getset_lookup [OF s(1) Some])
  then show ?thesis using assms(2) s(2,3)
    by (auto simp: read_part_def tmpfs_ok_def fresh_def covered_def split: bind_splits if_splits)
qed

lemma read_blocks_inv:
  "read_blocks a off bs k buf s = Some (k', buf', s') \<Longrightarrow> tmpfs_ok s \<Longrightarrow> tmpfs_ok s'"
proof (induction bs arbitrary: k buf s)
  case (Cons b bs)
  then show ?case by (auto split: bind_splits if_splits dest!: read_part_inv [rotated])
qed simp

lemma read_tmpfs_keeps:
  assumes "tmpfs_ok s" "read_tmpfs n off sz buf s = Some (r, buf', s')"
  shows "tmpfs_ok s'"
proof -
  obtain t where t: "tfiles s (device n) = Some t"
    using assms(2) by (cases "tfiles s (device n)") (simp_all add: read_tmpfs_def upd_file_def Let_def)
  define a s0 w where "a = device n" and "s0 = touched a s t"
    and "w = (if off + sz > tf_length t then tf_length t else off + sz)"
  have u: "upd_file a (\<lambda>t. t\<lparr>tf_atime := now (clk s)\<rparr>) s = Some s0" "tfiles s0 a = Some (t\<lparr>tf_atime := now (clk s)\<rparr>)"
    "(if off + sz > tf_length (t\<lparr>tf_atime := now (clk s)\<rparr>) then tf_length (t\<lparr>tf_atime := now (clk s)\<rparr>) else off + sz) = w"
    using t by (simp_all add: upd_file_def touched_def s0_def a_def w_def)
  have ok: "tmpfs_ok s0" unfolding s0_def touched_def a_def by (rule attribute_ok [OF assms(1) t]) simp_all
  note P = read_part_inv [OF ok] and B = read_blocks_inv [OF _ ok]
  have Q: "tmpfs_ok v" if "read_blocks a off bs k b s0 = Some (k', b', v')" "read_part a i from m p b' v' = Some (b'', v)"
    for bs k b k' b' v' i "from" m p b'' v
    by (rule read_part_inv [OF B [OF that(1)] that(2)])
  show ?thesis using assms(2) ok
    unfolding read_tmpfs_def a_def [symmetric] Let_def u Option.bind.bind_lunit
    by (auto split: bind_splits if_splits dest: P Q B)
qed

lemma written_covered:
  assumes "covered s" "tfiles s a = Some t" "written a lo buf (stamped a (off + sz) s t) s'"
    "unat off + unat sz \<le> capacity s' a" "unat off + unat sz < 2 ^ 31"
  shows "covered s'"
proof -
  have uo: "unat (off + sz) = unat off + unat sz" using assms(5) unat_add_lem [of off sz] by simp
  obtain h t0 t1 nx where k: "tfiles (stamped a (off + sz) s t) a = Some t0" "same_file t0 t1"
    "s' = (stamped a (off + sz) s t)\<lparr>tnext := nx, hp := h, tfiles := (tfiles (stamped a (off + sz) s t))(a \<mapsto> t1)\<rparr>"
    using assms(3) unfolding written_def keeps_files_def by blast
  have c: "4096 * length (tf_blocks t) \<le> 4096 * length (tf_blocks t1)"
    using assms(3) k(1) unfolding written_def stamped_facts [OF assms(2)]
    by (simp add: k(3) capacity_def assms(2) stamped_def)
  have "unat off + unat sz \<le> 4096 * length (tf_blocks t1)" using assms(4) by (simp add: k(3) capacity_def)
  moreover have "unat (tf_length t) \<le> 4096 * length (tf_blocks t1)"
    using c assms(1,2) unfolding covered_def by (meson order_trans)
  ultimately have "unat (tf_length t1) \<le> 4096 * length (tf_blocks t1)"
    using k(1) uo same_file_length [OF k(2)] by (auto simp: stamped_def)
  then show ?thesis using assms(1) by (auto simp: covered_def k(3) stamped_def split: if_splits)
qed

lemma write_tmpfs_keeps:
  assumes "tmpfs_ok s" "write_tmpfs n off sz buf s = Some (r, s')" "length buf = unat sz" "unat off + unat sz < 2 ^ 31"
    "Suc ((unat off + unat sz) div 4096) \<le> free_frames (hp s)" "array_room n off sz s"
  shows "tmpfs_ok s'"
proof -
  have s: "tmpfs_inv s" "fresh s" "covered s" using assms(1) by (simp_all add: tmpfs_ok_def)
  obtain t where t: "tfiles s (device n) = Some t"
    using assms(2) by (cases "tfiles s (device n)") (simp_all add: write_tmpfs_def upd_file_def Let_def)
  have "Suc ((unat off + unat sz) div 4096) - nblk s (device n) \<le> free_frames (hp s)" using assms(5) by simp
  moreover have "room (Suc ((unat off + unat sz) div 4096)) (unat off div 4096) t"
    using assms(6) t by (simp add: array_room_def)
  ultimately obtain "tmpfs_inv s'" "written (device n) (unat off) buf (stamped (device n) (off + sz) s t) s'"
    "unat off + unat sz \<le> capacity s' (device n)"
    using write_tmpfs_ok [OF s(1) t assms(3,4)] assms(2) by fastforce
  then
  have w: "tmpfs_inv s'" "written (device n) (unat off) buf (stamped (device n) (off + sz) s t) s'"
    "unat off + unat sz \<le> capacity s' (device n)" by auto
  have "device n < tnext s" using s(2) t by (metis fresh_def not_less option.distinct(1))
  moreover have "tnext s \<le> tnext s'" "dom (tfiles s') \<subseteq> insert (device n) (dom (tfiles s))"
    using w(2) by (auto simp: written_def keeps_files_def stamped_def)
  ultimately have "fresh s'" using s(2) unfolding fresh_def by (metis domIff insertE le_trans not_less subsetD)
  moreover have "covered s'" by (rule written_covered [OF s(3) t w(2,3) assms(4)])
  ultimately show ?thesis using w by (simp add: tmpfs_ok_def)
qed

lemma tmpfs_run_ok: "tmpfs_run s s' \<Longrightarrow> tmpfs_ok s \<Longrightarrow> tmpfs_ok s'"
  by (induction rule: tmpfs_run.induct)
     (blast intro: create_tmpfs_ok mkdir_tmpfs_ok symlink_tmpfs_ok unlink_tmpfs_ok open_tmpfs_ok chmod_chown_tmpfs_ok
        read_tmpfs_keeps write_tmpfs_keeps)+
section \<open>Properties of files\<close>



text \<open>A file system with one file of one block in one directory; its window is page 1 of the small machine.\<close>
definition small_tmpfs :: tmpfs where
  "small_tmpfs = \<lparr>hp = mm.extend small_mm (alloc.fields 0 [] 0 0 0 0 0 0 0),
     tfiles = [7 \<mapsto> \<lparr>tf_name = [97], tf_type = TMPFS_TYPE_FILE, tf_mask = 0, tf_uid = 0, tf_gid = 0, tf_atime = 0,
       tf_mtime = 0, tf_ctime = 0, tf_length = 5, tf_pointers = 2, tf_blocks = [0], tf_behind = (\<lambda>_. 0), tf_bin = None,
       tf_target = []\<rparr>],
     tdirs = [3 \<mapsto> \<lparr>td_name = tmp_name, td_mask = 511, td_uid = 0, td_gid = 0, td_atime = 0, td_mtime = 0,
       td_ctime = 0, td_files = [7]\<rparr>],
     tmpfs_root = 3, buf_space = 0x1000,
     clk = \<lparr>boot_time = 0, timerticks = 0, timer_subticks = 0, timer_drift = 0, drift' = 0, behind = False,
       time_to_run = 0, task_switching = 0\<rparr>, cur_user = 0, tnext = 8, garbage = (\<lambda>_ _. 0)\<rparr>"

lemma small_tmpfs_ok: "tmpfs_ok small_tmpfs"
proof -
  have "bm_ok (hp small_tmpfs)" by (simp add: small_tmpfs_def small_mm_def bm_ok_def mm.defs)
  moreover have "window_ok (buf_space small_tmpfs) (hp small_tmpfs)"
    by (auto simp: window_ok_def small_tmpfs_def small_mm_def mm.defs get_page_lookup_def nth_opt_def entry_def Let_def)
  ultimately have "tmpfs_inv small_tmpfs"
    by (auto simp: tmpfs_inv_def blk_def small_tmpfs_def small_mm_def mm.defs nth_opt_def scanned_def bm_def array_ok_def
        split: if_splits bind_splits)
  moreover have "fresh small_tmpfs" "covered small_tmpfs" by (auto simp: fresh_def covered_def small_tmpfs_def)
  ultimately show ?thesis by (simp add: tmpfs_ok_def)
qed

lemma small_tmpfs_free: "3 \<le> free_frames (hp small_tmpfs)"
proof -
  have "card {1 :: nat, 2, 3} \<le> free_frames (hp small_tmpfs)" unfolding free_frames_def
    by (rule card_mono) (auto simp: scanned_def small_tmpfs_def small_mm_def bm_def mm.defs)
  then show ?thesis by simp
qed

lemma small_tmpfs_file: "\<exists>t. tfiles small_tmpfs 7 = Some t \<and> tf_pointers t = 2 \<and> covers t"
  by (simp add: small_tmpfs_def covers_def old_bytes_def array_word_def bin_bytes_def BIG_BIN_def NUM_BINS_def SMALLEST_BIN_LOG_def)


text \<open>
  C9. Whatever operations run on the temporary file system, with writes as in \<open>tmpfs_run\<close>, which find
  free frames and do not lose blocks when the array of blocks grows: every block of a file is a frame
  that the allocator has marked as taken, no block belongs to two files or twice to one, and no file
  is longer than the blocks it has.
\<close>
theorem tmpfs_frames_owned:
  assumes "tmpfs_ok s" "tmpfs_run s s'" "blk s' a i = Some b"
  shows "unat b < scanned (hp s') \<and> bm (frames (hp s')) (unat b) \<and> (\<forall>a' i'. blk s' a' i' = Some b \<longrightarrow> a' = a \<and> i' = i) \<and>
    (\<forall>t. tfiles s' a = Some t \<longrightarrow> unat (tf_length t) \<le> 4096 * length (tf_blocks t))"
proof -
  have ok: "tmpfs_inv s'" "covered s'" using tmpfs_run_ok [OF assms(2,1)] by (simp_all add: tmpfs_ok_def)
  show ?thesis using tmpfs_invD(4-6) [OF ok(1)] assms(3) ok(2) unfolding covered_def by metis
qed

lemma small_write_runs:
  "\<exists>s'. tmpfs_run small_tmpfs s' \<and> write_tmpfs (zero_node\<lparr>device := 7\<rparr>) 8192 3 [1, 2, 3] small_tmpfs = Some (3, s') \<and>
     8195 \<le> capacity s' 7"
proof -
  let ?n = "zero_node\<lparr>device := 7\<rparr>"
  obtain t where t: "tfiles small_tmpfs (device ?n) = Some t" "tf_pointers t = 2" "covers t"
    using small_tmpfs_file by auto
  have i: "tmpfs_inv small_tmpfs" using small_tmpfs_ok by (simp add: tmpfs_ok_def)
  have room: "room (Suc ((unat (8192 :: u32) + unat (3 :: u32)) div 4096)) (unat (8192 :: u32) div 4096) t"
    using t by (simp add: room_def)
  have "Suc ((unat (8192 :: u32) + unat (3 :: u32)) div 4096) - nblk small_tmpfs (device ?n) \<le> free_frames (hp small_tmpfs)"
    using small_tmpfs_free by simp
  from write_tmpfs_ok [OF i t(1) _ _ this room, of "[1, 2, 3]"] obtain s' where
    s': "write_tmpfs ?n 8192 3 [1, 2, 3] small_tmpfs = Some (3, s')" "8195 \<le> capacity s' 7" by auto
  have "tmpfs_run small_tmpfs s'"
    by (rule tmpfs_run.written [OF tmpfs_run.start s'(1)]) (use small_tmpfs_free t room in \<open>simp_all add: array_room_def\<close>)
  then show ?thesis using s' by blast
qed

theorem tmpfs_frames_owned_witness:
  "\<exists>s' b. tmpfs_run small_tmpfs s' \<and> blk s' 7 2 = Some b \<and> bm (frames (hp s')) (unat b) \<and>
     (\<nexists>a' i'. (a', i') \<noteq> (7, 2) \<and> blk s' a' i' = Some b)"
proof -
  obtain s' where s': "tmpfs_run small_tmpfs s'" "8195 \<le> capacity s' 7" using small_write_runs by blast
  then obtain b where b: "blk s' 7 2 = Some b" using blk_capacity [of 8192 s' 7] by auto
  from tmpfs_frames_owned [OF small_tmpfs_ok s'(1) b] s'(1) b show ?thesis by blast
qed

section \<open>Releasing and finding files\<close>

lemma distinct_blocks:
  assumes "tmpfs_inv s" "tfiles s a = Some t"
  shows "card (unat ` set (tf_blocks t)) = length (tf_blocks t)"
proof -
  have "distinct (tf_blocks t)" unfolding distinct_conv_nth
  proof (intro allI impI notI)
    fix i j assume ij: "i < length (tf_blocks t)" "j < length (tf_blocks t)" "i \<noteq> j" "tf_blocks t ! i = tf_blocks t ! j"
    then have "blk s a i = Some (tf_blocks t ! j)" "blk s a j = Some (tf_blocks t ! j)"
      using assms(2) by (simp_all add: blk_def nth_opt_def)
    then show False using tmpfs_invD(6) [OF assms(1)] ij(3) by blast
  qed
  moreover have "inj_on unat (set (tf_blocks t))" by (simp add: inj_on_def word_unat_eq_iff)
  ultimately show ?thesis by (simp add: card_image distinct_card)
qed

text \<open>
  C18. Opening a file with the truncation flag empties it, gives exactly its blocks back to the frame
  allocator, and leaves the bytes of all other files as they are.
\<close>
theorem open_truncates:
  assumes "tmpfs_ok s" "tfiles s (device node) = Some t" "fl AND O_TRUNC \<noteq> 0"
  shows "\<exists>s'. open_tmpfs node fl s = Some s' \<and> tmpfs_ok s' \<and>
    tfiles s' (device node) = Some (t\<lparr>tf_behind := (\<lambda>i. if i < length (tf_blocks t) then 0 else tf_behind t i),
      tf_blocks := [], tf_length := 0\<rparr>) \<and>
    free_frames (hp s') = free_frames (hp s) + length (tf_blocks t) \<and>
    (\<forall>a. a \<noteq> device node \<longrightarrow> tfiles s' a = tfiles s a \<and> file_byte s' a = file_byte s a)"
proof -
  have s: "tmpfs_inv s" using assms(1) by (simp add: tmpfs_ok_def)
  have B: "\<forall>b \<in> set (tf_blocks t). unat b < scanned (hp s) \<and> bm (frames (hp s)) (unat b)"
    using file_blocks [OF s assms(2)] tmpfs_invD(4,5) [OF s] by blast
  then obtain F where F: "clear_frames (tf_blocks t) (hp s) = Some ((hp s)\<lparr>frames := F\<rparr>)"
    "\<And>k. bm F k \<longleftrightarrow> bm (frames (hp s)) k \<and> k \<notin> unat ` set (tf_blocks t)"
    using clear_frames_ok [OF tmpfs_invD(1) [OF s], of "tf_blocks t"] by blast
  define s' where "s' = s\<lparr>hp := (hp s)\<lparr>frames := F\<rparr>, tfiles := (tfiles s)(device node \<mapsto>
    t\<lparr>tf_behind := (\<lambda>i. if i < length (tf_blocks t) then 0 else tf_behind t i), tf_blocks := [], tf_length := 0\<rparr>)\<rparr>"
  have o: "open_tmpfs node fl s = Some s'"
    unfolding open_tmpfs_def using assms(2,3) F(1) by (simp add: upd_file_def s'_def)
  have "{k. k < scanned (hp s) \<and> \<not> bm F k} = {k. k < scanned (hp s) \<and> \<not> bm (frames (hp s)) k} \<union> unat ` set (tf_blocks t)"
    using B F(2) by auto
  moreover have "{k. k < scanned (hp s) \<and> \<not> bm (frames (hp s)) k} \<inter> unat ` set (tf_blocks t) = {}" using B by auto
  ultimately have c: "free_frames (hp s') = free_frames (hp s) + length (tf_blocks t)"
    using distinct_blocks [OF s assms(2)] by (simp add: free_frames_def scanned_def s'_def card_Un_disjoint)
  have "file_byte s' a = file_byte s a" if "a \<noteq> device node" for a
    using that by (simp add: fun_eq_iff file_byte_def blk_def s'_def)
  then show ?thesis using o open_tmpfs_ok [OF assms(1) o] c by (auto simp: s'_def)
qed

theorem open_truncates_witness:
  "\<exists>s'. open_tmpfs (zero_node\<lparr>device := 7\<rparr>) 0x400 small_tmpfs = Some s' \<and> tmpfs_ok s' \<and>
     free_frames (hp s') = free_frames (hp small_tmpfs) + 1 \<and> \<not> (\<exists>i. blk s' 7 i \<noteq> None)"
proof -
  obtain t where t: "tfiles small_tmpfs (device (zero_node\<lparr>device := 7\<rparr>)) = Some t" "tf_blocks t = [0]"
    by (simp add: small_tmpfs_def)
  have "(0x400 :: u32) AND O_TRUNC \<noteq> 0" by (simp add: O_TRUNC_def)
  from open_truncates [OF small_tmpfs_ok t(1) this] t(2) show ?thesis by (auto simp: blk_def nth_opt_def)
qed
lemma search_cong:
  "\<forall>a \<in> set as. tmpfs_name s' a = tmpfs_name s a \<Longrightarrow> tmpfs_search s' nm as j = tmpfs_search s nm as j"
  by (induction as arbitrary: j) (auto split: bind_splits)

lemma search_append:
  "tmpfs_search s nm (as @ bs) j =
    (case tmpfs_search s nm as j of Some None \<Rightarrow> tmpfs_search s nm bs (j + length as) | r \<Rightarrow> r)"
  by (induction as arbitrary: j) (auto split: bind_splits option.splits)

lemma search_mem: "tmpfs_search s nm as j = Some (Some (i, a)) \<Longrightarrow> a \<in> set as"
  by (induction as arbitrary: j) (auto split: bind_splits if_splits)

text \<open>No entry of a directory has the name, and all of them have one.\<close>
definition unused_name :: "path \<Rightarrow> tmpfs_dir \<Rightarrow> tmpfs \<Rightarrow> bool" where
  "unused_name nm d s \<longleftrightarrow> (\<forall>a \<in> set (td_files d). \<exists>n. tmpfs_name s a = Some n \<and> n \<noteq> nm \<and> 0 \<notin> set n)"

lemma search_unused:
  assumes "0 \<notin> set nm" "\<forall>a \<in> set as. \<exists>n. tmpfs_name s a = Some n \<and> n \<noteq> nm \<and> 0 \<notin> set n"
  shows "tmpfs_search s nm as j = Some None"
  using assms(2) by (induction as arbitrary: j) (auto simp: str_cmp_0 [OF assms(1)])

lemma create_new:
  fixes perm :: u16
  assumes d: "tdirs s (device p) = Some d" and nm: "0 \<notin> set nm" "unused_name nm d s"
    and new: "tfiles s (tnext s) = None" "tdirs s (tnext s) = None"
  defines "t \<equiv> (new_file nm s)\<lparr>tf_mask := uint perm, tf_uid := cur_user s, tf_gid := cur_user s\<rparr>"
  defines "s' \<equiv> s\<lparr>tfiles := (tfiles s)(tnext s \<mapsto> t), tnext := tnext s + 1,
     tdirs := (tdirs s)(device p \<mapsto> d\<lparr>td_files := td_files d @ [tnext s]\<rparr>)\<rparr>"
  shows "create_tmpfs p nm perm s = Some s'" "tnext s \<notin> set (td_files d)"
    "tmpfs_search s' nm' (td_files d) 0 = tmpfs_search s nm' (td_files d) 0" "tmpfs_name s' (tnext s) = Some nm"
proof -
  have n: "a \<noteq> tnext s" if "a \<in> set (td_files d)" for a
    using nm(2) that new unfolding unused_name_def by (auto simp: tmpfs_name_def)
  have "tmpfs_search s nm (td_files d) 0 = Some None" by (rule search_unused [OF nm(1)]) (use nm(2) in \<open>simp add: unused_name_def\<close>)
  then show "create_tmpfs p nm perm s = Some s'"
    using d by (simp add: create_tmpfs_def tmpfs_file_new_def upd_file_def dir_insert_def Let_def s'_def t_def)
  show "tnext s \<notin> set (td_files d)" using n by blast
  show "tmpfs_name s' (tnext s) = Some nm" by (simp add: tmpfs_name_def s'_def t_def new_file_def)
  show "tmpfs_search s' nm' (td_files d) 0 = tmpfs_search s nm' (td_files d) 0"
    by (rule search_cong) (use n d in \<open>auto simp: tmpfs_name_def s'_def split: option.splits\<close>)
qed

text \<open>
  C17. A file created under an unused name is found under that name with the permission and the
  owner it was created with; creating it again changes nothing, every other name is found as
  before, and unlinking it makes the name unused again.
\<close>
theorem create_finds:
  assumes "tdirs s (device p) = Some d" "0 \<notin> set nm" "unused_name nm d s" "name_fits nm"
    "tfiles s (tnext s) = None" "tdirs s (tnext s) = None"
  shows "\<exists>s' node s''. create_tmpfs p nm perm s = Some s' \<and> finddir_tmpfs p nm s' = Some (Some node) \<and>
    fname node = nm \<and> fmask node = ucast perm \<and> uid node = of_int (cur_user s) \<and> read_p node = READ_TMPFS \<and>
    create_tmpfs p nm perm' s' = Some s' \<and>
    (\<forall>nm'. 0 \<notin> set nm' \<longrightarrow> nm' \<noteq> nm \<longrightarrow> finddir_tmpfs p nm' s' = finddir_tmpfs p nm' s) \<and>
    unlink_tmpfs p nm s' = Some s'' \<and> finddir_tmpfs p nm s'' = Some None"
proof -
  let ?a = "tnext s"
  define t where "t = (new_file nm s)\<lparr>tf_mask := uint perm, tf_uid := cur_user s, tf_gid := cur_user s\<rparr>"
  define s' where "s' = s\<lparr>tfiles := (tfiles s)(tnext s \<mapsto> t), tnext := tnext s + 1,
     tdirs := (tdirs s)(device p \<mapsto> d\<lparr>td_files := td_files d @ [tnext s]\<rparr>)\<rparr>"
  define s'' where "s'' = s'\<lparr>tfiles := (tfiles s')(?a := None), tdirs := (tdirs s')(device p \<mapsto> d)\<rparr>"
  have c: "create_tmpfs p nm perm s = Some s'" "?a \<notin> set (td_files d)"
    "\<And>nm'. tmpfs_search s' nm' (td_files d) 0 = tmpfs_search s nm' (td_files d) 0" "tmpfs_name s' ?a = Some nm"
    unfolding s'_def t_def by (rule create_new [OF assms(1-3,5,6)])+
  have un: "tmpfs_search s nm (td_files d) 0 = Some None"
    by (rule search_unused [OF assms(2)]) (use assms(3) in \<open>simp add: unused_name_def\<close>)
  have d': "tdirs s' (device p) = Some (d\<lparr>td_files := td_files d @ [?a]\<rparr>)" "tfiles s' ?a = Some t" by (simp_all add: s'_def)
  have t: "tf_type t = TMPFS_TYPE_FILE" "tf_name t = nm" "tf_blocks t = []" by (simp_all add: t_def new_file_def)
  have se: "tmpfs_search s' nm (td_files d @ [?a]) 0 = Some (Some (length (td_files d), ?a))"
    using assms(2) by (simp add: search_append c(3) un c(4) str_cmp_0)
  have f: "finddir_tmpfs p nm s' = map_option Some (tmpfs_from_file ?a t)"
    using se t d' by (simp add: finddir_tmpfs_def)
  have again: "create_tmpfs p nm perm' s' = Some s'" using se d' by (simp add: create_tmpfs_def)
  have other: "finddir_tmpfs p nm' s' = finddir_tmpfs p nm' s" if "0 \<notin> set nm'" "nm' \<noteq> nm" for nm'
  proof -
    have "tmpfs_search s' nm' (td_files d @ [?a]) 0 = tmpfs_search s nm' (td_files d) 0"
      using that assms(2) by (simp add: search_append c(3,4) str_cmp_0 split: option.splits)
    then show ?thesis using d' assms(1) c(2)
      by (auto simp: finddir_tmpfs_def s'_def tmpfs_from_dir_def assms(5,6) split: option.splits bind_splits dest: search_mem)
  qed
  have u: "unlink_tmpfs p nm s' = Some s''"
    using se d' t by (simp add: unlink_tmpfs_def tmpfs_file_free_def s''_def)
  have "tmpfs_search s'' nm (td_files d) 0 = tmpfs_search s nm (td_files d) 0"
    by (rule search_cong) (use c(2) assms(1) in \<open>auto simp: tmpfs_name_def s'_def s''_def split: option.splits\<close>)
  then have "finddir_tmpfs p nm s'' = Some None" using un by (simp add: finddir_tmpfs_def s''_def)
  with c(1) f again other u assms(4) t show ?thesis
    by (auto simp: tmpfs_from_file_def t_def)
qed
theorem create_finds_witness:
  "\<exists>s' node s''. create_tmpfs (zero_node\<lparr>device := 3\<rparr>) [98] 438 small_tmpfs = Some s' \<and>
     finddir_tmpfs (zero_node\<lparr>device := 3\<rparr>) [98] s' = Some (Some node) \<and> fname node = [98] \<and>
     unlink_tmpfs (zero_node\<lparr>device := 3\<rparr>) [98] s' = Some s'' \<and>
     finddir_tmpfs (zero_node\<lparr>device := 3\<rparr>) [98] s'' = Some None"
proof -
  obtain d where d: "tdirs small_tmpfs (device (zero_node\<lparr>device := 3\<rparr>)) = Some d" "td_files d = [7]"
    by (simp add: small_tmpfs_def)
  have n: "unused_name [98] d small_tmpfs" using d(2) by (simp add: unused_name_def tmpfs_name_def small_tmpfs_def)
  have f: "name_fits [98]" "tfiles small_tmpfs (tnext small_tmpfs) = None" "tdirs small_tmpfs (tnext small_tmpfs) = None"
    by (simp_all add: name_fits_def small_tmpfs_def)
  have "(0 :: u8) \<notin> set [98]" by simp
  from create_finds [OF d(1) this n f, of 438] show ?thesis by metis
qed

lemma copy_len_back:
  assumes "unat l < unat off" "unat off - unat l < 4096"
  shows "copy_len (l - off) = None"
proof -
  have "int (unat l) < int (unat off)" "int (unat off) < int (unat l) + 4096" using assms by linarith+
  then have u: "uint l < uint off" "uint off < uint l + 4096" by simp_all
  have "uint (l - off) = uint l - uint off + 2 ^ 32" using u(1) by (simp add: uint_sub_if')
  moreover have "uint (l - off) < 2 ^ 31" if "\<not> sint (l - off) < 0"
    using that uint_sint [of "l - off"] sint_lt [of "l - off"] by (simp add: take_bit_int_eq_self)
  ultimately have "sint (l - off) < 0" using u(2) by fastforce
  then show ?thesis by (simp add: copy_len_def)
qed

text \<open>
  C39. A read that starts behind the end of a file, in the block the file ends in, is not an empty
  read: the size it computes is negative and the copy runs out of every buffer.
\<close>
theorem read_behind_end:
  assumes "tfiles s (device node) = Some t" "tf_length t < off" "off div 0x1000 = tf_length t div 0x1000"
    "unat off + unat sz < 2 ^ 32"
  shows "read_tmpfs node off sz buf s = None"
proof -
  have l: "unat (tf_length t) < unat off" using assms(2) by (simp add: word_less_nat_alt)
  have q: "unat off div 4096 = unat (tf_length t) div 4096"
    using arg_cong [OF assms(3), of unat] by (simp add: unat_div)
  have "unat off - unat (tf_length t) < 4096" 
    using q dividend_less_div_times [of 4096 "unat off"] times_div_less_eq_dividend [of 4096 "unat (tf_length t)"] by simp
  then have c: "copy_len (tf_length t - off) = None" by (rule copy_len_back [OF l])
  have "unat (off + sz) = unat off + unat sz" using assms(4) unat_add_lem [of off sz] by simp
  then have g: "(tf_length t < off + sz) = True" using l by (simp only: word_less_nat_alt) simp
  have e: "(off = tf_length t) = False" using l by auto
  show ?thesis using assms(1,3) c by (simp add: read_tmpfs_def upd_file_def Let_def BLOCKSIZE_def g e)
qed

theorem read_behind_end_witness: "read_tmpfs (zero_node\<lparr>device := 7\<rparr>) 6 1 [0] small_tmpfs = None"
proof -
  obtain t where "tfiles small_tmpfs (device (zero_node\<lparr>device := 7\<rparr>)) = Some t" "tf_length t = 5"
    by (simp add: small_tmpfs_def)
  with read_behind_end [of small_tmpfs "zero_node\<lparr>device := 7\<rparr>" t 6 1 "[0]"] show ?thesis by simp
qed

end
