(* ===== verification/Spec2Isabelle.thy ===== *)
theory Spec2Isabelle
  imports Prelude CList KStrings Hashmap CTree Pipe Paging Vfs Clock Tmpfs
begin

text \<open>
  A verification of the portable core of the ChiffOS kernel (\<^verbatim>\<open>src/kernel\<close>), a small 32-bit x86
  kernel written in C.  The code is translated into executable definitions, one per C function
  and with its name; the properties are numbered \<open>C1\<close>, \<open>C2\<close>, \dots in the theories that prove them.

  \<^bold>\<open>The program.\<close>  The kernel boots with paging off and a placement allocator, installs page
  directories and a bitmap of physical frames (\<^verbatim>\<open>mem/mem.c\<close>) and then a heap of small bins and a
  skip list of big blocks (\<^verbatim>\<open>mem/alloc.c\<close>) that grows by \<^verbatim>\<open>sbrk\<close>.  On it stand the C library
  routines (\<^verbatim>\<open>kutils.c\<close>) and the containers: doubly linked lists (\<^verbatim>\<open>list.c\<close>), hash maps (\<^verbatim>\<open>hashmap.c\<close>),
  trees (\<^verbatim>\<open>tree.c\<close>) and blocking ring buffers (\<^verbatim>\<open>ringbuffer.c\<close>).  Pipes (\<^verbatim>\<open>pipe.c\<close>, \<^verbatim>\<open>unixpipe.c\<close>) are
  built from the buffers; the virtual file system (\<^verbatim>\<open>fs/vfs.c\<close>) keeps a tree of mount points and a
  hash map of file system types and dispatches every file operation to the driver of the node.
  One driver is the temporary file system (\<^verbatim>\<open>tmpfs.c\<close>), whose blocks are physical frames mapped one
  at a time into a window page, and whose time stamps come from the clock (\<^verbatim>\<open>cmos.c\<close>, \<^verbatim>\<open>dev/timer.c\<close>).

  \<^bold>\<open>Conventions\<close> (theory \<open>Prelude\<close>).  A fault of the C program - a null or dangling pointer, a read
  outside an array, a loop that never ends - is the value \<open>None\<close>; everything else is \<open>Some\<close> result
  with the new state.  \<^verbatim>\<open>size_t\<close> is a signed int in \<^verbatim>\<open>types.h\<close> and is modelled by \<open>int\<close>; unsigned types
  are words of their width, so that sums wrap.  Loops over data are structural recursion; loops
  that may not end are \<open>partial_function (option)\<close>, and where the code should return the
  properties say that it does.  No definition uses fuel.  A process that sleeps is given the list
  of what the others do to the shared record until it is woken.

  \<^bold>\<open>Theories, code and what is shown.\<close>
  \<^item> \<open>Interfaces\<close>: the contracts between components as locales (sequences, maps, bounded queues),
    each interpreted on the model's operations in the theory of its provider.
  \<^item> \<open>CList\<close> (\<^verbatim>\<open>list.c\<close>): an explicit heap of list headers and nodes.  The predicate that a header
    owns a sequence of nodes is kept by every operation; insertion, deletion and merging are the
    updates of the sequence; \<^verbatim>\<open>list_remove\<close> at the length and \<^verbatim>\<open>list_copy\<close> are shown to fail.
  \<^item> \<open>Kutils\<close>, \<open>KStrings\<close> (\<^verbatim>\<open>kutils.c\<close>): a flat byte memory.  The word-at-a-time search equals the byte
    scan, \<^verbatim>\<open>memmove\<close> moves exactly for every overlap and alignment, tokens are maximal, \<^verbatim>\<open>strlcpy\<close>
    stays in bounds, \<^verbatim>\<open>strcpy\<close> leaves its result unterminated.
  \<^item> \<open>Hashmap\<close> (\<^verbatim>\<open>hashmap.c\<close>): chains of entries refine a finite map.
  \<^item> \<open>CTree\<close> (\<^verbatim>\<open>tree.c\<close>): a heap of tree nodes; updates keep the tree, walks visit every node once.
  \<^item> \<open>Ringbuffer\<close>, \<open>Pipe\<close> (\<^verbatim>\<open>ringbuffer.c\<close>, \<^verbatim>\<open>unixpipe.c\<close>, \<^verbatim>\<open>pipe.c\<close>): both circular buffers are bounded
    queues; readers return once fed, writers complete once drained, lines come back unchanged.
  \<^item> \<open>Frames\<close> (first half of \<^verbatim>\<open>mem.c\<close>): the frame bitmap, page table entries and \<^verbatim>\<open>sbrk\<close>.  No frame is
    shared by two entries; \<^verbatim>\<open>sbrk\<close> backs and clears exactly the new pages.
  \<^item> \<open>Alloc\<close> (\<^verbatim>\<open>alloc.c\<close>): every operation of the allocator on the bytes of the heap; the bin of a
    request is the smallest that holds it.
  \<^item> \<open>Paging\<close> (second half of \<^verbatim>\<open>mem.c\<close>, the page copy of \<^verbatim>\<open>asm/task.S\<close>): directories, tables, cloning and
    the boot sequence.  A cloned table has frames of its own with the same contents.
  \<^item> \<open>VfsPath\<close>, \<open>Vfs\<close> (\<^verbatim>\<open>fs/vfs.c\<close>): canonical paths, mounting as an update of a table from sequences
    of names to file systems, look-up of the longest mounted prefix, opening through symbolic
    links (those shorter than the buffer of \<^verbatim>\<open>kopen_recur\<close>), reference counts.  Drivers are the parameter \<open>fs_ops\<close>, one function per operation.
  \<^item> \<open>Clock\<close> (\<^verbatim>\<open>cmos.c\<close>, \<^verbatim>\<open>dev/timer.c\<close>, \<^verbatim>\<open>localtime.c\<close>): dumps of the clock registers are arguments.  The
    seconds computed from the registers are those of the calendar and \<^verbatim>\<open>localtime_r\<close> takes them back
    to the same date, but not in December, where it is shown to return the null pointer.
  \<^item> \<open>Tmpfs\<close> (\<^verbatim>\<open>tmpfs.c\<close>): stores of files and directories beside the state of the memory manager.  The
    array of a file's blocks grows by \<^verbatim>\<open>klrealloc\<close>, with the size that it reads from the page header: for
    an array that \<^verbatim>\<open>malloc\<close> gave this is a word of the array's own page, and the second block may be
    lost (\<open>embiggen_loses_block\<close>).  When the array does not grow in this way, what is written is read
    back, across blocks and without touching other files, and blocks stay marked frames of one file;
    truncating returns them; created names are found until unlinked.  Writes are considered below
    2 GB and while there are free frames.  The heap's own use of frames is not part of this state.
    A read that starts behind the end is shown to copy a negative size, which is a fault of the model.

  \<^bold>\<open>Not modelled.\<close>  Device drivers and everything whose effect is in port input and output, in
  registers or on the screen (\<^verbatim>\<open>dev\<close> but for the tick counter, \<^verbatim>\<open>pci.c\<close>, \<^verbatim>\<open>8139.c\<close>, \<^verbatim>\<open>vidset.c\<close>, \<^verbatim>\<open>video.c\<close>,
  \<^verbatim>\<open>serial.c\<close>, \<^verbatim>\<open>fpu.c\<close>, the assembly files but for the page copy); the sleeps of \<^verbatim>\<open>dev/timer.c\<close>, which wait
  for interrupts; the page fault handler, which prints and spins; debug and formatted output
  (\<^verbatim>\<open>vsprintf.c\<close>, \<^verbatim>\<open>kprintf.c\<close>, \<^verbatim>\<open>strftime.c\<close>); processes, signals and the program loader (\<^verbatim>\<open>task/proc.c\<close>,
  \<^verbatim>\<open>signal.c\<close>, \<^verbatim>\<open>elf.c\<close>), which switch stacks and registers in the middle of a function; the system call
  table and the terminals on top of them; the virtual 8086 monitor; \<^verbatim>\<open>ext2.c\<close>, \<^verbatim>\<open>mem/shm.c\<close> and
  \<^verbatim>\<open>bitset.c\<close>, which have not been translated; the vendored network stack \<^verbatim>\<open>lwip\<close>; the programs under
  \<^verbatim>\<open>src/user\<close>.  Interrupts and spin locks, all commented out in the sources, are not modelled: an
  operation runs to its end, but for the places where it sleeps.
\<close>

end
